(* ===== verification/Prelude.thy ===== *)
theory Prelude
  imports Main "HOL-Library.Word" "HOL-Library.Sublist"
begin

text \<open>
  Shared vocabulary of the development: bytes and strings (Go strings and byte slices
  are byte sequences, modelled as \<^typ>\<open>string\<close>, one \<^typ>\<open>char\<close> per byte), the
  outcome of code that can panic, 64-bit integers, and the functions of Go's standard
  library (\<open>strconv\<close>, \<open>strings\<close>) that the repository calls, with the lemmas the
  components share.
\<close>

section \<open>Collections and types\<close>

named_theorems byte_simps \<open>conversions between bytes and numbers\<close>
named_theorems go_simps \<open>unfolding of the standard-library functions\<close>

unbundle bit_operations_syntax

type_synonym bytes = string
type_synonym u64 = "64 word"

text \<open>
  A Go call either returns or panics. No goroutine of the program recovers, so a panic
  ends the process; it is kept apart from the \<open>error\<close> values a call returns.
\<close>

datatype 'a outcome = Done 'a | Panic string

definition bind_outcome :: "'a outcome \<Rightarrow> ('a \<Rightarrow> 'b outcome) \<Rightarrow> 'b outcome" where
  "bind_outcome r f = (case r of Done x \<Rightarrow> f x | Panic m \<Rightarrow> Panic m)"

lemma bind_outcome_simps [simp]:
  "bind_outcome (Done x) f = f x"
  "bind_outcome (Panic m) f = Panic m"
  by (simp_all add: bind_outcome_def)

lemma bind_outcome_Done:
  "bind_outcome r f = Done y \<longleftrightarrow> (\<exists>x. r = Done x \<and> f x = Done y)"
  by (cases r) auto

lemma bind_outcome_DoneE:
  assumes "bind_outcome r f = Done y"
  obtains x where "r = Done x" and "f x = Done y"
  using assms by (auto simp: bind_outcome_Done)

section \<open>Step relations\<close>

text \<open>What every step of a relation keeps, every run keeps.\<close>

locale invariant =
  fixes step :: "'s \<Rightarrow> 's \<Rightarrow> bool"
    and inv :: "'s \<Rightarrow> bool"
  assumes inv_step: "inv s \<Longrightarrow> step s s' \<Longrightarrow> inv s'"
begin

lemma inv_run: "step\<^sup>*\<^sup>* s s' \<Longrightarrow> inv s \<Longrightarrow> inv s'"
  by (induction rule: rtranclp_induct) (auto intro: inv_step)

end

section \<open>Bytes\<close>

definition byte_val :: "char \<Rightarrow> nat" where
  "byte_val c = of_char c"

definition byte_of :: "nat \<Rightarrow> char" where
  "byte_of n = char_of n"

lemma byte_val_of [byte_simps, simp]: "byte_val (byte_of n) = n mod 256"
  by (simp add: byte_val_def byte_of_def)

lemma byte_val_of_less [byte_simps, simp]: "n < 256 \<Longrightarrow> byte_val (byte_of n) = n"
  by simp

lemma byte_of_val [byte_simps, simp]: "byte_of (byte_val c) = c"
  by (simp add: byte_val_def byte_of_def)

lemma byte_val_less [simp]: "byte_val c < 256"
  using byte_val_of [of "byte_val c"] by simp

lemma byte_val_eq_iff [simp]: "byte_val c = byte_val d \<longleftrightarrow> c = d"
  by (metis byte_of_val)

lemma byte_val_take_bit: "byte_val (byte_of m) = take_bit 8 m"
  by (simp add: take_bit_eq_mod)

lemma unat_u64_less: "unat (y :: u64) < 2 ^ 64"
  using unsigned_less [where 'a = nat and w = y] by simp

lemma u64_pos: "(w :: u64) \<noteq> 0 \<Longrightarrow> 0 < unat w"
  by (metis neq0_conv unsigned_0 word_unat_eq_iff)

lemma unat_Suc: "unat (w :: u64) + 1 < 2 ^ 64 \<Longrightarrow> unat (w + 1) = Suc (unat w)"
  by (simp add: unat_word_ariths)

lemma unat_u64_of_nat: "n < 2 ^ 64 \<Longrightarrow> unat (of_nat n :: u64) = n"
  by (simp add: unat_of_nat take_bit_nat_eq_self)

lemma u64_of_nat_neq_0: "0 < n \<Longrightarrow> n < 2 ^ 64 \<Longrightarrow> (of_nat n :: u64) \<noteq> 0"
  using unat_u64_of_nat [of n] by (metis less_not_refl2 unsigned_0)

section \<open>Signed 64-bit integers\<close>

text \<open>
  \<open>int64\<close> (and \<open>int\<close> on the 64-bit targets) as \<^typ>\<open>int\<close> with the two's-complement
  wrap-around written out.
\<close>

definition wrap64 :: "int \<Rightarrow> int" where
  "wrap64 i = (i + 2 ^ 63) mod 2 ^ 64 - 2 ^ 63"

definition max_int64 :: int where
  "max_int64 = 2 ^ 63 - 1"

definition min_int64 :: int where
  "min_int64 = - (2 ^ 63)"

definition max_uint64 :: nat where
  "max_uint64 = 2 ^ 64 - 1"

lemma wrap64_range: "min_int64 \<le> wrap64 i \<and> wrap64 i \<le> max_int64"
proof -
  have "0 \<le> (i + 2 ^ 63) mod (2 ^ 64 :: int)" and "(i + 2 ^ 63) mod (2 ^ 64 :: int) < 2 ^ 64"
    by simp_all
  then show ?thesis by (simp add: wrap64_def min_int64_def max_int64_def)
qed

lemma wrap64_id: "min_int64 \<le> i \<Longrightarrow> i \<le> max_int64 \<Longrightarrow> wrap64 i = i"
  by (simp add: wrap64_def min_int64_def max_int64_def)

lemma wrap64_over:
  assumes "2 ^ 63 \<le> i" and "i < 2 ^ 64 + 2 ^ 63"
  shows "wrap64 i = i - 2 ^ 64"
proof -
  have "(i + 2 ^ 63) mod (2 ^ 64) = (i - 2 ^ 63) mod (2 ^ 64 :: int)"
    using mod_add_self2 [of "i - 2 ^ 63" "2 ^ 64 :: int"] by (simp add: add.commute)
  also have "\<dots> = i - 2 ^ 63" using assms by (intro mod_pos_pos_trivial) linarith+
  finally show ?thesis by (simp add: wrap64_def)
qed

lemma wrap64_under:
  assumes "- (2 ^ 64) - 2 ^ 63 \<le> i" and "i < - (2 ^ 63)"
  shows "wrap64 i = i + 2 ^ 64"
proof -
  have "(i + 2 ^ 63) mod (2 ^ 64) = (i + 2 ^ 63 + 2 ^ 64) mod (2 ^ 64 :: int)"
    by (simp only: mod_add_self2)
  also have "\<dots> = i + 2 ^ 63 + 2 ^ 64" using assms by (intro mod_pos_pos_trivial) linarith+
  finally show ?thesis by (simp add: wrap64_def)
qed

section \<open>Decimal numbers: strconv\<close>

definition digit_char :: "nat \<Rightarrow> char" where
  "digit_char d = byte_of (48 + d)"

definition is_digit :: "char \<Rightarrow> bool" where
  "is_digit c \<longleftrightarrow> 48 \<le> byte_val c \<and> byte_val c \<le> 57"

definition digit_val :: "char \<Rightarrow> nat" where
  "digit_val c = byte_val c - 48"

fun format_uint :: "nat \<Rightarrow> string" where
  "format_uint n =
     (if n < 10 then [digit_char n] else format_uint (n div 10) @ [digit_char (n mod 10)])"

declare format_uint.simps [simp del]

definition format_int :: "int \<Rightarrow> string" where
  "format_int i = (if i < 0 then CHR ''-'' # format_uint (nat (- i)) else format_uint (nat i))"

datatype num_error = ErrSyntax | ErrRange

text \<open>
  The digit loop of \<open>ParseUint\<close> (base 10, 64 bits): a character that is no digit is a
  syntax error, a value past the largest \<open>uint64\<close> a range error, whichever comes first.
\<close>

fun parse_digits :: "nat \<Rightarrow> string \<Rightarrow> num_error + nat" where
  "parse_digits n [] = Inr n"
| "parse_digits n (c # cs) =
     (if \<not> is_digit c then Inl ErrSyntax
      else let m = 10 * n + digit_val c in
        if max_uint64 < m then Inl ErrRange else parse_digits m cs)"

definition parse_uint :: "string \<Rightarrow> num_error + nat" where
  "parse_uint s = (if s = [] then Inl ErrSyntax else parse_digits 0 s)"

text \<open>
  \<open>ParseInt\<close> returns a value together with its error: 0 on a syntax error and the nearest
  representable value on a range error. Callers that drop the error see that value.
  \<open>Atoi\<close> is \<open>ParseInt\<close> at the width of \<open>int\<close>, which is 64.
\<close>

definition parse_int :: "string \<Rightarrow> int \<times> num_error option" where
  "parse_int s =
     (let neg = (s \<noteq> [] \<and> hd s = CHR ''-'');
          body = (if s \<noteq> [] \<and> (hd s = CHR ''-'' \<or> hd s = CHR ''+'') then tl s else s)
      in case parse_uint body of
           Inl ErrSyntax \<Rightarrow> (0, Some ErrSyntax)
         | Inl ErrRange \<Rightarrow> (if neg then (min_int64, Some ErrRange) else (max_int64, Some ErrRange))
         | Inr u \<Rightarrow>
             if \<not> neg \<and> 2 ^ 63 \<le> u then (max_int64, Some ErrRange)
             else if neg \<and> 2 ^ 63 < u then (min_int64, Some ErrRange)
             else (if neg then - int u else int u, None))"

definition atoi :: "string \<Rightarrow> num_error + int" where
  "atoi s = (case parse_int s of (v, None) \<Rightarrow> Inr v | (_, Some e) \<Rightarrow> Inl e)"

lemma digit_char_props [simp]:
  assumes "d < 10"
  shows "is_digit (digit_char d)" "digit_val (digit_char d) = d"
  using assms by (simp_all add: is_digit_def digit_val_def digit_char_def)

lemma format_uint_digits: "c \<in> set (format_uint n) \<Longrightarrow> is_digit c"
proof (induction n rule: format_uint.induct)
  case (1 n)
  then show ?case
    by (subst (asm) (2) format_uint.simps) (auto split: if_splits)
qed

lemma format_uint_not_Nil [simp]: "format_uint n \<noteq> []"
  by (subst format_uint.simps) simp

lemma parse_digits_append:
  "parse_digits n (xs @ ys) =
     (case parse_digits n xs of Inl e \<Rightarrow> Inl e | Inr m \<Rightarrow> parse_digits m ys)"
  by (induction n xs rule: parse_digits.induct) (simp_all add: Let_def)

lemma parse_digits_format: "n \<le> max_uint64 \<Longrightarrow> parse_digits 0 (format_uint n) = Inr n"
proof (induction n rule: format_uint.induct)
  case (1 n)
  show ?case
  proof (cases "n < 10")
    case True
    then show ?thesis by (subst format_uint.simps) (simp add: max_uint64_def)
  next
    case False
    from 1(2) have "n div 10 \<le> max_uint64"
      by (meson div_le_dividend le_trans)
    with 1(1) False have "parse_digits 0 (format_uint (n div 10)) = Inr (n div 10)" by simp
    with False 1(2) show ?thesis
      by (subst format_uint.simps) (simp add: parse_digits_append)
  qed
qed

lemma parse_uint_format: "n \<le> max_uint64 \<Longrightarrow> parse_uint (format_uint n) = Inr n"
  by (simp add: parse_uint_def parse_digits_format)

lemma parse_digits_bound: "parse_digits n s = Inr m \<Longrightarrow> n \<le> max_uint64 \<Longrightarrow> m \<le> max_uint64"
  by (induction n s rule: parse_digits.induct) (auto simp: Let_def split: if_splits)

lemma hd_format_uint: "is_digit (hd (format_uint n))"
  by (rule format_uint_digits [of _ n]) simp

lemma not_digit_sign [simp]: "\<not> is_digit CHR ''-''" "\<not> is_digit CHR ''+''"
  by (simp_all add: is_digit_def byte_val_def)

lemma parse_int_format:
  assumes "min_int64 \<le> i" and "i \<le> max_int64"
  shows "parse_int (format_int i) = (i, None)"
proof (cases "i < 0")
  case True
  have "nat (- i) \<le> max_uint64" and b: "nat (- i) \<le> 2 ^ 63"
    using assms True by (simp_all add: min_int64_def max_uint64_def nat_le_iff)
  then have "parse_uint (format_uint (nat (- i))) = Inr (nat (- i))"
    by (simp add: parse_uint_format)
  with True b show ?thesis by (simp add: parse_int_def format_int_def)
next
  case False
  have "nat i \<le> max_uint64" and b: "nat i < 2 ^ 63"
    using assms False by (simp_all add: max_int64_def max_uint64_def nat_le_iff)
  moreover have "hd (format_uint (nat i)) \<noteq> CHR ''-''" and "hd (format_uint (nat i)) \<noteq> CHR ''+''"
    using hd_format_uint [of "nat i"] by (metis not_digit_sign)+
  ultimately show ?thesis using False
    by (simp add: parse_int_def format_int_def parse_uint_format)
qed

lemma atoi_format: "min_int64 \<le> i \<Longrightarrow> i \<le> max_int64 \<Longrightarrow> atoi (format_int i) = Inr i"
  by (simp add: atoi_def parse_int_format)

lemma parse_int_range: "min_int64 \<le> fst (parse_int s) \<and> fst (parse_int s) \<le> max_int64"
  by (auto simp: parse_int_def Let_def min_int64_def max_int64_def
      split: sum.splits num_error.splits)

end
