(* ===== verification/Gostrings.thy ===== *)
theory Gostrings
  imports Prelude
begin

text \<open>
  The functions of Go's \<open>strings\<close> package (and \<open>strconv.Quote\<close>) that the repository
  calls, on byte strings, and the facts about them that the parsers of the command line,
  the password file and the watermark file rely on.

  White space is Unicode white space. Its UTF-8 encodings start with a byte that is never
  a continuation byte, so they are recognised by matching bytes. Upper-casing and quoting
  of text outside ASCII depend on the Unicode tables: that part is an argument (\<open>uni\<close>).
\<close>

section \<open>Prefixes, suffixes, searching\<close>

definition has_prefix :: "string \<Rightarrow> string \<Rightarrow> bool" where
  "has_prefix s p \<longleftrightarrow> take (length p) s = p"

definition has_suffix :: "string \<Rightarrow> string \<Rightarrow> bool" where
  "has_suffix s p \<longleftrightarrow> length p \<le> length s \<and> drop (length s - length p) s = p"

definition trim_suffix :: "string \<Rightarrow> string \<Rightarrow> string" where
  "trim_suffix s p = (if has_suffix s p then take (length s - length p) s else s)"

lemma has_prefix_iff: "has_prefix s p \<longleftrightarrow> prefix p s"
  by (metis has_prefix_def prefix_def append_eq_conv_conj append_take_drop_id)

lemma has_suffix_append [simp]: "has_suffix (s @ p) p"
  by (simp add: has_suffix_def)

lemma trim_suffix_append [simp]: "trim_suffix (s @ p) p = s"
  by (simp add: trim_suffix_def)

definition cut :: "char \<Rightarrow> string \<Rightarrow> string \<times> string \<times> bool" where
  "cut c s = (if c \<in> set s
     then (takeWhile (\<lambda>x. x \<noteq> c) s, tl (dropWhile (\<lambda>x. x \<noteq> c) s), True)
     else (s, [], False))"

lemma cut_append: "c \<notin> set u \<Longrightarrow> cut c (u @ c # p) = (u, p, True)"
  by (induction u) (auto simp: cut_def)

fun split_on :: "char \<Rightarrow> string \<Rightarrow> string list" where
  "split_on c [] = [[]]"
| "split_on c (x # xs) =
     (if x = c then [] # split_on c xs
      else case split_on c xs of [] \<Rightarrow> [[x]] | y # ys \<Rightarrow> (x # y) # ys)"

lemma split_on_not_Nil [simp]: "split_on c s \<noteq> []"
  by (induction s) (auto split: list.splits)

lemma split_on_line: "c \<notin> set u \<Longrightarrow> split_on c (u @ c # s) = u # split_on c s"
  by (induction u) auto

section \<open>Case conversion\<close>

definition is_ascii :: "string \<Rightarrow> bool" where
  "is_ascii s \<longleftrightarrow> list_all (\<lambda>c. byte_val c < 128) s"

definition upper_char :: "char \<Rightarrow> char" where
  "upper_char c = (if 97 \<le> byte_val c \<and> byte_val c \<le> 122 then byte_of (byte_val c - 32) else c)"

definition lower_char :: "char \<Rightarrow> char" where
  "lower_char c = (if 65 \<le> byte_val c \<and> byte_val c \<le> 90 then byte_of (byte_val c + 32) else c)"

definition to_upper :: "(string \<Rightarrow> string) \<Rightarrow> string \<Rightarrow> string" where
  "to_upper uni s = (if is_ascii s then map upper_char s else uni s)"

lemma upper_char_ascii: "byte_val c < 128 \<Longrightarrow> byte_val (upper_char c) < 128"
  by (auto simp: upper_char_def)

lemma upper_char_idem [simp]: "upper_char (upper_char c) = upper_char c"
  by (auto simp: upper_char_def)

lemma upper_lower_char [simp]: "upper_char (lower_char c) = upper_char c"
  by (auto simp: upper_char_def lower_char_def)

lemma is_ascii_upper [simp]: "is_ascii s \<Longrightarrow> is_ascii (map upper_char s)"
  by (auto simp: is_ascii_def list_all_iff upper_char_ascii)

lemma to_upper_idem: "is_ascii s \<Longrightarrow> to_upper uni (to_upper uni s) = to_upper uni s"
  by (simp add: to_upper_def)

section \<open>White space\<close>

definition space_len :: "bytes \<Rightarrow> nat" where
  "space_len s =
     (case map byte_val (take 3 s) of
        [] \<Rightarrow> 0
      | b # bs \<Rightarrow>
          if b = 32 \<or> (9 \<le> b \<and> b \<le> 13) then 1
          else if b = 0xC2 \<and> bs \<noteq> [] \<and> (hd bs = 0x85 \<or> hd bs = 0xA0) then 2
          else if length bs < 2 then 0
          else let c = bs ! 0; d = bs ! 1 in
            if b = 0xE1 \<and> c = 0x9A \<and> d = 0x80
              \<or> b = 0xE2 \<and> c = 0x80 \<and> (0x80 \<le> d \<and> d \<le> 0x8A \<or> d = 0xA8 \<or> d = 0xA9 \<or> d = 0xAF)
              \<or> b = 0xE2 \<and> c = 0x81 \<and> d = 0x9F
              \<or> b = 0xE3 \<and> c = 0x80 \<and> d = 0x80
            then 3 else 0)"

text \<open>\<open>Fields\<close>: the maximal runs of non-space characters; \<open>cur\<close> is the run in progress.\<close>

function go_fields_from :: "string \<Rightarrow> bytes \<Rightarrow> string list" where
  "go_fields_from cur [] = (if cur = [] then [] else [cur])"
| "go_fields_from cur (c # cs) =
     (case space_len (c # cs) of
        0 \<Rightarrow> go_fields_from (cur @ [c]) cs
      | Suc k \<Rightarrow> (if cur = [] then [] else [cur]) @ go_fields_from [] (drop k cs))"
  by pat_completeness auto
termination
  by (relation "measure (\<lambda>(cur, s). length s)") auto

definition go_fields :: "bytes \<Rightarrow> string list" where
  "go_fields s = go_fields_from [] s"

function trim_left :: "bytes \<Rightarrow> bytes" where
  "trim_left [] = []"
| "trim_left (c # cs) =
     (case space_len (c # cs) of 0 \<Rightarrow> c # cs | Suc k \<Rightarrow> trim_left (drop k cs))"
  by pat_completeness auto
termination
  by (relation "measure length") auto

definition space_end_len :: "bytes \<Rightarrow> nat" where
  "space_end_len s =
     (let n = length s in
      if 1 \<le> n \<and> space_len (drop (n - 1) s) = 1 then 1
      else if 2 \<le> n \<and> space_len (drop (n - 2) s) = 2 then 2
      else if 3 \<le> n \<and> space_len (drop (n - 3) s) = 3 then 3
      else 0)"

lemma space_end_len_le: "space_end_len s \<le> length s"
  by (auto simp: space_end_len_def Let_def)

function trim_right :: "bytes \<Rightarrow> bytes" where
  "trim_right s =
     (case space_end_len s of 0 \<Rightarrow> s | Suc k \<Rightarrow> trim_right (take (length s - Suc k) s))"
  by pat_completeness auto
termination
proof (relation "measure length", simp)
  fix s :: bytes and k
  assume "space_end_len s = Suc k"
  with space_end_len_le [of s] show "(take (length s - Suc k) s, s) \<in> measure length" by simp
qed

declare trim_right.simps [simp del]

definition trim_space :: "bytes \<Rightarrow> bytes" where
  "trim_space s = trim_right (trim_left s)"

text \<open>A byte of ASCII text that is no white space starts no white space.\<close>

definition plain_char :: "char \<Rightarrow> bool" where
  "plain_char c \<longleftrightarrow> 32 < byte_val c \<and> byte_val c < 128"

lemma space_len_plain [simp]: "plain_char c \<Longrightarrow> space_len (c # s) = 0"
  by (auto simp: space_len_def plain_char_def Let_def)

lemma space_len_blank [simp]: "space_len (CHR '' '' # s) = 1"
  by (simp add: space_len_def byte_val_def)

lemma go_fields_from_plain:
  "list_all plain_char u \<Longrightarrow> go_fields_from cur (u @ s) = go_fields_from (cur @ u) s"
  by (induction u arbitrary: cur) auto

lemma go_fields_words:
  assumes "\<forall>w \<in> set ws. w \<noteq> [] \<and> list_all plain_char w"
  shows "go_fields (concat (map (\<lambda>w. w @ '' '') ws)) = ws"
  unfolding go_fields_def using assms
  by (induction ws) (simp_all add: go_fields_from_plain)

lemma trim_left_plain: "plain_char c \<Longrightarrow> trim_left (c # s) = c # s"
  by simp

lemma space_len_plain_last:
  assumes "plain_char c"
  shows "space_len [x, c] \<noteq> 2" and "space_len [x, y, c] \<noteq> 3"
  using assms by (auto simp: space_len_def plain_char_def Let_def)

lemma space_end_len_plain:
  assumes "plain_char c"
  shows "space_end_len (s @ [c]) = 0"
proof (cases s rule: rev_cases)
  case Nil
  with assms show ?thesis by (simp add: space_end_len_def Let_def)
next
  case (snoc t y)
  then show ?thesis
  proof (cases t rule: rev_cases)
    case Nil
    with assms snoc show ?thesis
      by (simp add: space_end_len_def Let_def space_len_plain_last)
  next
    case (snoc r x)
    with \<open>s = t @ [y]\<close> assms show ?thesis
      by (simp add: space_end_len_def Let_def space_len_plain_last)
  qed
qed

lemma trim_space_plain:
  assumes "s \<noteq> []" and "list_all plain_char s"
  shows "trim_space s = s"
proof -
  obtain t c where s: "s = t @ [c]" and "plain_char c"
    using assms by (cases s rule: rev_cases) auto
  then have "space_end_len s = 0" by (simp add: space_end_len_plain)
  then have "trim_right s = s" by (simp add: trim_right.simps)
  moreover have "trim_left s = s"
    using assms by (cases s) (simp_all add: trim_left_plain)
  ultimately show ?thesis by (simp add: trim_space_def)
qed

lemma plain_digit: "is_digit c \<Longrightarrow> plain_char c"
  by (simp add: is_digit_def plain_char_def)

lemma trim_space_format_uint [simp]: "trim_space (format_uint n) = format_uint n"
  by (rule trim_space_plain) (auto simp: list_all_iff intro: plain_digit format_uint_digits)

section \<open>Quoting\<close>

definition hex_char :: "nat \<Rightarrow> char" where
  "hex_char d = (if d < 10 then byte_of (48 + d) else byte_of (87 + d))"

definition quote_char :: "char \<Rightarrow> string" where
  "quote_char c =
     (let b = byte_val c in
      if b = 34 \<or> b = 92 then [byte_of 92, c]
      else if 32 \<le> b \<and> b \<le> 126 then [c]
      else if b = 7 then [byte_of 92, CHR ''a'']
      else if b = 8 then [byte_of 92, CHR ''b'']
      else if b = 12 then [byte_of 92, CHR ''f'']
      else if b = 10 then [byte_of 92, CHR ''n'']
      else if b = 13 then [byte_of 92, CHR ''r'']
      else if b = 9 then [byte_of 92, CHR ''t'']
      else if b = 11 then [byte_of 92, CHR ''v'']
      else [byte_of 92, CHR ''x'', hex_char (b div 16), hex_char (b mod 16)])"

definition quote :: "(string \<Rightarrow> string) \<Rightarrow> string \<Rightarrow> string" where
  "quote uniq s =
     (if is_ascii s then [byte_of 34] @ concat (map quote_char s) @ [byte_of 34] else uniq s)"

definition visible :: "char \<Rightarrow> bool" where
  "visible c \<longleftrightarrow> 32 \<le> byte_val c \<and> byte_val c \<le> 126"

lemma visible_byte_of [simp]: "visible (byte_of n) \<longleftrightarrow> 32 \<le> n mod 256 \<and> n mod 256 \<le> 126"
  by (simp add: visible_def)

lemma visible_letters [simp]:
  "list_all visible ''abfnrtvx''"
  by (simp add: visible_def byte_val_def)

lemma hex_char_visible: "d < 16 \<Longrightarrow> visible (hex_char d)"
  by (auto simp: hex_char_def)

lemma quote_char_visible:
  assumes "byte_val c < 128"
  shows "list_all visible (quote_char c)"
proof -
  have h: "visible (hex_char (byte_val c div 16))" "visible (hex_char (byte_val c mod 16))"
    using assms by (auto intro!: hex_char_visible)
  have v: "32 \<le> byte_val c \<Longrightarrow> byte_val c \<le> 126 \<Longrightarrow> visible c"
    by (simp add: visible_def)
  show ?thesis
    unfolding quote_char_def Let_def
    using h visible_letters by (simp add: v)
qed

lemma quote_visible: "is_ascii s \<Longrightarrow> list_all visible (quote uniq s)"
  using quote_char_visible
  by (fastforce simp: quote_def is_ascii_def list_all_iff)

end
