(* ===== verification/Framing.thy ===== *)
theory Framing
  imports Prelude
begin

text \<open>
  The contract of a self-delimiting byte encoding: decoding an encoded value followed by
  anything gives the value back and leaves exactly what followed. Both framings of the
  program have it (the records of the write-ahead log and the RESP commands), and so has
  the message encoding; what follows from the contract is proved once, here.
\<close>

fun decode_n :: "(bytes \<Rightarrow> 'e + 'a \<times> bytes) \<Rightarrow> nat \<Rightarrow> bytes \<Rightarrow> 'e + 'a list \<times> bytes" where
  "decode_n dec 0 bs = Inr ([], bs)"
| "decode_n dec (Suc n) bs =
     (case dec bs of
        Inl e \<Rightarrow> Inl e
      | Inr (a, rest) \<Rightarrow>
          (case decode_n dec n rest of Inl e \<Rightarrow> Inl e | Inr (as, rest') \<Rightarrow> Inr (a # as, rest')))"

locale framing =
  fixes enc :: "'a \<Rightarrow> bytes"
    and dec :: "bytes \<Rightarrow> 'e + 'a \<times> bytes"
    and ok :: "'a \<Rightarrow> bool"
  assumes dec_enc: "ok a \<Longrightarrow> dec (enc a @ rest) = Inr (a, rest)"
begin

lemma decode_n_concat:
  "list_all ok as \<Longrightarrow>
     decode_n dec (length as) (concat (map enc as) @ rest) = Inr (as, rest)"
  by (induction as) (simp_all add: dec_enc)

lemma enc_unique:
  assumes "ok a" "ok b" "enc a @ r = enc b @ s"
  shows "a = b \<and> r = s"
proof -
  have "Inr (a, r) = dec (enc b @ s)"
    using dec_enc [OF assms(1), of r] by (simp only: assms(3))
  then show ?thesis by (simp add: dec_enc [OF assms(2)])
qed

lemma concat_enc_unique:
  assumes "list_all ok as" "list_all ok bs" "length as = length bs"
    and "concat (map enc as) @ r = concat (map enc bs) @ s"
  shows "as = bs \<and> r = s"
proof -
  have "Inr (as, r) = decode_n dec (length bs) (concat (map enc bs) @ s)"
    using decode_n_concat [OF assms(1), of r] by (simp only: assms(3,4))
  then show ?thesis by (simp add: decode_n_concat [OF assms(2)])
qed

end

end
