(* ===== verification/Resp.thy ===== *)
theory Resp
  imports Gostrings Framing
begin

text \<open>
  The RESP codec, \<open>internal/resp/resp.go\<close>. A client connection's input is the bytes still
  to come and how the stream ends; \<open>bufio\<close> only changes how many bytes are fetched at a
  time. The writer keeps \<open>bufio\<close>'s buffer and its sticky error, over a connection that
  accepts a number of bytes before it fails.
\<close>

section \<open>Commands\<close>

record command =
  cmd_args :: "bytes list"

definition cmd_name :: "(string \<Rightarrow> string) \<Rightarrow> command \<Rightarrow> string" where
  "cmd_name uni c = (if cmd_args c = [] then [] else to_upper uni (cmd_args c ! 0))"

definition cmd_arg :: "command \<Rightarrow> int \<Rightarrow> string" where
  "cmd_arg c i = (if i < 0 \<or> int (length (cmd_args c)) \<le> i then [] else cmd_args c ! nat i)"

definition cmd_arg_bytes :: "command \<Rightarrow> int \<Rightarrow> bytes option" where
  "cmd_arg_bytes c i = (if i < 0 \<or> int (length (cmd_args c)) \<le> i then None else Some (cmd_args c ! nat i))"

section \<open>The reader\<close>

text \<open>How the input ends: \<open>None\<close> is the peer closing the connection, \<open>io.EOF\<close>.\<close>

record input =
  in_bytes :: bytes
  in_fin :: "string option"

datatype read_error = EEof | EUnexpectedEof | ENet string | EProtocol string

definition new_resp_reader :: "bytes \<Rightarrow> string option \<Rightarrow> input" where
  "new_resp_reader b fin = \<lparr>in_bytes = b, in_fin = fin\<rparr>"

definition end_error :: "input \<Rightarrow> read_error" where
  "end_error r = (case in_fin r of None \<Rightarrow> EEof | Some e \<Rightarrow> ENet e)"

text \<open>\<open>bufio.Reader.ReadBytes\<close> up to and including the first newline.\<close>

definition read_bytes_nl :: "input \<Rightarrow> (read_error + bytes) \<times> input" where
  "read_bytes_nl r =
     (if byte_of 10 \<in> set (in_bytes r)
      then (Inr (takeWhile (\<lambda>c. c \<noteq> byte_of 10) (in_bytes r) @ [byte_of 10]),
            r\<lparr>in_bytes := tl (dropWhile (\<lambda>c. c \<noteq> byte_of 10) (in_bytes r))\<rparr>)
      else (Inl (end_error r), r\<lparr>in_bytes := []\<rparr>))"

definition read_line :: "input \<Rightarrow> (read_error + bytes) \<times> input" where
  "read_line r =
     (case read_bytes_nl r of
        (Inl e, r') \<Rightarrow> (Inl e, r')
      | (Inr line, r') \<Rightarrow>
          if length line < 2 \<or> line ! (length line - 2) \<noteq> byte_of 13 then (Inl (EProtocol '': missing CRLF''), r')
          else (Inr (take (length line - 2) line), r'))"

text \<open>\<open>io.ReadFull\<close> and \<open>Discard\<close>.\<close>

definition read_full :: "nat \<Rightarrow> input \<Rightarrow> (read_error + bytes) \<times> input" where
  "read_full n r =
     (if n \<le> length (in_bytes r) then (Inr (take n (in_bytes r)), r\<lparr>in_bytes := drop n (in_bytes r)\<rparr>)
      else (Inl (if in_bytes r \<noteq> [] \<and> in_fin r = None then EUnexpectedEof else end_error r), r\<lparr>in_bytes := []\<rparr>))"

definition discard :: "nat \<Rightarrow> input \<Rightarrow> read_error option \<times> input" where
  "discard n r =
     (if n \<le> length (in_bytes r) then (None, r\<lparr>in_bytes := drop n (in_bytes r)\<rparr>)
      else (Some (end_error r), r\<lparr>in_bytes := []\<rparr>))"

text \<open>
  \<open>make\<close> panics when the slice would exceed the address space the runtime manages
  (\<open>2^48\<close> bytes on the 64-bit targets; a slice header has 24 bytes).
\<close>

definition max_alloc :: int where
  "max_alloc = 2 ^ 48"

definition makeslice_ok :: "int \<Rightarrow> int \<Rightarrow> bool" where
  "makeslice_ok elem n \<longleftrightarrow> 0 \<le> n \<and> elem * n \<le> max_alloc"

definition read_bulk :: "input \<Rightarrow> ((read_error + bytes) \<times> input) outcome" where
  "read_bulk r =
     (case read_line r of
        (Inl e, r1) \<Rightarrow> Done (Inl e, r1)
      | (Inr h, r1) \<Rightarrow>
          if h = [] \<or> hd h \<noteq> CHR ''$'' then Done (Inl (EProtocol '': expected bulk string''), r1)
          else case atoi (tl h) of
            Inl _ \<Rightarrow> Done (Inl (EProtocol '': bad bulk length''), r1)
          | Inr l \<Rightarrow>
              if l < 0 then Done (Inl (EProtocol '': bad bulk length''), r1)
              else if \<not> makeslice_ok 1 l then Panic ''makeslice: len out of range''
              else (case read_full (nat l) r1 of
                (Inl e, r2) \<Rightarrow> Done (Inl e, r2)
              | (Inr buf, r2) \<Rightarrow>
                  (case discard 2 r2 of
                     (Some e, r3) \<Rightarrow> Done (Inl e, r3)
                   | (None, r3) \<Rightarrow> Done (Inr buf, r3))))"

fun read_bulks :: "nat \<Rightarrow> input \<Rightarrow> ((read_error + bytes list) \<times> input) outcome" where
  "read_bulks 0 r = Done (Inr [], r)"
| "read_bulks (Suc n) r =
     bind_outcome (read_bulk r) (\<lambda>(x, r1).
       case x of
         Inl e \<Rightarrow> Done (Inl e, r1)
       | Inr b \<Rightarrow>
           bind_outcome (read_bulks n r1) (\<lambda>(y, r2).
             case y of Inl e \<Rightarrow> Done (Inl e, r2) | Inr bs \<Rightarrow> Done (Inr (b # bs), r2)))"

definition parse_inline :: "bytes \<Rightarrow> command" where
  "parse_inline line = \<lparr>cmd_args = go_fields line\<rparr>"

definition read_command :: "input \<Rightarrow> ((read_error + command) \<times> input) outcome" where
  "read_command r =
     (case read_line r of
        (Inl e, r1) \<Rightarrow> Done (Inl e, r1)
      | (Inr line, r1) \<Rightarrow>
          if line = [] then Done (Inl (EProtocol []), r1)
          else if hd line \<noteq> CHR ''*'' then Done (Inr (parse_inline line), r1)
          else case atoi (tl line) of
            Inl _ \<Rightarrow> Done (Inl (EProtocol '': bad multi-bulk count''), r1)
          | Inr n \<Rightarrow>
              if n < 1 then Done (Inl (EProtocol '': bad multi-bulk count''), r1)
              else if \<not> makeslice_ok 24 n then Panic ''makeslice: len out of range''
              else bind_outcome (read_bulks (nat n) r1) (\<lambda>(x, r2).
                case x of Inl e \<Rightarrow> Done (Inl e, r2) | Inr as \<Rightarrow> Done (Inr \<lparr>cmd_args = as\<rparr>, r2)))"

section \<open>The writer\<close>

text \<open>\<open>wr_left\<close> bounds what the connection still accepts; \<open>None\<close> is a connection that never fails.\<close>

record writer =
  wr_sent :: bytes
  wr_buf :: bytes
  wr_left :: "nat option"
  wr_err :: "string option"

definition buf_size :: nat where
  "buf_size = 16 * 1024"

definition new_writer :: "nat option \<Rightarrow> writer" where
  "new_writer left = \<lparr>wr_sent = [], wr_buf = [], wr_left = left, wr_err = None\<rparr>"

definition conn_write :: "bytes \<Rightarrow> writer \<Rightarrow> writer" where
  "conn_write b w =
     (case wr_left w of
        None \<Rightarrow> w\<lparr>wr_sent := wr_sent w @ b\<rparr>
      | Some k \<Rightarrow>
          if length b \<le> k then w\<lparr>wr_sent := wr_sent w @ b, wr_left := Some (k - length b)\<rparr>
          else w\<lparr>wr_sent := wr_sent w @ take k b, wr_left := Some 0, wr_err := Some ''broken pipe''\<rparr>)"

definition bw_flush :: "writer \<Rightarrow> writer" where
  "bw_flush w =
     (if wr_err w \<noteq> None \<or> wr_buf w = [] then w
      else let w' = conn_write (wr_buf w) w in
        w'\<lparr>wr_buf := (if wr_err w' = None then [] else drop (length (wr_sent w') - length (wr_sent w)) (wr_buf w))\<rparr>)"

text \<open>
  \<open>bufio.Writer.Write\<close>: what fits is buffered; otherwise the buffer is filled up and
  flushed, and a rest that is longer than the empty buffer goes to the connection at once.
\<close>

definition bw_put :: "bytes \<Rightarrow> writer \<Rightarrow> writer" where
  "bw_put b w =
     (if length b \<le> buf_size - length (wr_buf w) then w\<lparr>wr_buf := wr_buf w @ b\<rparr>
      else conn_write b w)"

definition bw_write :: "bytes \<Rightarrow> writer \<Rightarrow> writer" where
  "bw_write b w =
     (if wr_err w \<noteq> None then w
      else let room = buf_size - length (wr_buf w) in
        if length b \<le> room \<or> wr_buf w = [] then bw_put b w
        else let w' = bw_flush (w\<lparr>wr_buf := wr_buf w @ take room b\<rparr>) in
          if wr_err w' \<noteq> None then w' else bw_put (drop room b) w')"

definition crlf :: bytes where
  "crlf = [byte_of 13, byte_of 10]"

definition resp_flush :: "writer \<Rightarrow> writer" where
  "resp_flush w = bw_flush w"

definition write_simple_string :: "string \<Rightarrow> writer \<Rightarrow> writer" where
  "write_simple_string s w = bw_write (''+'' @ s @ crlf) w"

definition write_error :: "string \<Rightarrow> writer \<Rightarrow> writer" where
  "write_error s w = bw_write (''-'' @ s @ crlf) w"

definition write_int :: "int \<Rightarrow> writer \<Rightarrow> writer" where
  "write_int n w = bw_write ('':'' @ format_int n @ crlf) w"

definition write_null_bulk :: "writer \<Rightarrow> writer" where
  "write_null_bulk w = bw_write (''$-1'' @ crlf) w"

definition write_bulk_string :: "bytes option \<Rightarrow> writer \<Rightarrow> writer" where
  "write_bulk_string b w =
     (case b of
        None \<Rightarrow> write_null_bulk w
      | Some b \<Rightarrow>
          let w1 = bw_write (''$'' @ format_int (int (length b)) @ crlf) w in
          if wr_err w1 \<noteq> None then w1
          else let w2 = bw_write b w1 in
            if wr_err w2 \<noteq> None then w2 else bw_write crlf w2)"

definition write_array_header :: "int \<Rightarrow> writer \<Rightarrow> writer" where
  "write_array_header n w = bw_write (''*'' @ format_int n @ crlf) w"

definition write_null_array :: "writer \<Rightarrow> writer" where
  "write_null_array w = bw_write (''*-1'' @ crlf) w"

definition write_raw :: "bytes \<Rightarrow> writer \<Rightarrow> writer" where
  "write_raw b w = bw_write b w"

section \<open>Encoding commands\<close>

definition encode_bulk :: "bytes \<Rightarrow> bytes" where
  "encode_bulk a = ''$'' @ format_int (int (length a)) @ crlf @ a @ crlf"

definition encode_command :: "bytes list \<Rightarrow> bytes" where
  "encode_command as = ''*'' @ format_int (int (length as)) @ crlf @ concat (map encode_bulk as)"

definition encode_strings :: "string list \<Rightarrow> bytes" where
  "encode_strings as = encode_command as"

section \<open>What reaches the client\<close>

text \<open>
  \<open>emits w s\<close>: of the stream \<open>s\<close> written so far a prefix has been sent; while there was
  no error the rest is in the buffer.
\<close>

definition emits :: "writer \<Rightarrow> bytes \<Rightarrow> bool" where
  "emits w s \<longleftrightarrow> prefix (wr_sent w) s \<and> (wr_err w = None \<longrightarrow> wr_sent w @ wr_buf w = s)"

lemma emits_new [simp]: "emits (new_writer left) []"
  by (simp add: emits_def new_writer_def)

lemma conn_write_emits:
  assumes "wr_err w = None"
  shows "prefix (wr_sent (conn_write b w)) (wr_sent w @ b)"
    and "wr_err (conn_write b w) = None \<Longrightarrow> wr_sent (conn_write b w) = wr_sent w @ b"
    and "wr_buf (conn_write b w) = wr_buf w"
  using assms by (auto simp: conn_write_def take_is_prefix split: option.splits)

lemma bw_flush_emits: "emits w s \<Longrightarrow> emits (bw_flush w) s"
  using conn_write_emits [of w "wr_buf w"] by (auto simp: emits_def bw_flush_def Let_def)

lemma bw_flush_empties: "wr_err (bw_flush w) = None \<Longrightarrow> wr_buf (bw_flush w) = []"
  by (auto simp: bw_flush_def Let_def)

lemma bw_put_emits:
  assumes "emits w s" and "wr_err w = None" and "length b \<le> buf_size - length (wr_buf w) \<or> wr_buf w = []"
  shows "emits (bw_put b w) (s @ b)"
  using assms conn_write_emits [of w b] by (auto simp: emits_def bw_put_def)

lemma bw_write_emits:
  assumes "emits w s"
  shows "emits (bw_write b w) (s @ b)"
proof (cases "wr_err w = None")
  case False
  with assms show ?thesis by (auto simp: bw_write_def emits_def)
next
  case True
  let ?room = "buf_size - length (wr_buf w)"
  show ?thesis
  proof (cases "length b \<le> ?room \<or> wr_buf w = []")
    case True
    with bw_put_emits [OF assms \<open>wr_err w = None\<close> True] \<open>wr_err w = None\<close> show ?thesis by (auto simp: bw_write_def)
  next
    case False
    let ?w = "bw_flush (w\<lparr>wr_buf := wr_buf w @ take ?room b\<rparr>)"
    have "emits (w\<lparr>wr_buf := wr_buf w @ take ?room b\<rparr>) (s @ take ?room b)"
      using assms True by (auto simp: emits_def)
    then have e: "emits ?w (s @ take ?room b)" by (rule bw_flush_emits)
    have split: "s @ b = (s @ take ?room b) @ drop ?room b" by simp
    show ?thesis
    proof (cases "wr_err ?w = None")
      case True
      from bw_put_emits [OF e True] bw_flush_empties [OF True]
      have "emits (bw_put (drop ?room b) ?w) ((s @ take ?room b) @ drop ?room b)" by blast
      with True False \<open>wr_err w = None\<close> show ?thesis by (auto simp: bw_write_def Let_def)
    next
      case err: False
      have "prefix (s @ take ?room b) (s @ b)" by (simp add: take_is_prefix)
      with e err have "emits ?w (s @ b)" by (auto simp: emits_def intro: prefix_order.trans)
      with err False \<open>wr_err w = None\<close> show ?thesis by (auto simp: bw_write_def Let_def)
    qed
  qed
qed

lemma bw_write_err: "wr_err w \<noteq> None \<Longrightarrow> bw_write b w = w"
  by (simp add: bw_write_def)

lemma emits_prefix: "emits w s \<Longrightarrow> wr_err w \<noteq> None \<Longrightarrow> emits w (s @ t)"
  by (auto simp: emits_def intro: prefix_order.trans)

definition bulk_frame :: "bytes option \<Rightarrow> bytes" where
  "bulk_frame b = (case b of None \<Rightarrow> ''$-1'' @ crlf | Some b \<Rightarrow> encode_bulk b)"

lemma write_emits:
  assumes "emits w s"
  shows "emits (write_simple_string m w) (s @ ''+'' @ m @ crlf)"
    and "emits (write_error m w) (s @ ''-'' @ m @ crlf)"
    and "emits (write_int n w) (s @ '':'' @ format_int n @ crlf)"
    and "emits (write_null_bulk w) (s @ ''$-1'' @ crlf)"
    and "emits (write_array_header n w) (s @ ''*'' @ format_int n @ crlf)"
    and "emits (write_null_array w) (s @ ''*-1'' @ crlf)"
    and "emits (write_raw m w) (s @ m)"
    and "emits (write_bulk_string b w) (s @ bulk_frame b)"
proof -
  show "emits (write_simple_string m w) (s @ ''+'' @ m @ crlf)" "emits (write_error m w) (s @ ''-'' @ m @ crlf)"
    "emits (write_int n w) (s @ '':'' @ format_int n @ crlf)" and null: "emits (write_null_bulk w) (s @ ''$-1'' @ crlf)"
    and "emits (write_array_header n w) (s @ ''*'' @ format_int n @ crlf)" "emits (write_null_array w) (s @ ''*-1'' @ crlf)"
    "emits (write_raw m w) (s @ m)"
    unfolding write_simple_string_def write_error_def write_int_def write_null_bulk_def write_array_header_def
      write_null_array_def write_raw_def by (rule bw_write_emits [OF assms])+
  show "emits (write_bulk_string b w) (s @ bulk_frame b)"
  proof (cases b)
    case None
    with null show ?thesis by (simp add: write_bulk_string_def bulk_frame_def)
  next
    case (Some c)
    let ?h = "''$'' @ format_int (int (length c)) @ crlf"
    let ?w1 = "bw_write ?h w" and ?w2 = "bw_write c (bw_write ?h w)"
    have e: "emits ?w1 (s @ ?h)" by (rule bw_write_emits [OF assms])
    have "emits ?w2 ((s @ ?h) @ c)" by (rule bw_write_emits [OF e])
    then have "emits (bw_write crlf ?w2) (((s @ ?h) @ c) @ crlf)" by (rule bw_write_emits)
    moreover have "write_bulk_string b w = bw_write crlf ?w2"
      by (simp add: write_bulk_string_def Some Let_def bw_write_err)
    ultimately show ?thesis by (simp add: Some bulk_frame_def encode_bulk_def)
  qed
qed

lemma flush_delivers:
  "emits w s \<Longrightarrow> wr_err (resp_flush w) = None \<Longrightarrow> wr_sent (resp_flush w) = s"
  using bw_flush_emits [of w s] bw_flush_empties [of w] by (auto simp: resp_flush_def emits_def)

lemma unlimited_no_error:
  "wr_left w = None \<Longrightarrow> wr_err w = None \<Longrightarrow>
     wr_err (bw_write b w) = None \<and> wr_left (bw_write b w) = None \<and> wr_err (bw_flush w) = None \<and> wr_left (bw_flush w) = None"
  by (auto simp: bw_write_def bw_put_def bw_flush_def conn_write_def Let_def)

section \<open>Commands round-trip\<close>

lemma nl_char: "byte_of 10 = CHR 0x0A"
  by code_simp

lemma cr_not_nl [simp]: "byte_of 13 \<noteq> byte_of 10" "byte_of 10 \<noteq> byte_of 13"
  by (simp_all flip: byte_val_eq_iff)

lemma read_line_crlf:
  assumes "byte_of 10 \<notin> set l"
  shows "read_line \<lparr>in_bytes = l @ crlf @ rest, in_fin = fin\<rparr> = (Inr l, \<lparr>in_bytes = rest, in_fin = fin\<rparr>)"
proof -
  have t: "takeWhile (\<lambda>c. c \<noteq> byte_of 10) (l @ crlf @ rest) = l @ [byte_of 13]"
    using assms by (subst takeWhile_append2) (auto simp: crlf_def)
  have d: "dropWhile (\<lambda>c. c \<noteq> byte_of 10) (l @ crlf @ rest) = byte_of 10 # rest"
    using assms by (subst dropWhile_append2) (auto simp: crlf_def)
  have "read_bytes_nl \<lparr>in_bytes = l @ crlf @ rest, in_fin = fin\<rparr> =
      (Inr (l @ crlf), \<lparr>in_bytes = rest, in_fin = fin\<rparr>)"
    unfolding read_bytes_nl_def by (simp add: t d) (simp add: crlf_def)
  then show ?thesis by (simp add: read_line_def crlf_def nth_append)
qed

lemma format_int_no_nl: "byte_of 10 \<notin> set (format_int i)"
proof
  assume "byte_of 10 \<in> set (format_int i)"
  then have "byte_of 10 = CHR ''-'' \<or> is_digit (byte_of 10)"
    by (auto simp: format_int_def split: if_splits dest: format_uint_digits)
  then show False by (auto simp: is_digit_def byte_val_def nl_char)
qed

definition arg_ok :: "bytes \<Rightarrow> bool" where
  "arg_ok a \<longleftrightarrow> int (length a) \<le> max_alloc"

definition args_ok :: "bytes list \<Rightarrow> bool" where
  "args_ok as \<longleftrightarrow> as \<noteq> [] \<and> 24 * int (length as) \<le> max_alloc \<and> list_all arg_ok as"

lemma atoi_length:
  assumes "int n \<le> max_alloc"
  shows "atoi (format_int (int n)) = Inr (int n)"
  using assms by (intro atoi_format) (simp_all add: max_alloc_def min_int64_def max_int64_def)

lemma read_bulk_encode:
  assumes "arg_ok a"
  shows "read_bulk \<lparr>in_bytes = encode_bulk a @ rest, in_fin = fin\<rparr> = Done (Inr a, \<lparr>in_bytes = rest, in_fin = fin\<rparr>)"
proof -
  have "byte_of 10 \<notin> set (CHR ''$'' # format_int (int (length a)))"
    using format_int_no_nl by (auto simp: nl_char)
  from read_line_crlf [OF this, of "a @ crlf @ rest" fin]
  have "read_line \<lparr>in_bytes = encode_bulk a @ rest, in_fin = fin\<rparr> =
      (Inr (CHR ''$'' # format_int (int (length a))), \<lparr>in_bytes = a @ crlf @ rest, in_fin = fin\<rparr>)"
    by (simp add: encode_bulk_def)
  then show ?thesis
    using assms atoi_length [of "length a"]
    by (simp add: read_bulk_def makeslice_ok_def arg_ok_def read_full_def discard_def) (simp add: crlf_def)
qed

lemma read_bulks_encode:
  "list_all arg_ok as \<Longrightarrow>
   read_bulks (length as) \<lparr>in_bytes = concat (map encode_bulk as) @ rest, in_fin = fin\<rparr> =
     Done (Inr as, \<lparr>in_bytes = rest, in_fin = fin\<rparr>)"
  by (induction as) (simp_all add: read_bulk_encode)

lemma read_command_encode:
  assumes "args_ok as"
  shows "read_command \<lparr>in_bytes = encode_command as @ rest, in_fin = fin\<rparr> =
    Done (Inr \<lparr>cmd_args = as\<rparr>, \<lparr>in_bytes = rest, in_fin = fin\<rparr>)"
proof -
  have "byte_of 10 \<notin> set (CHR ''*'' # format_int (int (length as)))"
    using format_int_no_nl by (auto simp: nl_char)
  from read_line_crlf [OF this, of "concat (map encode_bulk as) @ rest" fin]
  have "read_line \<lparr>in_bytes = encode_command as @ rest, in_fin = fin\<rparr> =
      (Inr (CHR ''*'' # format_int (int (length as))), \<lparr>in_bytes = concat (map encode_bulk as) @ rest, in_fin = fin\<rparr>)"
    by (simp add: encode_command_def)
  moreover have "1 \<le> int (length as)" using assms by (cases as) (auto simp: args_ok_def)
  ultimately show ?thesis
    using assms atoi_length [of "length as"]
    by (simp add: read_command_def makeslice_ok_def args_ok_def read_bulks_encode)
qed

text \<open>The command codec has the framing contract.\<close>

definition dec_command :: "bytes \<Rightarrow> read_error option + bytes list \<times> bytes" where
  "dec_command bs =
     (case read_command \<lparr>in_bytes = bs, in_fin = None\<rparr> of
        Panic _ \<Rightarrow> Inl None
      | Done (Inl e, r) \<Rightarrow> Inl (Some e)
      | Done (Inr c, r) \<Rightarrow> Inr (cmd_args c, in_bytes r))"

interpretation cmd: framing encode_command dec_command args_ok
  by unfold_locales (simp add: dec_command_def read_command_encode)

section \<open>The reader makes progress\<close>

lemma read_line_shorter: "read_line r = (Inr l, r') \<Longrightarrow> length (in_bytes r') < length (in_bytes r) \<and> in_fin r' = in_fin r"
proof -
  assume a: "read_line r = (Inr l, r')"
  have "length (dropWhile (\<lambda>c. c \<noteq> byte_of 10) (in_bytes r)) \<le> length (in_bytes r)" by (rule length_dropWhile_le)
  moreover have "byte_of 10 \<in> set (in_bytes r) \<Longrightarrow> dropWhile (\<lambda>c. c \<noteq> byte_of 10) (in_bytes r) \<noteq> []"
    by (auto simp: dropWhile_eq_Nil_conv)
  ultimately show ?thesis
    using a by (cases "dropWhile (\<lambda>c. c \<noteq> byte_of 10) (in_bytes r)")
      (auto simp: read_line_def read_bytes_nl_def split: if_splits)
qed

lemma read_bulk_shorter:
  "read_bulk r = Done (Inr b, r') \<Longrightarrow> length (in_bytes r') < length (in_bytes r) \<and> in_fin r' = in_fin r"
  by (auto simp: read_bulk_def read_full_def discard_def split: prod.splits sum.splits if_splits option.splits
      dest!: read_line_shorter)

lemma read_bulks_shorter:
  "read_bulks n r = Done (Inr bs, r') \<Longrightarrow> length (in_bytes r') + n \<le> length (in_bytes r) \<and> in_fin r' = in_fin r \<and> length bs = n"
proof (induction n arbitrary: r bs)
  case (Suc n)
  obtain x r1 where 1: "read_bulk r = Done (x, r1)" using Suc.prems by (cases "read_bulk r") auto
  with Suc.prems obtain b where 2: "x = Inr b" by (cases x) auto
  with Suc.prems 1 obtain y r2 where 3: "read_bulks n r1 = Done (y, r2)" by (cases "read_bulks n r1") auto
  with Suc.prems 1 2 obtain bs' where "y = Inr bs'" "r2 = r'" "bs = b # bs'" by (cases y) auto
  with 1 2 3 have "read_bulk r = Done (Inr b, r1)" "read_bulks n r1 = Done (Inr bs', r')" "bs = b # bs'" by simp_all
  with Suc.IH [of r1 bs'] read_bulk_shorter [of r b r1] show ?case by auto
qed auto

lemma read_command_shorter:
  assumes "read_command r = Done (Inr c, r')"
  shows "length (in_bytes r') < length (in_bytes r) \<and> in_fin r' = in_fin r"
proof -
  have bulks: "length (in_bytes r') \<le> length (in_bytes r1) \<and> in_fin r' = in_fin r1"
    if b: "bind_outcome (read_bulks n r1) (\<lambda>(x, r2). case x of Inl e \<Rightarrow> Done (Inl e, r2)
      | Inr as \<Rightarrow> Done (Inr \<lparr>cmd_args = as\<rparr>, r2)) = Done (Inr c, r')" for n r1
  proof -
    obtain x r2 where 1: "read_bulks n r1 = Done (x, r2)" using b by (cases "read_bulks n r1") auto
    with b obtain as where "x = Inr as" "r2 = r'" by (cases x) auto
    with 1 read_bulks_shorter [of n r1 as r'] show ?thesis by simp
  qed
  from assms show ?thesis
    by (auto simp: read_command_def split: prod.splits sum.splits if_splits dest!: read_line_shorter bulks)
qed

section \<open>A command cut short is never taken for a command\<close>

lemma strict_prefix_append_cases:
  assumes "strict_prefix p (u @ v)"
  obtains "strict_prefix p u" | q where "p = u @ q" "strict_prefix q v"
proof -
  have "prefix p (u @ v)" using assms by (simp add: strict_prefix_def)
  then consider "prefix p u" | q where "p = u @ q" "prefix q v" by (auto simp: prefix_append)
  then show thesis
  proof cases
    case 1
    show thesis
    proof (cases "p = u")
      case True
      with assms have "p = u @ []" "strict_prefix [] v" by (auto simp: strict_prefix_def)
      then show thesis by (rule that(2))
    next
      case False
      with 1 show thesis by (intro that(1)) (simp add: strict_prefix_def)
    qed
  next
    case 2
    with assms have "strict_prefix q v" by (auto simp: strict_prefix_def)
    with 2 show thesis by (intro that(2))
  qed
qed

definition cut_short :: "((read_error + 'a) \<times> input) outcome \<Rightarrow> bool" where
  "cut_short x = (case x of Done (Inl e, _) \<Rightarrow> e = EEof \<or> e = EUnexpectedEof | _ \<Rightarrow> False)"

lemma read_line_torn:
  assumes "strict_prefix p (l @ crlf)" and "byte_of 10 \<notin> set l"
  shows "read_line \<lparr>in_bytes = p, in_fin = None\<rparr> = (Inl EEof, \<lparr>in_bytes = [], in_fin = None\<rparr>)"
proof -
  have "strict_prefix p ((l @ [byte_of 13]) @ [byte_of 10])" using assms(1) by (simp add: crlf_def)
  then have "prefix p (l @ [byte_of 13])" unfolding strict_prefix_def prefix_snoc by blast
  then have "set p \<subseteq> set (l @ [byte_of 13])" by (rule set_mono_prefix)
  with assms(2) have "byte_of 10 \<notin> set p" by auto
  then show ?thesis by (simp add: read_line_def read_bytes_nl_def end_error_def)
qed

lemma read_bulk_torn:
  assumes "arg_ok a" and "strict_prefix p (encode_bulk a)"
  shows "cut_short (read_bulk \<lparr>in_bytes = p, in_fin = None\<rparr>)"
proof -
  let ?h = "CHR ''$'' # format_int (int (length a))"
  have h: "byte_of 10 \<notin> set ?h" using format_int_no_nl by (auto simp: nl_char)
  have "strict_prefix p ((?h @ crlf) @ a @ crlf)" using assms(2) by (simp add: encode_bulk_def)
  then show ?thesis
  proof (cases rule: strict_prefix_append_cases)
    case 1
    from read_line_torn [OF this h] show ?thesis by (simp add: read_bulk_def cut_short_def)
  next
    case (2 q)
    have "length q < length a + 2" using 2(2) by (auto simp: crlf_def dest: prefix_length_less)
    with assms(1) atoi_length [of "length a"] read_line_crlf [OF h, of q None] show ?thesis
      by (auto simp: 2(1) read_bulk_def makeslice_ok_def arg_ok_def read_full_def discard_def end_error_def cut_short_def)
  qed
qed

lemma cut_short_bind:
  "cut_short x \<Longrightarrow> (\<And>e r. f (Inl e, r) = Done (Inl e, r)) \<Longrightarrow> cut_short (bind_outcome x f)"
  by (auto simp: cut_short_def split: outcome.splits sum.splits)

lemma read_bulks_torn:
  assumes "list_all arg_ok as" and "strict_prefix p (concat (map encode_bulk as))"
  shows "cut_short (read_bulks (length as) \<lparr>in_bytes = p, in_fin = None\<rparr>)"
  using assms
proof (induction as arbitrary: p)
  case (Cons a as)
  from Cons.prems(2) have "strict_prefix p (encode_bulk a @ concat (map encode_bulk as))" by simp
  then show ?case
  proof (cases rule: strict_prefix_append_cases)
    case 1
    with Cons.prems(1) have "cut_short (read_bulk \<lparr>in_bytes = p, in_fin = None\<rparr>)" by (intro read_bulk_torn [of a]) auto
    then show ?thesis by (simp add: cut_short_bind)
  next
    case (2 q)
    with Cons have "cut_short (read_bulks (length as) \<lparr>in_bytes = q, in_fin = None\<rparr>)" by simp
    with Cons.prems(1) show ?thesis by (simp add: 2(1) read_bulk_encode cut_short_bind)
  qed
qed simp

lemma read_command_torn:
  assumes "args_ok as" and "strict_prefix p (encode_command as)"
  shows "cut_short (read_command \<lparr>in_bytes = p, in_fin = None\<rparr>)"
proof -
  let ?h = "CHR ''*'' # format_int (int (length as))"
  have h: "byte_of 10 \<notin> set ?h" using format_int_no_nl by (auto simp: nl_char)
  have "strict_prefix p ((?h @ crlf) @ concat (map encode_bulk as))" using assms(2) by (simp add: encode_command_def)
  then show ?thesis
  proof (cases rule: strict_prefix_append_cases)
    case 1
    from read_line_torn [OF this h] show ?thesis by (simp add: read_command_def cut_short_def)
  next
    case (2 q)
    have "1 \<le> int (length as)" using assms by (cases as) (auto simp: args_ok_def)
    with assms(1) 2 atoi_length [of "length as"] read_line_crlf [OF h, of q None] read_bulks_torn [of as q]
    show ?thesis by (simp add: read_command_def makeslice_ok_def args_ok_def cut_short_bind)
  qed
qed

section \<open>Properties\<close>

text \<open>A pipeline of encoded commands is read back as
  exactly those commands, in order, and leaves exactly the bytes that follow.\<close>

theorem pipelined_commands_roundtrip:
  assumes "list_all args_ok cmds"
  shows "decode_n dec_command (length cmds) (concat (map encode_command cmds) @ rest) = Inr (cmds, rest)"
  using assms by (rule cmd.decode_n_concat)

theorem pipelined_commands_roundtrip_witness:
  "decode_n dec_command 2 (encode_command [''SET'', ''k'', ''a b''] @ encode_command [''PING''] @ ''*1'')
     = Inr ([[''SET'', ''k'', ''a b''], [''PING'']], ''*1'')"
  using pipelined_commands_roundtrip [of "[[''SET'', ''k'', ''a b''], [''PING'']]" "''*1''"]
  by (simp add: args_ok_def arg_ok_def max_alloc_def numeral_2_eq_2)

text \<open>When the connection closes in the middle of a command,
  \<open>ReadCommand\<close> reports the end of the input; no part of the command is returned.\<close>

theorem partial_command_is_an_error:
  assumes "args_ok as" and "strict_prefix p (encode_command as)"
  shows "\<exists>r. read_command \<lparr>in_bytes = p, in_fin = None\<rparr> \<in> {Done (Inl EEof, r), Done (Inl EUnexpectedEof, r)}"
  using read_command_torn [OF assms] by (auto simp: cut_short_def split: outcome.splits sum.splits)

theorem partial_command_is_an_error_witness:
  "\<exists>r. read_command \<lparr>in_bytes = ''*1'' @ crlf @ ''$4'' @ crlf @ ''PI'', in_fin = None\<rparr>
     \<in> {Done (Inl EEof, r), Done (Inl EUnexpectedEof, r)}"
proof (rule partial_command_is_an_error)
  show "args_ok [''PING'']" by (simp add: args_ok_def arg_ok_def max_alloc_def)
  have "encode_command [''PING''] = (''*1'' @ crlf @ ''$4'' @ crlf @ ''PI'') @ ''NG'' @ crlf"
    by (simp add: encode_command_def encode_bulk_def format_int_def) code_simp
  then show "strict_prefix (''*1'' @ crlf @ ''$4'' @ crlf @ ''PI'') (encode_command [''PING''])"
    by (simp add: strict_prefix_def crlf_def)
qed

text \<open>A sequence of bulk replies reaches the client as a prefix
  of their frames however the connection fails; when the final flush succeeds, as all of
  them, and it succeeds on a connection that does not fail.\<close>

lemma fold_bulk_emits: "emits w s \<Longrightarrow> emits (fold write_bulk_string bs w) (s @ concat (map bulk_frame bs))"
proof (induction bs arbitrary: w s)
  case (Cons b bs)
  from Cons.IH [OF write_emits(8) [OF Cons.prems, of b]] show ?case by simp
qed simp

lemma write_bulk_unlimited:
  "wr_left w = None \<Longrightarrow> wr_err w = None \<Longrightarrow> wr_left (write_bulk_string b w) = None \<and> wr_err (write_bulk_string b w) = None"
  by (simp add: write_bulk_string_def write_null_bulk_def unlimited_no_error Let_def split: option.splits)

lemma fold_bulk_unlimited:
  "wr_left w = None \<Longrightarrow> wr_err w = None \<Longrightarrow>
     wr_left (fold write_bulk_string bs w) = None \<and> wr_err (fold write_bulk_string bs w) = None"
  by (induction bs arbitrary: w) (simp_all add: write_bulk_unlimited)

theorem bulk_replies_are_delivered:
  fixes left bs defines "w \<equiv> fold write_bulk_string bs (new_writer left)"
  shows "prefix (wr_sent w) (concat (map bulk_frame bs))
    \<and> (wr_err (resp_flush w) = None \<longrightarrow> wr_sent (resp_flush w) = concat (map bulk_frame bs))
    \<and> (left = None \<longrightarrow> wr_err (resp_flush w) = None)"
proof -
  have e: "emits w (concat (map bulk_frame bs))" using fold_bulk_emits [OF emits_new, of bs left] by (simp add: w_def)
  then have "prefix (wr_sent w) (concat (map bulk_frame bs))" by (simp add: emits_def)
  moreover have "wr_err (resp_flush w) = None" if "left = None"
    using fold_bulk_unlimited [of "new_writer left" bs] unlimited_no_error [of w] that
    by (simp add: w_def resp_flush_def new_writer_def)
  ultimately show ?thesis using flush_delivers [OF e] by blast
qed

theorem bulk_replies_are_delivered_witness:
  "wr_sent (resp_flush (fold write_bulk_string [Some ''ab'', None] (new_writer None))) =
     concat (map bulk_frame [Some ''ab'', None])"
  using bulk_replies_are_delivered [where bs = "[Some ''ab'', None]" and left = None] by (simp only: simp_thms)

text \<open>A multi-bulk count beyond what \<open>make\<close> can allocate panics the
  process; it is the first thing a client sends, before it has authenticated.\<close>

theorem huge_count_panics:
  assumes "max_alloc < 24 * n" and "n \<le> max_int64"
  shows "read_command \<lparr>in_bytes = ''*'' @ format_int n @ crlf @ rest, in_fin = fin\<rparr> = Panic ''makeslice: len out of range''"
proof -
  have h: "byte_of 10 \<notin> set (CHR ''*'' # format_int n)" using format_int_no_nl by (auto simp: nl_char)
  have "1 \<le> n" using assms(1) by (simp add: max_alloc_def)
  then have "atoi (format_int n) = Inr n" using assms(2) by (intro atoi_format) (simp_all add: min_int64_def)
  with assms(1) \<open>1 \<le> n\<close> read_line_crlf [OF h, of rest fin] show ?thesis
    by (simp add: read_command_def makeslice_ok_def)
qed

theorem huge_count_panics_witness:
  "read_command \<lparr>in_bytes = ''*'' @ format_int 9223372036854775807 @ crlf @ [], in_fin = None\<rparr>
     = Panic ''makeslice: len out of range''"
  by (rule huge_count_panics) (simp_all add: max_alloc_def max_int64_def)

text \<open>The two bytes after a bulk string are skipped, not
  compared with CRLF: framing with any other two bytes there is accepted.\<close>

theorem bulk_terminator_is_not_checked:
  assumes "arg_ok a"
  shows "read_command \<lparr>in_bytes = ''*1'' @ crlf @ ''$'' @ format_int (int (length a)) @ crlf @ a @ [x, y] @ rest, in_fin = fin\<rparr>
    = Done (Inr \<lparr>cmd_args = [a]\<rparr>, \<lparr>in_bytes = rest, in_fin = fin\<rparr>)"
proof -
  let ?b = "CHR ''$'' # format_int (int (length a))"
  have b: "byte_of 10 \<notin> set ?b" using format_int_no_nl by (auto simp: nl_char)
  have c: "byte_of 10 \<notin> set ''*1''" by (simp add: nl_char)
  have "format_int (int 1) = ''1''" by (simp add: format_int_def) code_simp
  then have "atoi ''1'' = Inr 1" using atoi_length [of 1] by (simp add: max_alloc_def)
  moreover have "read_bulk \<lparr>in_bytes = ?b @ crlf @ a @ [x, y] @ rest, in_fin = fin\<rparr> = Done (Inr a, \<lparr>in_bytes = rest, in_fin = fin\<rparr>)"
    using assms atoi_length [of "length a"] read_line_crlf [OF b, of "a @ [x, y] @ rest" fin]
    by (simp add: read_bulk_def makeslice_ok_def arg_ok_def read_full_def discard_def)
  ultimately show ?thesis
    using read_line_crlf [OF c, of "?b @ crlf @ a @ [x, y] @ rest" fin]
    by (simp add: read_command_def makeslice_ok_def max_alloc_def)
qed

theorem bulk_terminator_is_not_checked_witness:
  "read_command \<lparr>in_bytes = ''*1'' @ crlf @ ''$'' @ format_int (int (length ''PING'')) @ crlf @ ''PING'' @ [CHR ''!'', CHR ''?''] @ [], in_fin = None\<rparr>
    = Done (Inr \<lparr>cmd_args = [''PING'']\<rparr>, \<lparr>in_bytes = [], in_fin = None\<rparr>)"
  by (rule bulk_terminator_is_not_checked) (simp add: arg_ok_def max_alloc_def)

end
