(* ===== verification/Auth.thy ===== *)
theory Auth
  imports Resp "HOL-Library.AList"
begin

text \<open>
  Credentials, \<open>internal/auth/auth.go\<close>, and the connection commands the front-end answers
  itself, \<open>internal/proxy/auth.go\<close>. The interface \<open>Authenticator\<close> is a record of its two
  methods; \<open>bcrypt\<close> is an argument, the test whether a hash matches a password. Every
  handler takes the reply writer and the session and returns both with the error it
  returns.
\<close>

section \<open>The passwd file\<close>

record authenticator =
  au_required :: bool
  au_verify :: "string \<Rightarrow> string \<Rightarrow> string option"

definition default_user :: string where
  "default_user = ''default''"

definition err_unauthorized :: string where
  "err_unauthorized = ''WRONGPASS invalid username-password pair or user is disabled''"

record static =
  st_users :: "(string \<times> string) list"

definition add_line :: "string \<Rightarrow> (string \<times> string) list \<Rightarrow> (string \<times> string) list" where
  "add_line line m =
     (let l = trim_space line in
      if l = [] \<or> hd l = CHR ''#'' then m
      else case cut (CHR '':'') l of
        (u, p, ok) \<Rightarrow> if \<not> ok \<or> u = [] then m else AList.update u p m)"

definition parse_passwd :: "string \<Rightarrow> (string \<times> string) list" where
  "parse_passwd b = fold add_line (split_on (byte_of 10) (trim_space b)) []"

text \<open>\<open>os.ReadFile\<close> is an argument: the content, or the error.\<close>

definition new_from_file :: "(string \<Rightarrow> string + string) \<Rightarrow> string \<Rightarrow> string + static" where
  "new_from_file rf path =
     (if path = [] then Inr \<lparr>st_users = []\<rparr>
      else case rf path of
        Inl e \<Rightarrow> Inl e
      | Inr b \<Rightarrow> Inr \<lparr>st_users = parse_passwd b\<rparr>)"

definition static_required :: "static \<Rightarrow> bool" where
  "static_required s \<longleftrightarrow> 0 < length (st_users s)"

definition static_verify :: "(string \<Rightarrow> string \<Rightarrow> bool) \<Rightarrow> static \<Rightarrow> string \<Rightarrow> string \<Rightarrow> string option" where
  "static_verify bc s username password =
     (let u = (if username = [] then default_user else username) in
      case map_of (st_users s) u of
        None \<Rightarrow> Some err_unauthorized
      | Some want \<Rightarrow>
          if has_prefix want ''$2'' then (if bc want password then None else Some err_unauthorized)
          else if password \<noteq> want then Some err_unauthorized
          else None)"

definition static_authenticator :: "(string \<Rightarrow> string \<Rightarrow> bool) \<Rightarrow> static \<Rightarrow> authenticator" where
  "static_authenticator bc s = \<lparr>au_required = static_required s, au_verify = static_verify bc s\<rparr>"

section \<open>Session commands\<close>

record session =
  authed :: bool
  user :: string

definition new_session :: session where
  "new_session = \<lparr>authed = False, user = []\<rparr>"

datatype dispatch_error = ErrClientQuit | ErrWrite string

type_synonym handled = "writer \<times> session \<times> dispatch_error option"

definition replied :: "writer \<Rightarrow> session \<Rightarrow> handled" where
  "replied w sess = (w, sess, map_option ErrWrite (wr_err w))"

definition auth_required :: "authenticator option \<Rightarrow> bool" where
  "auth_required au = (case au of None \<Rightarrow> False | Some a \<Rightarrow> au_required a)"

definition msg_no_password :: string where
  "msg_no_password = ''ERR Client sent AUTH, but no password is set. Did you mean AUTH <username> <password>?''"

definition msg_noauth_hello :: string where
  "msg_noauth_hello = ''NOAUTH HELLO must be called with the client already authenticated, otherwise the HELLO <proto> AUTH <user> <pass> option can be used to authenticate the client and select the RESP protocol version at the same time''"

text \<open>The check both \<open>AUTH\<close> and \<open>HELLO\<close> make: a new session, or the error to reply.\<close>

definition try_auth :: "authenticator option \<Rightarrow> string \<Rightarrow> string \<Rightarrow> session \<Rightarrow> string + session" where
  "try_auth au u p sess =
     (if \<not> auth_required au then Inl msg_no_password
      else case au_verify (the au) u p of
        Some e \<Rightarrow> Inl e
      | None \<Rightarrow> Inr (sess\<lparr>authed := True, user := u\<rparr>))"

definition handle_auth :: "authenticator option \<Rightarrow> command \<Rightarrow> writer \<Rightarrow> session \<Rightarrow> handled" where
  "handle_auth au c w sess =
     (let cred = (if length (cmd_args c) = 2 then Some (default_user, cmd_arg c 1)
                  else if length (cmd_args c) = 3 then Some (cmd_arg c 1, cmd_arg c 2)
                  else None)
      in case cred of
           None \<Rightarrow> replied (write_error ''ERR wrong number of arguments for 'auth' command'' w) sess
         | Some (u, p) \<Rightarrow>
             (case try_auth au u p sess of
                Inl e \<Rightarrow> replied (write_error e w) sess
              | Inr sess' \<Rightarrow> replied (write_simple_string ''OK'' w) sess'))"

definition write_hello_reply :: "writer \<Rightarrow> writer" where
  "write_hello_reply w =
     (let bulk = (\<lambda>s. write_bulk_string (Some s)) in
      fold (\<lambda>f. f)
        [write_array_header 14,
         bulk ''server'', bulk ''redis'', bulk ''version'', bulk ''7.4.0'',
         bulk ''proto'', write_int 2, bulk ''id'', write_int 0,
         bulk ''mode'', bulk ''standalone'', bulk ''role'', bulk ''master'',
         bulk ''modules'', write_array_header 0] w)"

fun hello_opts :: "(string \<Rightarrow> string) \<Rightarrow> bytes list \<Rightarrow> (string \<times> string) option \<Rightarrow> string + (string \<times> string) option" where
  "hello_opts uni [] cred = Inr cred"
| "hello_opts uni (a # rest) cred =
     (if to_upper uni a = ''AUTH'' then
        (case rest of
           u # p # rest' \<Rightarrow> hello_opts uni rest' (Some (u, p))
         | _ \<Rightarrow> Inl ''ERR syntax error in HELLO'')
      else if to_upper uni a = ''SETNAME'' then
        (case rest of
           n # rest' \<Rightarrow> hello_opts uni rest' cred
         | [] \<Rightarrow> Inl ''ERR syntax error in HELLO'')
      else Inl ''ERR syntax error in HELLO'')"

definition handle_hello :: "(string \<Rightarrow> string) \<Rightarrow> authenticator option \<Rightarrow> command \<Rightarrow> writer \<Rightarrow> session \<Rightarrow> handled" where
  "handle_hello uni au c w sess =
     (let opts = (if 1 < length (cmd_args c)
                  then (if cmd_arg c 1 = ''2'' then hello_opts uni (drop 2 (cmd_args c)) None
                        else Inl ''NOPROTO unsupported protocol version'')
                  else Inr None)
      in case opts of
           Inl e \<Rightarrow> replied (write_error e w) sess
         | Inr cred \<Rightarrow>
             (case (case cred of None \<Rightarrow> Inr sess | Some (u, p) \<Rightarrow> try_auth au u p sess) of
                Inl e \<Rightarrow> replied (write_error e w) sess
              | Inr sess' \<Rightarrow>
                  if auth_required au \<and> \<not> authed sess' then replied (write_error msg_noauth_hello w) sess'
                  else replied (write_hello_reply w) sess'))"

definition handle_quit :: "writer \<Rightarrow> session \<Rightarrow> handled" where
  "handle_quit w sess =
     (let w' = write_simple_string ''OK'' w in
      if wr_err w' \<noteq> None then replied w' sess else (w', sess, Some ErrClientQuit))"

definition handle_reset :: "writer \<Rightarrow> session \<Rightarrow> handled" where
  "handle_reset w sess = replied (write_simple_string ''RESET'' w) (sess\<lparr>authed := False, user := []\<rparr>)"

definition handle_ping :: "command \<Rightarrow> writer \<Rightarrow> session \<Rightarrow> handled" where
  "handle_ping c w sess =
     replied
       (if length (cmd_args c) = 1 then write_simple_string ''PONG'' w
        else if length (cmd_args c) = 2 then write_bulk_string (cmd_arg_bytes c 1) w
        else write_error ''ERR wrong number of arguments for 'ping' command'' w) sess"

definition handle_echo :: "command \<Rightarrow> writer \<Rightarrow> session \<Rightarrow> handled" where
  "handle_echo c w sess =
     replied
       (if length (cmd_args c) \<noteq> 2 then write_error ''ERR wrong number of arguments for 'echo' command'' w
        else write_bulk_string (cmd_arg_bytes c 1) w) sess"

definition handle_select :: "command \<Rightarrow> writer \<Rightarrow> session \<Rightarrow> handled" where
  "handle_select c w sess =
     replied
       (if length (cmd_args c) \<noteq> 2 then write_error ''ERR wrong number of arguments for 'select' command'' w
        else if cmd_arg c 1 \<noteq> ''0'' then
          write_error ''ERR DB index is out of range (singleowner presents a single logical database)'' w
        else write_simple_string ''OK'' w) sess"

section \<open>Reading back a passwd file\<close>

lemma trim_space_ends:
  assumes "s \<noteq> []" and "plain_char (hd s)" and "plain_char (last s)"
  shows "trim_space s = s" and "trim_space (s @ [byte_of 10]) = s"
proof -
  obtain c s' where s: "s = c # s'" using assms(1) by (cases s) auto
  then have left: "trim_left (s @ t) = s @ t" for t using assms(2) by (simp add: trim_left_plain)
  have "s = butlast s @ [last s]" using assms(1) by simp
  then have "space_end_len s = 0" using assms(3) by (metis space_end_len_plain)
  then have right: "trim_right s = s" by (simp add: trim_right.simps)
  show "trim_space s = s" using left [of "[]"] right by (simp add: trim_space_def)
  have "space_len [byte_of 10] = 1" by (simp add: space_len_def)
  then have "space_end_len (s @ [byte_of 10]) = 1" by (simp add: space_end_len_def Let_def)
  then have "trim_right (s @ [byte_of 10]) = s" using right by (subst trim_right.simps) simp
  then show "trim_space (s @ [byte_of 10]) = s" using left by (simp add: trim_space_def)
qed

lemma split_on_none: "c \<notin> set s \<Longrightarrow> split_on c s = [s]"
  by (induction s) auto

lemma split_on_lines:
  "ls \<noteq> [] \<Longrightarrow> \<forall>l \<in> set ls. c \<notin> set l \<Longrightarrow> split_on c (butlast (concat (map (\<lambda>l. l @ [c]) ls))) = ls"
proof (induction ls)
  case (Cons l ls)
  show ?case
  proof (cases "ls = []")
    case True
    with Cons.prems show ?thesis by (simp add: split_on_none butlast_append)
  next
    case False
    then have ne: "concat (map (\<lambda>l. l @ [c]) ls) \<noteq> []" by (cases ls) auto
    with Cons False show ?thesis by (simp add: butlast_append split_on_line)
  qed
qed simp

definition cred_line :: "string \<times> string \<Rightarrow> string" where
  "cred_line up = fst up @ '':'' @ snd up"

definition passwd_text :: "(string \<times> string) list \<Rightarrow> string" where
  "passwd_text us = concat (map (\<lambda>l. l @ [byte_of 10]) (map cred_line us))"

definition cred_ok :: "string \<times> string \<Rightarrow> bool" where
  "cred_ok up \<longleftrightarrow> fst up \<noteq> [] \<and> hd (fst up) \<noteq> CHR ''#'' \<and> CHR '':'' \<notin> set (fst up)
     \<and> list_all plain_char (fst up) \<and> list_all plain_char (snd up)"

lemma cred_line_plain: "cred_ok up \<Longrightarrow> list_all plain_char (cred_line up) \<and> cred_line up \<noteq> []"
  by (auto simp: cred_ok_def cred_line_def plain_char_def byte_val_def)

lemma add_line_cred: "cred_ok up \<Longrightarrow> add_line (cred_line up) m = AList.update (fst up) (snd up) m"
proof -
  assume ok: "cred_ok up"
  then have t: "trim_space (cred_line up) = cred_line up" using cred_line_plain trim_space_plain by blast
  have "hd (cred_line up) = hd (fst up)" "cred_line up \<noteq> []" using ok by (auto simp: cred_ok_def cred_line_def)
  moreover have "cut (CHR '':'') (cred_line up) = (fst up, snd up, True)"
    using ok by (simp add: cred_ok_def cred_line_def cut_append)
  ultimately show ?thesis using ok t by (simp add: add_line_def Let_def cred_ok_def)
qed

lemma parse_passwd_text:
  assumes "list_all cred_ok us"
  shows "map_of (parse_passwd (passwd_text us)) = map_of (rev us)"
proof -
  have fold: "map_of (fold add_line (map cred_line us) m) = map_of m ++ map_of (rev us)" for m
    using assms by (induction us arbitrary: m) (auto simp: add_line_cred update_conv' fun_eq_iff map_add_def split: option.splits)
  show ?thesis
  proof (cases "us = []")
    case True
    then show ?thesis by (simp add: parse_passwd_def passwd_text_def trim_space_def trim_right.simps space_end_len_def add_line_def)
  next
    case False
    let ?t = "passwd_text us"
    obtain u us' where us: "us = u # us'" using False by (cases us) auto
    have t: "?t = butlast ?t @ [byte_of 10]"
    proof -
      have "?t \<noteq> []" by (simp add: us passwd_text_def)
      moreover have "last ?t = byte_of 10"
        using False by (cases us rule: rev_cases) (simp_all add: passwd_text_def)
      ultimately show ?thesis by (metis append_butlast_last_id)
    qed
    obtain v vs where vs: "us = vs @ [v]" using False by (cases us rule: rev_cases) auto
    have b: "butlast ?t = concat (map (\<lambda>l. l @ [byte_of 10]) (map cred_line vs)) @ cred_line v"
      by (simp add: vs passwd_text_def butlast_append)
    have "u \<in> set us" "v \<in> set us" by (simp add: us, simp add: vs)
    then have "cred_ok u" "cred_ok v" using assms by (simp_all add: list_all_iff)
    then have v: "cred_line v \<noteq> []" "list_all plain_char (cred_line v)" and u: "cred_line u \<noteq> []" "list_all plain_char (cred_line u)"
      using cred_line_plain by blast+
    have "butlast ?t \<noteq> []" "plain_char (last (butlast ?t))"
      using v by (auto simp: b list_all_iff)
    moreover have "hd (butlast ?t) = hd (cred_line u)"
      using u us by (cases us') (simp_all add: passwd_text_def butlast_append hd_append)
    moreover have "plain_char (hd (cred_line u))" using u by (simp add: list_all_iff)
    ultimately have "trim_space ?t = butlast ?t" using trim_space_ends(2) t by metis
    moreover have "\<forall>l \<in> set (map cred_line us). byte_of 10 \<notin> set l"
      using assms cred_line_plain by (fastforce simp: list_all_iff plain_char_def)
    ultimately have "split_on (byte_of 10) (trim_space ?t) = map cred_line us"
      using split_on_lines [of "map cred_line us" "byte_of 10"] False by (simp add: passwd_text_def)
    then show ?thesis using fold [of "[]"] by (simp add: parse_passwd_def)
  qed
qed

section \<open>The contract of an authenticator\<close>

definition canon_user :: "string \<Rightarrow> string" where
  "canon_user u = (if u = [] then default_user else u)"

locale credential_check =
  fixes au :: authenticator and known :: "string \<Rightarrow> bool"
  assumes verify_known: "au_verify au u p = None \<Longrightarrow> known (canon_user u)"
    and required_known: "au_required au \<longleftrightarrow> (\<exists>u. known u)"
begin

definition session_ok :: "session \<Rightarrow> bool" where
  "session_ok sess \<longleftrightarrow> (authed sess \<longrightarrow> known (canon_user (user sess)))"

lemma session_ok_new: "session_ok new_session"
  by (simp add: session_ok_def new_session_def)

lemma try_auth_ok: "try_auth (Some au) u p sess = Inr sess' \<Longrightarrow> session_ok sess'"
  by (auto simp: try_auth_def session_ok_def auth_required_def verify_known split: if_splits option.splits)

lemma handle_auth_ok:
  "session_ok sess \<Longrightarrow> handle_auth (Some au) c w sess = (w', sess', e) \<Longrightarrow> session_ok sess'"
  by (auto simp: handle_auth_def replied_def Let_def try_auth_ok split: option.splits prod.splits sum.splits if_splits)

lemma handle_hello_ok:
  "session_ok sess \<Longrightarrow> handle_hello uni (Some au) c w sess = (w', sess', e) \<Longrightarrow> session_ok sess'"
  by (auto simp: handle_hello_def replied_def Let_def try_auth_ok split: option.splits prod.splits sum.splits if_splits)

lemma handle_other_ok:
  "session_ok sess \<Longrightarrow> handle_quit w sess = (w', sess', e) \<Longrightarrow> session_ok sess'"
  "handle_reset w sess = (w', sess', e) \<Longrightarrow> session_ok sess'"
  "session_ok sess \<Longrightarrow> handle_ping c w sess = (w', sess', e) \<Longrightarrow> session_ok sess'"
  "session_ok sess \<Longrightarrow> handle_echo c w sess = (w', sess', e) \<Longrightarrow> session_ok sess'"
  "session_ok sess \<Longrightarrow> handle_select c w sess = (w', sess', e) \<Longrightarrow> session_ok sess'"
  by (auto simp: handle_quit_def handle_reset_def handle_ping_def handle_echo_def handle_select_def replied_def
      session_ok_def Let_def split: if_splits)

end

lemma static_verify_iff:
  "static_verify bc s u p = None \<longleftrightarrow>
     (\<exists>want. map_of (st_users s) (canon_user u) = Some want \<and> (if has_prefix want ''$2'' then bc want p else p = want))"
  by (auto simp: static_verify_def Let_def canon_user_def split: option.splits)

interpretation static: credential_check "static_authenticator bc s" "\<lambda>u. map_of (st_users s) u \<noteq> None" for bc s
proof unfold_locales
  fix u p
  assume "au_verify (static_authenticator bc s) u p = None"
  then show "map_of (st_users s) (canon_user u) \<noteq> None"
    by (auto simp: static_authenticator_def static_verify_iff)
next
  show "au_required (static_authenticator bc s) = (\<exists>u. map_of (st_users s) u \<noteq> None)"
    by (cases "st_users s") (auto simp: static_authenticator_def static_required_def)
qed

section \<open>Properties\<close>

text \<open>C31 passwd_accepts_exactly. A passwd file with one \<open>user:password\<close> line per entry makes
  \<open>Verify\<close> accept exactly these pairs: the empty user name stands for the default user, the
  last line of a user counts, and a password that starts with \<open>$2\<close> is a bcrypt hash.\<close>

theorem passwd_accepts_exactly:
  assumes "list_all cred_ok us" and "path \<noteq> []" and "rf path = Inr (passwd_text us)"
  shows "\<exists>s. new_from_file rf path = Inr s \<and> (static_required s \<longleftrightarrow> us \<noteq> [])
    \<and> (static_verify bc s name pw = None \<longleftrightarrow>
         (case map_of (rev us) (if name = [] then ''default'' else name) of
            None \<Rightarrow> False
          | Some want \<Rightarrow> if has_prefix want ''$2'' then bc want pw else pw = want))"
proof -
  let ?s = "\<lparr>st_users = parse_passwd (passwd_text us)\<rparr>"
  have m: "map_of (st_users ?s) = map_of (rev us)" using parse_passwd_text [OF assms(1)] by simp
  have "static_required ?s \<longleftrightarrow> (\<exists>u. map_of (rev us) u \<noteq> None)"
    using static.required_known [of undefined ?s] unfolding m by (simp add: static_authenticator_def)
  then have req: "static_required ?s \<longleftrightarrow> us \<noteq> []" by (cases us rule: rev_cases) auto
  have nf: "new_from_file rf path = Inr ?s" using assms(2,3) by (simp add: new_from_file_def)
  have ver: "static_verify bc ?s name pw = None \<longleftrightarrow>
       (case map_of (rev us) (if name = [] then ''default'' else name) of
          None \<Rightarrow> False | Some want \<Rightarrow> if has_prefix want ''$2'' then bc want pw else pw = want)"
    unfolding static_verify_iff m canon_user_def default_user_def
    by (cases "map_of (rev us) (if name = [] then ''default'' else name)") (simp_all split del: if_split)
  from nf req ver show ?thesis by (intro exI [of _ ?s] conjI)
qed

definition demo_users :: "(string \<times> string) list" where
  "demo_users = [(''bob'', ''s3cret''), (''default'', ''pw'')]"

theorem passwd_accepts_exactly_witness:
  "\<exists>s. new_from_file (\<lambda>_. Inr (passwd_text demo_users)) ''passwd'' = Inr s \<and> static_required s
     \<and> static_verify (\<lambda>_ _. False) s [] ''pw'' = None"
proof -
  have "list_all cred_ok demo_users"
    by (simp add: demo_users_def cred_ok_def plain_char_def byte_val_def)
  from passwd_accepts_exactly [OF this, of "''passwd''" "\<lambda>_. Inr (passwd_text demo_users)" "\<lambda>_ _. False" "[]" "''pw''"]
  show ?thesis by (auto simp: demo_users_def has_prefix_def)
qed

end
