(* ===== verification/Router.thy ===== *)
theory Router
  imports Gostrings
begin

text \<open>
  Command routing, \<open>internal/proxy/router.go\<close>: the three tables and \<open>Decide\<close>. A Go map
  to the empty struct is the list of its keys.
\<close>

datatype route = RouteDeny | RouteRead | RouteWrite

record router =
  rt_write :: "string list"
  rt_read :: "string list"
  rt_deny :: "string list"

definition default_write_commands :: "string list" where
  "default_write_commands =
     [''SET'', ''SETNX'', ''SETEX'', ''PSETEX'', ''GETSET'', ''GETDEL'', ''MSET'', ''APPEND'',
      ''DEL'', ''UNLINK'',
      ''INCR'', ''DECR'', ''INCRBY'', ''DECRBY'', ''INCRBYFLOAT'',
      ''HSET'', ''HMSET'', ''HSETNX'', ''HDEL'', ''HINCRBY'', ''HINCRBYFLOAT'',
      ''LPUSH'', ''RPUSH'', ''LPUSHX'', ''RPUSHX'', ''LPOP'', ''RPOP'',
      ''LSET'', ''LINSERT'', ''LTRIM'', ''LREM'', ''LMOVE'', ''RPOPLPUSH'',
      ''SADD'', ''SREM'', ''SMOVE'', ''SINTERSTORE'', ''SUNIONSTORE'', ''SDIFFSTORE'',
      ''ZADD'', ''ZREM'', ''ZINCRBY'', ''ZPOPMIN'', ''ZPOPMAX'',
      ''ZREMRANGEBYLEX'', ''ZREMRANGEBYRANK'', ''ZREMRANGEBYSCORE'',
      ''ZUNIONSTORE'', ''ZINTERSTORE'',
      ''EXPIRE'', ''PEXPIRE'', ''EXPIREAT'', ''PEXPIREAT'', ''PERSIST'']"

definition default_read_commands :: "string list" where
  "default_read_commands =
     [''GET'', ''MGET'', ''GETRANGE'', ''STRLEN'', ''GETBIT'',
      ''HGET'', ''HGETALL'', ''HMGET'', ''HKEYS'', ''HVALS'', ''HLEN'', ''HEXISTS'', ''HRANDFIELD'',
      ''LLEN'', ''LINDEX'', ''LRANGE'', ''LPOS'',
      ''SCARD'', ''SISMEMBER'', ''SMEMBERS'', ''SRANDMEMBER'',
      ''SINTER'', ''SUNION'', ''SDIFF'', ''SSCAN'',
      ''ZCARD'', ''ZCOUNT'', ''ZLEXCOUNT'',
      ''ZRANGE'', ''ZREVRANGE'', ''ZRANGEBYLEX'', ''ZREVRANGEBYLEX'',
      ''ZRANGEBYSCORE'', ''ZREVRANGEBYSCORE'', ''ZRANK'', ''ZREVRANK'',
      ''ZSCORE'', ''ZMSCORE'', ''ZSCAN'',
      ''EXISTS'', ''TYPE'', ''TTL'', ''PTTL'', ''EXPIRETIME'', ''PEXPIRETIME'', ''OBJECT'', ''RANDOMKEY'']"

definition default_deny_commands :: "string list" where
  "default_deny_commands =
     [''FLUSHALL'', ''FLUSHDB'', ''DEBUG'', ''CONFIG'', ''REPLICAOF'', ''SLAVEOF'', ''SHUTDOWN'',
      ''SCRIPT'', ''EVAL'', ''EVALSHA'', ''FUNCTION'',
      ''KEYS'', ''SCAN'',
      ''MIGRATE'', ''SWAPDB'', ''FAILOVER'', ''MONITOR'', ''CLUSTER'',
      ''INFO'', ''COMMAND'', ''TIME'', ''CLIENT'', ''LATENCY'', ''MEMORY'', ''DBSIZE'',
      ''SPOP'',
      ''BLPOP'', ''BRPOP'', ''BRPOPLPUSH'', ''BLMOVE'', ''BZPOPMIN'', ''BZPOPMAX'',
      ''XADD'', ''XREAD'', ''XREADGROUP'', ''XACK'', ''XCLAIM'', ''XDEL'', ''XGROUP'',
      ''XINFO'', ''XLEN'', ''XPENDING'', ''XRANGE'', ''XREVRANGE'', ''XTRIM'']"

definition new_router :: router where
  "new_router = \<lparr>rt_write = default_write_commands, rt_read = default_read_commands,
     rt_deny = default_deny_commands\<rparr>"

definition decide :: "(string \<Rightarrow> string) \<Rightarrow> router \<Rightarrow> string \<Rightarrow> route" where
  "decide uni r name =
     (let n = to_upper uni name in
      if n \<in> set (rt_deny r) then RouteDeny
      else if n \<in> set (rt_write r) then RouteWrite
      else if n \<in> set (rt_read r) then RouteRead
      else RouteDeny)"

section \<open>The tables do not overlap\<close>

lemma tables_disjoint:
  "list_all (\<lambda>c. c \<notin> set default_deny_commands \<and> c \<notin> set default_read_commands) default_write_commands"
  "list_all (\<lambda>c. c \<notin> set default_deny_commands) default_read_commands"
  by (simp_all add: default_write_commands_def default_read_commands_def default_deny_commands_def)

lemma new_router_simps [simp]:
  "rt_write new_router = default_write_commands" "rt_read new_router = default_read_commands"
  "rt_deny new_router = default_deny_commands"
  by (simp_all add: new_router_def)

section \<open>Properties\<close>

text \<open>The default router sends to the write path exactly the
  commands of the write table, to the read path exactly those of the read table, whatever
  the case of their letters, and denies every other command.\<close>

theorem routing_is_a_whitelist:
  "decide uni new_router name =
     (if to_upper uni name \<in> set default_write_commands then RouteWrite
      else if to_upper uni name \<in> set default_read_commands then RouteRead
      else RouteDeny)"
  using tables_disjoint
  by (auto simp: decide_def Let_def list_all_iff)

end
