(* ===== verification/Expiry.thy ===== *)
theory Expiry
  imports Gostrings
begin

text \<open>
  What the primary writes to the log for a command with an expiry: \<open>normalizeExpiry\<close> and
  its helpers in \<open>internal/proxy/dispatch.go\<close>. Times are \<open>int64\<close> milliseconds, so the
  arithmetic wraps.
\<close>

section \<open>Definitions\<close>

definition bargs :: "string list \<Rightarrow> bytes list" where
  "bargs ss = ss"

text \<open>The time an option asks for; a number that does not parse counts as 0.\<close>

definition set_expire_at :: "int \<Rightarrow> string \<Rightarrow> bytes \<Rightarrow> int" where
  "set_expire_at now opt arg =
     (let n = fst (parse_int arg) in
      if opt = ''EX'' then wrap64 (now + wrap64 (n * 1000))
      else if opt = ''PX'' then wrap64 (now + n)
      else if opt = ''EXAT'' then wrap64 (n * 1000)
      else n)"

fun set_opts :: "(string \<Rightarrow> string) \<Rightarrow> int \<Rightarrow> bytes list \<Rightarrow> int \<Rightarrow> bytes list \<Rightarrow> int \<times> bytes list" where
  "set_opts uni now [] ex wargs = (ex, wargs)"
| "set_opts uni now (a # rest) ex wargs =
     (let opt = to_upper uni a in
      if opt \<in> {''EX'', ''PX'', ''EXAT'', ''PXAT''} then
        (case rest of
           [] \<Rightarrow> (ex, wargs)
         | n # rest' \<Rightarrow> set_opts uni now rest' (set_expire_at now opt n) wargs)
      else if opt \<in> {''NX'', ''XX'', ''KEEPTTL'', ''GET''} then set_opts uni now rest ex (wargs @ [a])
      else set_opts uni now rest ex wargs)"

text \<open>\<open>args[2]\<close> of a \<open>SET\<close> with only a key is out of range and panics.\<close>

definition normalize_set :: "(string \<Rightarrow> string) \<Rightarrow> bytes list \<Rightarrow> int \<Rightarrow> bytes list list outcome" where
  "normalize_set uni args now =
     (if length args < 3 then Panic ''index out of range''
      else case set_opts uni now (drop 3 args) 0 (take 3 args) of
        (ex, wargs) \<Rightarrow>
          if 0 < ex then Done [wargs, bargs [''PEXPIREAT'', args ! 1, format_int ex]]
          else Done [args])"

definition normalize_set_ex :: "(string \<Rightarrow> string) \<Rightarrow> bytes list \<Rightarrow> int \<Rightarrow> bytes list list" where
  "normalize_set_ex uni args now =
     (if length args < 4 then [args]
      else case parse_int (args ! 2) of
        (secs, Some _) \<Rightarrow> [args]
      | (secs, None) \<Rightarrow>
          let ex = (if to_upper uni (args ! 0) = ''PSETEX'' then wrap64 (now + secs)
                    else wrap64 (now + wrap64 (secs * 1000)))
          in [bargs [''SET'', args ! 1, args ! 3], bargs [''PEXPIREAT'', args ! 1, format_int ex]])"

definition normalize_expire_cmd :: "(string \<Rightarrow> string) \<Rightarrow> bytes list \<Rightarrow> int \<Rightarrow> bool \<Rightarrow> bytes list list" where
  "normalize_expire_cmd uni args now is_at =
     (if length args < 3 then [args]
      else case parse_int (args ! 2) of
        (secs, Some _) \<Rightarrow> [args]
      | (secs, None) \<Rightarrow>
          let cmd = to_upper uni (args ! 0);
              ex = (if is_at then (if cmd = ''PEXPIREAT'' then secs else wrap64 (secs * 1000))
                    else (if cmd = ''PEXPIRE'' then wrap64 (now + secs)
                          else wrap64 (now + wrap64 (secs * 1000))))
          in [[''PEXPIREAT'', args ! 1, format_int ex] @ drop 3 args])"

definition normalize_expiry :: "(string \<Rightarrow> string) \<Rightarrow> bytes list \<Rightarrow> int \<Rightarrow> bytes list list outcome" where
  "normalize_expiry uni args now =
     (if length args < 2 then Done [args]
      else let cmd = to_upper uni (args ! 0) in
        if cmd = ''SET'' then normalize_set uni args now
        else if cmd \<in> {''SETEX'', ''PSETEX''} then Done (normalize_set_ex uni args now)
        else if cmd \<in> {''EXPIRE'', ''PEXPIRE''} then Done (normalize_expire_cmd uni args now False)
        else if cmd \<in> {''EXPIREAT'', ''PEXPIREAT''} then Done (normalize_expire_cmd uni args now True)
        else Done [args])"

section \<open>Entries in the log do not depend on the clock\<close>

lemma upper_literals [simp]:
  "to_upper uni ''PEXPIREAT'' = ''PEXPIREAT''" "to_upper uni ''SET'' = ''SET''"
  "to_upper uni ''EX'' = ''EX''" "to_upper uni ''EXPIRE'' = ''EXPIRE''"
  by (simp_all add: to_upper_def is_ascii_def upper_char_def byte_val_def)

definition plain_opt :: "(string \<Rightarrow> string) \<Rightarrow> bytes \<Rightarrow> bool" where
  "plain_opt uni a \<longleftrightarrow> to_upper uni a \<notin> {''EX'', ''PX'', ''EXAT'', ''PXAT''}"

lemma set_opts_plain: "list_all (plain_opt uni) opts \<Longrightarrow> fst (set_opts uni now opts ex w) = ex"
  by (induction opts arbitrary: w) (auto simp: plain_opt_def Let_def)

lemma set_opts_wargs:
  "\<exists>xs. snd (set_opts uni now opts ex w) = w @ xs \<and> list_all (plain_opt uni) xs"
proof (induction uni now opts ex w rule: set_opts.induct)
  case (2 uni now a rest ex w)
  show ?case
  proof (cases "to_upper uni a \<in> {''EX'', ''PX'', ''EXAT'', ''PXAT''}")
    case True
    with 2(1) [OF refl True] show ?thesis by (cases rest) (auto simp: Let_def)
  next
    case False
    show ?thesis
    proof (cases "to_upper uni a \<in> {''NX'', ''XX'', ''KEEPTTL'', ''GET''}")
      case True
      from 2(2) [OF refl False True] obtain xs where
        "snd (set_opts uni now rest ex (w @ [a])) = (w @ [a]) @ xs" "list_all (plain_opt uni) xs" by blast
      moreover have "plain_opt uni a" using False by (simp add: plain_opt_def)
      ultimately show ?thesis using False True by (auto simp: Let_def)
    next
      case nt: False
      with 2(3) [OF refl False nt] False show ?thesis by (simp add: Let_def)
    qed
  qed
qed simp

lemma normalize_set_plain:
  assumes "to_upper uni (args ! 0) = ''SET''" and "3 \<le> length args" and "list_all (plain_opt uni) (drop 3 args)"
  shows "normalize_expiry uni args now = Done [args]"
  using assms set_opts_plain [OF assms(3), of now 0 "take 3 args"]
  by (auto simp: normalize_expiry_def normalize_set_def Let_def split: prod.splits)

lemma normalize_pexpireat_fixed:
  assumes "min_int64 \<le> ex" and "ex \<le> max_int64"
  shows "normalize_expiry uni ([''PEXPIREAT'', k, format_int ex] @ opts) now = Done [[''PEXPIREAT'', k, format_int ex] @ opts]"
  using parse_int_format [OF assms]
  by (simp add: normalize_expiry_def normalize_expire_cmd_def Let_def)

definition clock_free :: "(string \<Rightarrow> string) \<Rightarrow> bytes list \<Rightarrow> bool" where
  "clock_free uni e \<longleftrightarrow> (\<forall>now. normalize_expiry uni e now = Done [e])"

lemma set_expire_at_range:
  "min_int64 \<le> set_expire_at now opt a \<and> set_expire_at now opt a \<le> max_int64"
  using wrap64_range parse_int_range [of a] by (simp add: set_expire_at_def Let_def)

lemma set_opts_range:
  "min_int64 \<le> ex \<and> ex \<le> max_int64 \<Longrightarrow>
     min_int64 \<le> fst (set_opts uni now opts ex w) \<and> fst (set_opts uni now opts ex w) \<le> max_int64"
  by (induction uni now opts ex w rule: set_opts.induct)
    (auto simp: Let_def set_expire_at_range split: list.splits)

lemma clock_free_pexpireat:
  "min_int64 \<le> ex \<Longrightarrow> ex \<le> max_int64 \<Longrightarrow> clock_free uni ([''PEXPIREAT'', k, format_int ex] @ opts)"
  unfolding clock_free_def using normalize_pexpireat_fixed by blast

lemma clock_free_set:
  "to_upper uni (e ! 0) = ''SET'' \<Longrightarrow> 3 \<le> length e \<Longrightarrow> list_all (plain_opt uni) (drop 3 e) \<Longrightarrow> clock_free uni e"
  unfolding clock_free_def using normalize_set_plain by blast

lemma normalize_set_clock_free:
  assumes "normalize_set uni args now = Done es" and "to_upper uni (args ! 0) = ''SET''"
    and "list_all (plain_opt uni) (drop 3 args) \<or> 0 < fst (set_opts uni now (drop 3 args) 0 (take 3 args))"
  shows "list_all (clock_free uni) es"
proof -
  have len: "3 \<le> length args" using assms(1) by (auto simp: normalize_set_def split: if_splits)
  obtain ex wargs where so: "set_opts uni now (drop 3 args) 0 (take 3 args) = (ex, wargs)" by fastforce
  show ?thesis
  proof (cases "0 < ex")
    case False
    with so assms(3) have "list_all (plain_opt uni) (drop 3 args)" by simp
    then have "clock_free uni args" using clock_free_set [OF assms(2) len] by blast
    with assms(1) so len False show ?thesis by (auto simp: normalize_set_def)
  next
    case True
    obtain xs where xs: "wargs = take 3 args @ xs" "list_all (plain_opt uni) xs"
      using set_opts_wargs [of uni now "drop 3 args" 0 "take 3 args"] so by auto
    have "min_int64 \<le> ex \<and> ex \<le> max_int64"
      using set_opts_range [of 0 uni now "drop 3 args" "take 3 args"] so by (simp add: min_int64_def max_int64_def)
    then have "clock_free uni [''PEXPIREAT'', args ! 1, format_int ex]"
      using clock_free_pexpireat [of ex uni "args ! 1" "[]"] by simp
    moreover have "clock_free uni wargs"
      using xs len assms(2) by (intro clock_free_set) (auto simp: nth_append)
    ultimately show ?thesis using assms(1) so len True by (auto simp: normalize_set_def bargs_def)
  qed
qed

lemma normalize_set_ex_clock_free:
  assumes "to_upper uni (args ! 0) \<in> {''SETEX'', ''PSETEX''}"
  shows "list_all (clock_free uni) (normalize_set_ex uni args now)"
proof (cases "length args < 4 \<or> snd (parse_int (args ! 2)) \<noteq> None")
  case True
  then have same: "normalize_set_ex uni args t = [args]" for t
    by (auto simp: normalize_set_ex_def split: prod.splits option.splits)
  then have "clock_free uni args" using assms by (auto simp: clock_free_def normalize_expiry_def Let_def)
  with same show ?thesis by simp
next
  case False
  then obtain secs where p: "parse_int (args ! 2) = (secs, None)" "4 \<le> length args"
    by (cases "parse_int (args ! 2)") auto
  have "clock_free uni [''SET'', args ! 1, args ! 3]" by (rule clock_free_set) simp_all
  moreover have "clock_free uni [''PEXPIREAT'', args ! 1, format_int (wrap64 t)]" for t
    using clock_free_pexpireat [of "wrap64 t" uni "args ! 1" "[]"] wrap64_range [of t] by simp
  ultimately show ?thesis using p by (simp add: normalize_set_ex_def Let_def bargs_def)
qed

lemma normalize_expire_cmd_clock_free:
  assumes "to_upper uni (args ! 0) \<in> (if is_at then {''EXPIREAT'', ''PEXPIREAT''} else {''EXPIRE'', ''PEXPIRE''})"
  shows "list_all (clock_free uni) (normalize_expire_cmd uni args now is_at)"
proof (cases "length args < 3 \<or> snd (parse_int (args ! 2)) \<noteq> None")
  case True
  then have same: "normalize_expire_cmd uni args t is_at = [args]" for t
    by (auto simp: normalize_expire_cmd_def split: prod.splits option.splits)
  then have "clock_free uni args" using assms by (auto simp: clock_free_def normalize_expiry_def Let_def split: if_splits)
  with same show ?thesis by simp
next
  case False
  then obtain secs where p: "parse_int (args ! 2) = (secs, None)" "3 \<le> length args"
    by (cases "parse_int (args ! 2)") auto
  have "clock_free uni ([''PEXPIREAT'', args ! 1, format_int (wrap64 t)] @ drop 3 args)" for t
    using clock_free_pexpireat [of "wrap64 t"] wrap64_range [of t] by blast
  moreover have "clock_free uni ([''PEXPIREAT'', args ! 1, format_int secs] @ drop 3 args)"
    using clock_free_pexpireat parse_int_range [of "args ! 2"] p by auto
  ultimately show ?thesis using p by (simp add: normalize_expire_cmd_def Let_def)
qed

section \<open>Properties\<close>



text \<open>\<open>SET key value EX n\<close> becomes the plain \<open>SET\<close> and a
  \<open>PEXPIREAT\<close> at \<open>n\<close> seconds after now, as long as that time fits in an \<open>int64\<close>.\<close>

theorem set_with_expiry_is_split:
  assumes "to_upper uni c = ''SET''" and "to_upper uni o1 = ''EX''"
    and "0 < n" and "0 \<le> now" and "now + n * 1000 \<le> max_int64"
  shows "normalize_expiry uni [c, k, v, o1, format_int n] now =
    Done [[c, k, v], [''PEXPIREAT'', k, format_int (now + n * 1000)]]"
proof -
  have n: "parse_int (format_int n) = (n, None)"
    using assms by (intro parse_int_format) (simp_all add: min_int64_def max_int64_def)
  have "wrap64 (n * 1000) = n * 1000" "wrap64 (now + n * 1000) = now + n * 1000"
    using assms by (auto intro!: wrap64_id simp: min_int64_def max_int64_def)
  with assms n show ?thesis
    by (simp add: normalize_expiry_def normalize_set_def Let_def set_expire_at_def bargs_def numeral_3_eq_3)
qed

theorem set_with_expiry_is_split_witness:
  "normalize_expiry (\<lambda>s. s) [''SET'', ''k'', ''v'', ''EX'', format_int 10] 5 =
     Done [[''SET'', ''k'', ''v''], [''PEXPIREAT'', ''k'', format_int (5 + 10 * 1000)]]"
  by (rule set_with_expiry_is_split) (simp_all add: max_int64_def)

text \<open>An \<open>EX\<close> option whose argument is no number counts as 0:
  the log gets a \<open>SET\<close> and an expiry at the current time, although the command itself is
  invalid.\<close>

theorem bad_expiry_reaches_the_log:
  assumes "to_upper uni c = ''SET''" and "to_upper uni o1 = ''EX''" and "parse_int n = (0, e)"
    and "0 < now" and "now \<le> max_int64"
  shows "normalize_expiry uni [c, k, v, o1, n] now = Done [[c, k, v], [''PEXPIREAT'', k, format_int now]]"
proof -
  have "wrap64 0 = 0" "wrap64 now = now" using assms by (auto intro!: wrap64_id simp: min_int64_def max_int64_def)
  with assms show ?thesis
    by (simp add: normalize_expiry_def normalize_set_def Let_def set_expire_at_def bargs_def numeral_3_eq_3)
qed

theorem bad_expiry_reaches_the_log_witness:
  "normalize_expiry (\<lambda>s. s) [''SET'', ''k'', ''v'', ''EX'', ''soon''] 5 =
     Done [[''SET'', ''k'', ''v''], [''PEXPIREAT'', ''k'', format_int 5]]"
proof (rule bad_expiry_reaches_the_log)
  show "parse_int ''soon'' = (0, Some ErrSyntax)"
    by (simp add: parse_int_def parse_uint_def is_digit_def byte_val_def)
qed (simp_all add: max_int64_def)

text \<open>C40 large_expiry_wraps. An \<open>EXPIRE\<close> far in the future wraps around to a time in the
  past.\<close>

theorem large_expiry_wraps:
  assumes "to_upper uni c = ''EXPIRE''" and "0 \<le> n" and "n * 1000 \<le> max_int64"
    and "0 \<le> now" and "now \<le> max_int64" and "max_int64 < now + n * 1000"
  shows "normalize_expiry uni [c, k, format_int n] now = Done [[''PEXPIREAT'', k, format_int (now + n * 1000 - 2 ^ 64)]]
    \<and> now + n * 1000 - 2 ^ 64 < 0"
proof -
  have n: "parse_int (format_int n) = (n, None)"
    using assms by (intro parse_int_format) (simp_all add: min_int64_def max_int64_def)
  have "wrap64 (n * 1000) = n * 1000" using assms by (auto intro!: wrap64_id simp: min_int64_def max_int64_def)
  moreover have "wrap64 (now + n * 1000) = now + n * 1000 - 2 ^ 64"
    using assms by (intro wrap64_over) (simp_all add: max_int64_def)
  ultimately show ?thesis using assms n
    by (simp add: normalize_expiry_def normalize_expire_cmd_def Let_def) (simp add: max_int64_def)
qed

theorem large_expiry_wraps_witness:
  "normalize_expiry (\<lambda>s. s) [''EXPIRE'', ''k'', format_int 9223372036854775] 1000 =
     Done [[''PEXPIREAT'', ''k'', format_int (1000 + 9223372036854775 * 1000 - 2 ^ 64)]]"
  using large_expiry_wraps [of "\<lambda>s. s" "''EXPIRE''" 9223372036854775 1000 "''k''"] by (simp add: max_int64_def)

text \<open>\<open>SET\<close> with a key and nothing else panics the primary.\<close>

theorem set_without_value_panics:
  assumes "to_upper uni c = ''SET''"
  shows "normalize_expiry uni [c, k] now = Panic ''index out of range''"
  using assms by (simp add: normalize_expiry_def normalize_set_def Let_def)

theorem set_without_value_panics_witness:
  "normalize_expiry (\<lambda>s. s) [''SET'', ''k''] 1 = Panic ''index out of range''"
  by (rule set_without_value_panics) simp

end
