(* ===== verification/Recordio.thy ===== *)
theory Recordio
  imports Framing
begin

text \<open>
  The on-disk record codec of the write-ahead log, \<open>internal/wal/recordio.go\<close>: a record
  is a varint length, the body and the big-endian CRC-32 of the body. First the functions
  of \<open>encoding/binary\<close> and \<open>hash/crc32\<close> it calls, then \<open>AppendRecord\<close>, the buffered
  reader (\<open>ensure\<close>, \<open>readRecord\<close>) and \<open>Scan\<close>, then a reference parser on the whole
  byte string, and the proof that the buffered reader computes what the reference parser
  says, however the underlying reads are split.
\<close>

section \<open>encoding/binary and hash/crc32\<close>

function put_uvarint :: "u64 \<Rightarrow> bytes" where
  "put_uvarint x =
     (if x < 0x80 then [byte_of (unat x)]
      else byte_of (unat (x OR 0x80)) # put_uvarint (drop_bit 7 x))"
  by pat_completeness auto
termination
proof (relation "measure unat", simp)
  fix x :: u64
  assume "\<not> x < 0x80"
  then have "128 \<le> unat x" by (simp add: word_less_nat_alt)
  then show "(drop_bit 7 x, x) \<in> measure unat"
    by (simp add: drop_bit_eq_div unat_div)
qed

declare put_uvarint.simps [simp del]

text \<open>\<open>Uvarint\<close>: a positive count of bytes read, 0 for a buffer too small, negative on overflow.\<close>

fun uvarint_loop :: "nat \<Rightarrow> u64 \<Rightarrow> nat \<Rightarrow> bytes \<Rightarrow> u64 \<times> int" where
  "uvarint_loop i x s [] = (0, 0)"
| "uvarint_loop i x s (b # bs) =
     (if i = 10 then (0, - (int i + 1))
      else if byte_val b < 0x80 then
        (if i = 9 \<and> 1 < byte_val b then (0, - (int i + 1))
         else (x OR push_bit s (of_nat (byte_val b)), int i + 1))
      else uvarint_loop (Suc i) (x OR push_bit s (of_nat (byte_val b) AND 0x7f)) (s + 7) bs)"

definition uvarint :: "bytes \<Rightarrow> u64 \<times> int" where
  "uvarint bs = uvarint_loop 0 0 0 bs"

definition crc_bit :: "32 word \<Rightarrow> 32 word" where
  "crc_bit c = (if bit c 0 then drop_bit 1 c XOR 0xEDB88320 else drop_bit 1 c)"

definition crc_byte :: "32 word \<Rightarrow> char \<Rightarrow> 32 word" where
  "crc_byte c b = (crc_bit ^^ 8) (c XOR of_nat (byte_val b))"

definition crc32_ieee :: "bytes \<Rightarrow> 32 word" where
  "crc32_ieee bs = NOT (foldl crc_byte (NOT 0) bs)"

definition put_uint32 :: "32 word \<Rightarrow> bytes" where
  "put_uint32 c =
     [byte_of (unat (drop_bit 24 c)), byte_of (unat (drop_bit 16 c)),
      byte_of (unat (drop_bit 8 c)), byte_of (unat c)]"

definition get_uint32 :: "bytes \<Rightarrow> 32 word" where
  "get_uint32 bs =
     of_nat (byte_val (bs ! 3)) OR push_bit 8 (of_nat (byte_val (bs ! 2)))
     OR push_bit 16 (of_nat (byte_val (bs ! 1))) OR push_bit 24 (of_nat (byte_val (bs ! 0)))"

section \<open>AppendRecord\<close>

text \<open>
  The \<open>io.Writer\<close> is an argument: \<open>wr w b\<close> writes \<open>b\<close> and returns the new writer and
  the error, if any. Three writes, stopping at the first that fails.
\<close>

definition append_record ::
  "('w \<Rightarrow> bytes \<Rightarrow> 'w \<times> 'e option) \<Rightarrow> 'w \<Rightarrow> bytes \<Rightarrow> 'w \<times> 'e option" where
  "append_record wr w body =
     (case wr w (put_uvarint (of_nat (length body))) of
        (w1, Some e) \<Rightarrow> (w1, Some e)
      | (w1, None) \<Rightarrow>
          (case wr w1 body of
             (w2, Some e) \<Rightarrow> (w2, Some e)
           | (w2, None) \<Rightarrow> wr w2 (put_uint32 (crc32_ieee body))))"

definition record_bytes :: "bytes \<Rightarrow> bytes" where
  "record_bytes body =
     put_uvarint (of_nat (length body)) @ body @ put_uint32 (crc32_ieee body)"

section \<open>The buffered reader\<close>

text \<open>
  An \<open>io.Reader\<close> is the list of what its successive \<open>Read\<close> calls can deliver at most (a
  chunk longer than the caller's buffer is delivered in pieces, an empty chunk is a read
  of zero bytes without error) and the error it ends with: \<open>None\<close> for \<open>io.EOF\<close>.
\<close>

record stream =
  st_chunks :: "bytes list"
  st_fin :: "string option"

datatype rec_error = REOF | RTruncated | RIO string | RCrc | RVarint

fun stream_read :: "nat \<Rightarrow> stream \<Rightarrow> bytes \<times> rec_error option \<times> stream" where
  "stream_read n s =
     (case st_chunks s of
        [] \<Rightarrow> ([], Some (case st_fin s of None \<Rightarrow> REOF | Some e \<Rightarrow> RIO e), s)
      | c # cs \<Rightarrow>
          if length c \<le> n then (c, None, s\<lparr>st_chunks := cs\<rparr>)
          else (take n c, None, s\<lparr>st_chunks := drop n c # cs\<rparr>))"

text \<open>
  The reader's buffer: \<open>rd_buf\<close> holds the filled part \<open>buf[:bufFill]\<close>, so \<open>bufFill\<close> is
  its length, and \<open>rd_len\<close> is \<open>len(buf)\<close>.
\<close>

record reader =
  rd_src :: stream
  rd_buf :: bytes
  rd_len :: nat
  rd_pos :: nat

definition new_reader :: "stream \<Rightarrow> reader" where
  "new_reader s = \<lparr>rd_src = s, rd_buf = [], rd_len = 64 * 1024, rd_pos = 0\<rparr>"

abbreviation rd_avail :: "reader \<Rightarrow> bytes" where
  "rd_avail r \<equiv> drop (rd_pos r) (rd_buf r)"

definition rd_compact :: "reader \<Rightarrow> reader" where
  "rd_compact r = (if 0 < rd_pos r then r\<lparr>rd_buf := rd_avail r, rd_pos := 0\<rparr> else r)"

definition rd_grow :: "reader \<Rightarrow> reader" where
  "rd_grow r = (if length (rd_buf r) = rd_len r then r\<lparr>rd_len := rd_len r * 2\<rparr> else r)"

partial_function (option) ensure :: "int \<Rightarrow> reader \<Rightarrow> (rec_error option \<times> reader) option" where
  "ensure n r =
     (if n \<le> int (length (rd_buf r)) - int (rd_pos r) then Some (None, r)
      else let r1 = rd_grow (rd_compact r) in
        case stream_read (rd_len r1 - length (rd_buf r1)) (rd_src r1) of
          (got, err, s') \<Rightarrow>
            let r2 = r1\<lparr>rd_src := s', rd_buf := rd_buf r1 @ got\<rparr> in
            if 0 < length got then ensure n r2
            else case err of
              None \<Rightarrow> ensure n r2
            | Some REOF \<Rightarrow>
                Some (Some (if length (rd_buf r2) - rd_pos r2 = 0 then REOF else RTruncated), r2)
            | Some e \<Rightarrow> Some (Some e, r2))"

text \<open>
  One record. The length \<open>l\<close> is converted to \<open>int\<close>, so a length of \<open>2^63 - 4\<close> or more
  wraps to a request that \<open>ensure\<close> grants, and the allocation of the body then panics.
\<close>

datatype rec_result = Rec bytes | RErr rec_error | RPanic

definition need_bytes :: "u64 \<Rightarrow> int" where
  "need_bytes l = wrap64 (wrap64 (uint l) + 4)"

definition length_panics :: "u64 \<Rightarrow> bool" where
  "length_panics l \<longleftrightarrow> 2 ^ 63 - 4 \<le> unat l"

definition take_body :: "u64 \<Rightarrow> reader \<Rightarrow> rec_result \<times> reader" where
  "take_body l r =
     (let k = unat l;
          body = take k (rd_avail r);
          crc = get_uint32 (take 4 (drop k (rd_avail r)));
          r' = r\<lparr>rd_pos := rd_pos r + k + 4\<rparr>
      in (if crc \<noteq> crc32_ieee body then RErr RCrc else Rec body, r'))"

partial_function (option) read_body :: "reader \<Rightarrow> (rec_result \<times> reader) option" where
  "read_body r =
     (case uvarint (rd_avail r) of
        (l, n) \<Rightarrow>
          if 0 < n then
            let r1 = r\<lparr>rd_pos := rd_pos r + nat n\<rparr> in
            Option.bind (ensure (need_bytes l) r1) (\<lambda>(err, r2).
              if err \<noteq> None then Some (RErr RTruncated, r2)
              else if length_panics l then Some (RPanic, r2)
              else Some (take_body l r2))
          else if n = 0 then
            Option.bind (ensure (int (length (rd_buf r)) - int (rd_pos r) + 1) r) (\<lambda>(err, r2).
              if err \<noteq> None then Some (RErr RTruncated, r2) else read_body r2)
          else Some (RErr RVarint, r))"

definition read_record :: "reader \<Rightarrow> (rec_result \<times> reader) option" where
  "read_record r =
     Option.bind (ensure 1 r) (\<lambda>(err, r1).
       case err of Some e \<Rightarrow> Some (RErr e, r1) | None \<Rightarrow> read_body r1)"

text \<open>
  \<open>Scan\<close>: the callback is a function on its own state that returns whether to go on, or
  an error. The result is the final state with the error of the scan.
\<close>

type_synonym 's callback = "'s \<Rightarrow> bytes \<Rightarrow> 's \<times> (string + bool)"

datatype scan_error = SRecord rec_error | SCallback string

partial_function (option) scan_loop ::
  "'s callback \<Rightarrow> 's \<Rightarrow> reader \<Rightarrow> ('s \<times> scan_error option) outcome option" where
  "scan_loop fn s r =
     Option.bind (read_record r) (\<lambda>(res, r').
       case res of
         RPanic \<Rightarrow> Some (Panic ''makeslice: len out of range'')
       | RErr e \<Rightarrow>
           if e = REOF \<or> e = RTruncated then Some (Done (s, None))
           else Some (Done (s, Some (SRecord e)))
       | Rec body \<Rightarrow>
           (case fn s body of
              (s', Inl e) \<Rightarrow> Some (Done (s', Some (SCallback e)))
            | (s', Inr cont) \<Rightarrow> if cont then scan_loop fn s' r' else Some (Done (s', None))))"

definition scan :: "'s callback \<Rightarrow> 's \<Rightarrow> stream \<Rightarrow> ('s \<times> scan_error option) outcome option" where
  "scan fn s src = scan_loop fn s (new_reader src)"

section \<open>The reference parser\<close>

text \<open>
  What the reader has to compute, on the whole remaining content: the record at the front
  and the bytes after it, or why there is none.
\<close>

datatype parsed = PRec bytes bytes | PErr rec_error | PPanic

definition fin_error :: "string option \<Rightarrow> rec_error" where
  "fin_error fin = (case fin of None \<Rightarrow> REOF | Some e \<Rightarrow> RIO e)"

definition parse_body :: "u64 \<Rightarrow> bytes \<Rightarrow> parsed" where
  "parse_body l rest =
     (let k = unat l in
      if int (length rest) < need_bytes l then PErr RTruncated
      else if length_panics l then PPanic
      else if get_uint32 (take 4 (drop k rest)) \<noteq> crc32_ieee (take k rest) then PErr RCrc
      else PRec (take k rest) (drop (k + 4) rest))"

definition parse_record :: "string option \<Rightarrow> bytes \<Rightarrow> parsed" where
  "parse_record fin bs =
     (if bs = [] then PErr (fin_error fin)
      else case uvarint bs of
        (l, n) \<Rightarrow>
          if 0 < n then parse_body l (drop (nat n) bs)
          else if n = 0 then PErr RTruncated
          else PErr RVarint)"

section \<open>Varints and checksums round-trip\<close>

lemma mask7: "(0x7f :: u64) = mask 7" by (simp add: mask_eq_exp_minus_1)

lemma uvarint_step_or:
  fixes y x :: u64
  shows "(x OR push_bit s (y AND 0x7f)) OR push_bit (s + 7) (drop_bit 7 y) = x OR push_bit s y"
proof -
  have b: "bit y (n - s) \<Longrightarrow> \<not> bit y (7 + (n - (s + 7))) \<Longrightarrow> s \<le> n \<Longrightarrow> n - s < 7" for n
    by (cases "n - s < 7") (auto simp: not_less le_diff_conv2 algebra_simps)
  show ?thesis
    unfolding mask7
    by (rule bit_word_eqI) (auto simp: bit_simps dest: b)
qed

lemma bit_128: "bit (128 :: nat) n \<longleftrightarrow> n = 7"
proof -
  have "bit (2 ^ 7 :: nat) n \<longleftrightarrow> n = 7" by (simp only: bit_exp_iff) auto
  then show ?thesis by simp
qed

lemma cont_byte:
  fixes y :: u64
  shows "of_nat (byte_val (byte_of (unat (y OR 0x80)))) AND (0x7f :: u64) = y AND 0x7f"
    and "\<not> byte_val (byte_of (unat (y OR 0x80))) < 0x80"
proof -
  have eq: "byte_val (byte_of (unat (y OR 0x80))) = take_bit 8 (unat y OR 128)"
    unfolding byte_val_take_bit by (simp add: unsigned_or_eq)
  show "of_nat (byte_val (byte_of (unat (y OR 0x80)))) AND (0x7f :: u64) = y AND 0x7f"
    unfolding mask7 eq by (rule bit_word_eqI) (auto simp: bit_simps bit_128)
  have "bit (take_bit 8 (unat y OR 128)) 7" by (simp add: bit_simps bit_128)
  then have "2 ^ 7 \<le> take_bit 8 (unat y OR 128)"
    by (metis bit_iff_odd div_less even_zero not_le)
  then show "\<not> byte_val (byte_of (unat (y OR 0x80))) < 0x80" unfolding eq by simp
qed

lemma uvarint_loop_put:
  "i \<le> 9 \<Longrightarrow> unat y < 2 ^ (64 - 7 * i) \<Longrightarrow>
   uvarint_loop i x (7 * i) (put_uvarint y @ rest) =
     (x OR push_bit (7 * i) y, int i + int (length (put_uvarint y)))"
proof (induction y arbitrary: i x rule: put_uvarint.induct)
  case (1 y)
  show ?case
  proof (cases "y < 0x80")
    case True
    then have small: "unat y < 128" by (simp add: word_less_nat_alt)
    moreover have "i = 9 \<Longrightarrow> unat y \<le> 1" using 1(3) by simp
    ultimately show ?thesis using True 1(2)
      by (auto simp: put_uvarint.simps [of y])
  next
    case False
    then have "128 \<le> unat y" by (simp add: word_less_nat_alt)
    with 1(3) have "i < 9" using 1(2) by (cases "i = 9") auto
    have "unat (drop_bit 7 y) < 2 ^ (64 - 7 * Suc i)"
    proof -
      have "unat (drop_bit 7 y) = unat y div 2 ^ 7" by (simp add: drop_bit_eq_div unat_div)
      moreover have "64 - 7 * i = (64 - 7 * Suc i) + 7" using \<open>i < 9\<close> by simp
      then have "(2::nat) ^ (64 - 7 * i) = 2 ^ (64 - 7 * Suc i) * 2 ^ 7"
        by (simp only: power_add)
      ultimately show ?thesis using 1(3) by (simp add: less_mult_imp_div_less)
    qed
    with 1(1) [OF False, of "Suc i" "x OR push_bit (7 * i) (y AND 0x7f)"] \<open>i < 9\<close>
    show ?thesis using False
      by (simp add: put_uvarint.simps [of y] cont_byte uvarint_step_or add.commute [of 7]
          del: byte_val_of byte_val_of_less push_bit_and)
  qed
qed

lemma uvarint_put: "uvarint (put_uvarint y @ rest) = (y, int (length (put_uvarint y)))"
using uvarint_loop_put [of 0 y 0 rest] unat_u64_less [of y] by (simp add: uvarint_def)

lemma get_put_uint32: "get_uint32 (put_uint32 c) = c"
proof -
  have b: "of_nat (byte_val (byte_of (unat w))) = (take_bit 8 w :: 32 word)" for w :: "32 word"
    unfolding byte_val_take_bit by (rule bit_word_eqI) (auto simp: bit_simps)
  have "take_bit 8 c OR push_bit 8 (take_bit 8 (drop_bit 8 c))
     OR push_bit 16 (take_bit 8 (drop_bit 16 c)) OR push_bit 24 (take_bit 8 (drop_bit 24 c)) = c"
  proof (rule bit_word_eqI)
    fix n :: nat
    consider "n < 8" | "8 \<le> n" "n < 16" | "16 \<le> n" "n < 24" | "24 \<le> n" by linarith
    then show "bit (take_bit 8 c OR push_bit 8 (take_bit 8 (drop_bit 8 c))
      OR push_bit 16 (take_bit 8 (drop_bit 16 c)) OR push_bit 24 (take_bit 8 (drop_bit 24 c))) n
      = bit c n" if "n < LENGTH(32)"
      by cases (use that in \<open>auto simp: bit_simps\<close>)
  qed
  then show ?thesis by (simp add: get_uint32_def put_uint32_def b del: byte_val_of)
qed

section \<open>The reader computes the reference parser\<close>

definition rd_ok :: "reader \<Rightarrow> bool" where
  "rd_ok r \<longleftrightarrow> 0 < rd_len r \<and> rd_pos r \<le> length (rd_buf r) \<and> length (rd_buf r) \<le> rd_len r"

definition rd_content :: "reader \<Rightarrow> bytes" where
  "rd_content r = rd_avail r @ concat (st_chunks (rd_src r))"

abbreviation rd_fin :: "reader \<Rightarrow> string option" where
  "rd_fin r \<equiv> st_fin (rd_src r)"

lemma rd_fill:
  assumes "rd_ok r"
  defines "r1 \<equiv> rd_grow (rd_compact r)"
  shows "rd_buf r1 = rd_avail r" "rd_pos r1 = 0" "length (rd_buf r1) < rd_len r1" "rd_src r1 = rd_src r"
  using assms by (auto simp: rd_ok_def rd_grow_def rd_compact_def)

definition ensure_error :: "reader \<Rightarrow> rec_error" where
  "ensure_error r = (case rd_fin r of
     None \<Rightarrow> if rd_content r = [] then REOF else RTruncated | Some e \<Rightarrow> RIO e)"

definition ensured :: "int \<Rightarrow> reader \<Rightarrow> rec_error option \<Rightarrow> reader \<Rightarrow> bool" where
  "ensured n r err r' \<longleftrightarrow>
     err = (if n \<le> int (length (rd_content r)) then None else Some (ensure_error r))
     \<and> rd_ok r' \<and> rd_content r' = rd_content r \<and> rd_fin r' = rd_fin r
     \<and> (err = None \<longrightarrow> n \<le> int (length (rd_avail r')))"

lemma ensure_spec:
  assumes "rd_ok r"
  shows "\<exists>err r'. ensure n r = Some (err, r') \<and> ensured n r err r'"
  using assms
proof (induction "length (concat (st_chunks (rd_src r))) + length (st_chunks (rd_src r))"
    arbitrary: r rule: less_induct)
  case less
  show ?case
  proof (cases "n \<le> int (length (rd_avail r))")
    case True
    with less.prems show ?thesis
      by (subst ensure.simps) (simp add: ensured_def rd_content_def rd_ok_def)
  next
    case False
    define r1 where "r1 = rd_grow (rd_compact r)"
    note r1 = rd_fill [OF less.prems, folded r1_def]
    have short: "\<not> n \<le> int (length (rd_buf r)) - int (rd_pos r)"
      using False less.prems by (simp add: rd_ok_def)
    show ?thesis
    proof (cases "st_chunks (rd_src r)")
      case Nil
      with False short r1 show ?thesis
        by (subst ensure.simps)
          (auto simp: ensured_def rd_content_def ensure_error_def rd_ok_def r1_def [symmetric]
            split: option.splits)
    next
      case (Cons c cs)
      define m where "m = rd_len r1 - length (rd_buf r1)"
      define r2 where "r2 = r1\<lparr>rd_src := (rd_src r)\<lparr>st_chunks := if length c \<le> m then cs else drop m c # cs\<rparr>,
        rd_buf := rd_buf r1 @ take m c\<rparr>"
      have eq: "ensure n r = ensure n r2"
        using short Cons r1 by (subst ensure.simps) (auto simp: r2_def m_def r1_def [symmetric] Let_def)
      have "0 < m" using r1 by (simp add: m_def)
      have "rd_ok r2" using r1 by (auto simp: rd_ok_def r2_def m_def)
      have same: "rd_content r2 = rd_content r" "rd_fin r2 = rd_fin r"
        using r1 Cons by (simp_all add: rd_content_def r2_def)
      have "length (concat (st_chunks (rd_src r2))) + length (st_chunks (rd_src r2))
          < length (concat (st_chunks (rd_src r))) + length (st_chunks (rd_src r))"
        using Cons \<open>0 < m\<close> by (auto simp: r2_def)
      note IH = less.hyps [OF this \<open>rd_ok r2\<close>]
      have "ensured n r2 = ensured n r"
        by (intro ext) (simp add: ensured_def ensure_error_def same)
      with IH show ?thesis unfolding eq by simp
    qed
  qed
qed

lemma uvarint_loop_stable:
  "uvarint_loop i x s xs = (l, n) \<Longrightarrow> n \<noteq> 0 \<Longrightarrow>
     uvarint_loop i x s (xs @ ys) = (l, n) \<and> (0 < n \<longrightarrow> int i < n \<and> n \<le> int i + int (length xs))"
  by (induction i x s xs rule: uvarint_loop.induct) (auto split: if_splits)

lemma uvarint_stable:
  "uvarint xs = (l, n) \<Longrightarrow> n \<noteq> 0 \<Longrightarrow> uvarint (xs @ ys) = (l, n)"
  using uvarint_loop_stable unfolding uvarint_def by blast

lemma uvarint_length: "uvarint xs = (l, n) \<Longrightarrow> n \<le> int (length xs)"
  using uvarint_loop_stable [of 0 0 0 xs l n] unfolding uvarint_def by (cases "0 < n") auto


lemma need_bytes_small:
  assumes "\<not> length_panics l"
  shows "need_bytes l = int (unat l) + 4"
proof -
  define k where "k = unat l"
  have "uint l = int k" by (simp add: k_def)
  with assms show ?thesis
    unfolding need_bytes_def length_panics_def wrap64_def k_def [symmetric] by simp
qed

text \<open>How a result of the reader stands for a result of the reference parser.\<close>

definition reads_as :: "string option \<Rightarrow> parsed \<Rightarrow> rec_result \<Rightarrow> reader \<Rightarrow> bool" where
  "reads_as fin p res r' \<longleftrightarrow>
     (case p of
        PRec b rest \<Rightarrow> res = Rec b \<and> rd_ok r' \<and> rd_content r' = rest \<and> rd_fin r' = fin
      | PErr e \<Rightarrow> res = RErr e
      | PPanic \<Rightarrow> res = RPanic)"

lemma take_body_spec:
  assumes ok: "rd_ok r" and "\<not> length_panics l" and need: "need_bytes l \<le> int (length (rd_avail r))"
    and res: "take_body l r = (res, r')"
  shows "reads_as (rd_fin r) (parse_body l (rd_content r)) res r'"
proof -
  have "int (unat l + 4) \<le> int (length (rd_avail r))"
    using assms need_bytes_small by simp
  then have k: "unat l + 4 \<le> length (rd_avail r)" by (simp only: of_nat_le_iff)
  have "\<not> int (length (rd_content r)) < need_bytes l"
    using need by (simp add: rd_content_def)
  with k ok res assms(2) show ?thesis
    by (auto simp: take_body_def parse_body_def reads_as_def Let_def rd_content_def rd_ok_def
        add.commute add.left_commute)
qed

lemma parse_record_header:
  assumes "rd_avail r \<noteq> []" and "uvarint (rd_avail r) = (l, n)" and "n \<noteq> 0"
  shows "parse_record fin (rd_content r) =
    (if 0 < n then parse_body l (drop (nat n) (rd_content r)) else PErr RVarint)"
proof -
  have "uvarint (rd_content r) = (l, n)"
    unfolding rd_content_def using uvarint_stable assms by blast
  with assms show ?thesis by (simp add: parse_record_def rd_content_def)
qed

lemma read_body_full:
  assumes "rd_ok r" and "rd_avail r \<noteq> []" and u: "uvarint (rd_avail r) = (l, n)" and "0 < n"
  shows "\<exists>res r'. read_body r = Some (res, r') \<and> reads_as (rd_fin r) (parse_record (rd_fin r) (rd_content r)) res r'"
proof -
  define r1 where "r1 = r\<lparr>rd_pos := rd_pos r + nat n\<rparr>"
  have n: "nat n \<le> length (rd_avail r)" using uvarint_length [OF u] by simp
  then have ok1: "rd_ok r1" using assms by (auto simp: r1_def rd_ok_def)
  have c1: "rd_content r1 = drop (nat n) (rd_content r)" and f1: "rd_fin r1 = rd_fin r"
    using n by (simp_all add: r1_def rd_content_def add.commute)
  obtain err r2 where e: "ensure (need_bytes l) r1 = Some (err, r2)"
    and r2: "ensured (need_bytes l) r1 err r2"
    using ensure_spec [OF ok1] by blast
  have unf: "read_body r = (if err \<noteq> None then Some (RErr RTruncated, r2)
            else if length_panics l then Some (RPanic, r2) else Some (take_body l r2))"
    using u assms(4) e by (subst read_body.simps) (simp add: r1_def Let_def)
  have p: "parse_record (rd_fin r) (rd_content r) = parse_body l (rd_content r1)"
    using parse_record_header [OF assms(2) u] assms(4) by (simp add: c1)
  show ?thesis
  proof (cases "err = None \<and> \<not> length_panics l")
    case True
    then have "need_bytes l \<le> int (length (rd_avail r2))" and "rd_ok r2"
      and "rd_content r2 = rd_content r1" "rd_fin r2 = rd_fin r"
      using r2 f1 by (auto simp: ensured_def)
    moreover obtain res r' where "take_body l r2 = (res, r')" by fastforce
    ultimately show ?thesis
      using True take_body_spec [of r2 l res r'] unfolding unf p by simp
  next
    case False
    with r2 have "reads_as (rd_fin r) (parse_body l (rd_content r1))
        (if err \<noteq> None then RErr RTruncated else RPanic) r2"
      by (auto simp: parse_body_def reads_as_def Let_def ensured_def split: if_splits)
    with False show ?thesis unfolding unf p by auto
  qed
qed

lemma read_body_spec:
  assumes "rd_ok r" and "rd_avail r \<noteq> []"
  shows "\<exists>res r'. read_body r = Some (res, r') \<and> reads_as (rd_fin r) (parse_record (rd_fin r) (rd_content r)) res r'"
  using assms
proof (induction "length (concat (st_chunks (rd_src r)))" arbitrary: r rule: less_induct)
  case less
  obtain l n where u: "uvarint (rd_avail r) = (l, n)" by fastforce
  consider "0 < n" | "n = 0" | "n < 0" by linarith
  then show ?case
  proof cases
    case 1
    then show ?thesis using read_body_full less.prems u by blast
  next
    case 2
    define k where "k = int (length (rd_buf r)) - int (rd_pos r) + 1"
    obtain err r2 where e: "ensure k r = Some (err, r2)" and r2: "ensured k r err r2"
      using ensure_spec [OF less.prems(1)] by blast
    have k: "k = int (length (rd_avail r)) + 1" using less.prems by (simp add: k_def rd_ok_def)
    have unf: "read_body r = (if err \<noteq> None then Some (RErr RTruncated, r2) else read_body r2)"
      using u 2 e by (subst read_body.simps) (simp add: k_def)
    show ?thesis
    proof (cases "err = None")
      case True
      with r2 k have "length (rd_avail r) < length (rd_avail r2)" by (simp add: ensured_def)
      moreover from r2 have "length (rd_avail r2) + length (concat (st_chunks (rd_src r2)))
          = length (rd_avail r) + length (concat (st_chunks (rd_src r)))"
        unfolding rd_content_def ensured_def by (metis length_append)
      ultimately have "length (concat (st_chunks (rd_src r2))) < length (concat (st_chunks (rd_src r)))"
        and "rd_avail r2 \<noteq> []" by auto
      from less.hyps [OF this(1) _ this(2)] True r2 show ?thesis
        unfolding unf ensured_def by simp
    next
      case False
      then have "\<not> k \<le> int (length (rd_content r))" using r2 by (auto simp: ensured_def)
      moreover have "length (rd_content r) = length (rd_avail r) + length (concat (st_chunks (rd_src r)))"
        unfolding rd_content_def by (rule length_append)
      ultimately have "length (concat (st_chunks (rd_src r))) = 0"
        unfolding k by linarith
      then have "rd_content r = rd_avail r" by (simp only: length_0_conv rd_content_def append_Nil2)
      with less.prems u 2 have "parse_record (rd_fin r) (rd_content r) = PErr RTruncated"
        by (simp add: parse_record_def)
      with False show ?thesis unfolding unf by (simp add: reads_as_def)
    qed
  next
    case 3
    with u parse_record_header [OF less.prems(2) u] show ?thesis
      by (subst read_body.simps) (simp add: reads_as_def)
  qed
qed

lemma read_record_spec:
  assumes "rd_ok r"
  shows "\<exists>res r'. read_record r = Some (res, r') \<and> reads_as (rd_fin r) (parse_record (rd_fin r) (rd_content r)) res r'"
proof -
  obtain err r1 where e: "ensure 1 r = Some (err, r1)" and r1: "ensured 1 r err r1"
    using ensure_spec [OF assms] by blast
  show ?thesis
  proof (cases "rd_content r = []")
    case True
    with e r1 show ?thesis
      by (auto simp: ensured_def read_record_def reads_as_def parse_record_def ensure_error_def fin_error_def)
  next
    case False
    then have "err = None" using r1 by (cases "rd_content r") (auto simp: ensured_def)
    with r1 have "rd_avail r1 \<noteq> []" by (auto simp: ensured_def)
    with read_body_spec [of r1] e r1 \<open>err = None\<close> show ?thesis
      by (auto simp: ensured_def read_record_def)
  qed
qed


section \<open>Scanning\<close>

text \<open>\<open>Scan\<close> on the whole content, by the reference parser.\<close>

lemma parse_record_shorter:
  assumes "parse_record fin bs = PRec b rest"
  shows "length rest < length bs"
proof -
  obtain l n where "uvarint bs = (l, n)" by fastforce
  with assms show ?thesis
    by (cases "bs = []") (auto simp: parse_record_def parse_body_def Let_def split: if_splits)
qed

function scan_bytes :: "'s callback \<Rightarrow> 's \<Rightarrow> string option \<Rightarrow> bytes \<Rightarrow> ('s \<times> scan_error option) outcome" where
  "scan_bytes fn s fin bs =
     (case parse_record fin bs of
        PPanic \<Rightarrow> Panic ''makeslice: len out of range''
      | PErr e \<Rightarrow>
          if e = REOF \<or> e = RTruncated then Done (s, None) else Done (s, Some (SRecord e))
      | PRec body rest \<Rightarrow>
          (case fn s body of
             (s', Inl e) \<Rightarrow> Done (s', Some (SCallback e))
           | (s', Inr cont) \<Rightarrow> if cont then scan_bytes fn s' fin rest else Done (s', None)))"
  by pat_completeness auto
termination
  by (relation "measure (\<lambda>(fn, s, fin, bs). length bs)") (auto dest: parse_record_shorter)

declare scan_bytes.simps [simp del]

lemma scan_loop_spec:
  assumes "rd_ok r"
  shows "scan_loop fn s r = Some (scan_bytes fn s (rd_fin r) (rd_content r))"
  using assms
proof (induction "length (rd_content r)" arbitrary: s r rule: less_induct)
  case less
  obtain res r' where rr: "read_record r = Some (res, r')"
    and ra: "reads_as (rd_fin r) (parse_record (rd_fin r) (rd_content r)) res r'"
    using read_record_spec [OF less.prems] by blast
  show ?case
  proof (cases "parse_record (rd_fin r) (rd_content r)")
    case (PRec b rest)
    with ra have res: "res = Rec b" and r': "rd_ok r'" "rd_content r' = rest" "rd_fin r' = rd_fin r"
      by (auto simp: reads_as_def)
    obtain s' a where fn: "fn s b = (s', a)" by fastforce
    have "scan_loop fn s' r' = Some (scan_bytes fn s' (rd_fin r) rest)"
      using less.hyps [of r' s'] r' parse_record_shorter [OF PRec] by simp
    with PRec rr res fn show ?thesis
      by (subst scan_loop.simps, subst scan_bytes.simps) (auto split: sum.splits)
  next
    case (PErr e)
    with ra have "res = RErr e" by (simp add: reads_as_def)
    with PErr rr show ?thesis
      by (subst scan_loop.simps, subst scan_bytes.simps) simp
  next
    case PPanic
    with ra have "res = RPanic" by (simp add: reads_as_def)
    with PPanic rr show ?thesis
      by (subst scan_loop.simps, subst scan_bytes.simps) simp
  qed
qed

lemma scan_eq_scan_bytes:
  "scan fn s src = Some (scan_bytes fn s (st_fin src) (concat (st_chunks src)))"
proof -
  have "rd_ok (new_reader src)" by (simp add: rd_ok_def new_reader_def)
  moreover have "rd_content (new_reader src) = concat (st_chunks src)" "rd_fin (new_reader src) = st_fin src"
    by (simp_all add: rd_content_def new_reader_def)
  ultimately show ?thesis by (simp add: scan_def scan_loop_spec)
qed

section \<open>Records round-trip, torn tails are dropped\<close>

definition body_ok :: "bytes \<Rightarrow> bool" where
  "body_ok b \<longleftrightarrow> length b < 2 ^ 63 - 4"

lemma length_put_uint32 [simp]: "length (put_uint32 c) = 4"
  by (simp add: put_uint32_def)

lemma put_uvarint_not_Nil [simp]: "put_uvarint x \<noteq> []"
  by (subst put_uvarint.simps) simp

lemma unat_body_length:
  assumes "body_ok b"
  shows "unat (of_nat (length b) :: u64) = length b" and "\<not> length_panics (of_nat (length b))"
proof -
  show "unat (of_nat (length b) :: u64) = length b"
    using assms by (simp add: body_ok_def unat_of_nat take_bit_nat_eq_self)
  then show "\<not> length_panics (of_nat (length b))"
    using assms by (simp add: length_panics_def body_ok_def)
qed

lemma parse_record_put:
  assumes "body_ok b"
  shows "parse_record fin (put_uvarint (of_nat (length b)) @ rest) = parse_body (of_nat (length b)) rest"
  by (simp add: parse_record_def uvarint_put)

lemma parse_record_bytes:
  assumes "body_ok b"
  shows "parse_record fin (record_bytes b @ rest) = PRec b rest"
  using assms unat_body_length [OF assms] need_bytes_small [of "of_nat (length b)"]
  by (simp add: record_bytes_def parse_record_put parse_body_def get_put_uint32)

text \<open>A record header whose record does not fit in what follows it.\<close>

lemma parse_record_short:
  assumes "body_ok b" and "length rest < length b + 4"
  shows "parse_record fin (put_uvarint (of_nat (length b)) @ rest) = PErr RTruncated"
  using need_bytes_small [of "of_nat (length b)"] unat_body_length [OF assms(1)] assms(2)
  by (simp add: parse_record_put [OF assms(1)] parse_body_def)

text \<open>A proper prefix of a record, as a crash in the middle of an append leaves it.\<close>

lemma parse_record_torn:
  assumes ok: "body_ok b" and p: "strict_prefix p (record_bytes b)"
  shows "parse_record None p \<in> {PErr REOF, PErr RTruncated}"
proof -
  let ?h = "put_uvarint (of_nat (length b))"
  obtain q where q: "record_bytes b = p @ q" "q \<noteq> []"
    using p by (auto elim: strict_prefixE')
  show ?thesis
  proof (cases "length p < length ?h")
    case True
    then obtain h2 where h: "?h = p @ h2" "h2 \<noteq> []"
      using q by (auto simp: record_bytes_def append_eq_append_conv2)
    obtain l n where u: "uvarint p = (l, n)" by fastforce
    have "n = 0"
    proof (rule ccontr)
      assume "n \<noteq> 0"
      from uvarint_stable [OF u this, of h2] uvarint_put [of "of_nat (length b)" "[]"] h
      have "n = int (length ?h)" by simp
      with uvarint_length [OF u] True show False by simp
    qed
    with u show ?thesis by (simp add: parse_record_def fin_error_def)
  next
    case False
    then obtain p2 where p2: "p = ?h @ p2"
      using q by (auto simp: record_bytes_def append_eq_append_conv2)
    have "length p2 < length b + 4"
      using arg_cong [OF q(1), of length] q(2) by (simp add: record_bytes_def p2)
    then show ?thesis unfolding p2 by (simp add: parse_record_short [OF ok])
  qed
qed

text \<open>Scanning whole records runs the callback on their bodies in order.\<close>

fun run_callback :: "'s callback \<Rightarrow> 's \<Rightarrow> bytes list \<Rightarrow> ('s \<Rightarrow> ('s \<times> scan_error option) outcome) \<Rightarrow>
    ('s \<times> scan_error option) outcome" where
  "run_callback fn s [] k = k s"
| "run_callback fn s (b # bs) k =
     (case fn s b of
        (s', Inl e) \<Rightarrow> Done (s', Some (SCallback e))
      | (s', Inr cont) \<Rightarrow> if cont then run_callback fn s' bs k else Done (s', None))"

lemma scan_bytes_records:
  "list_all body_ok bs \<Longrightarrow>
   scan_bytes fn s fin (concat (map record_bytes bs) @ tail) =
     run_callback fn s bs (\<lambda>s'. scan_bytes fn s' fin tail)"
proof (induction bs arbitrary: s)
  case Nil
  then show ?case by simp
next
  case (Cons b bs)
  then show ?case
    by (subst scan_bytes.simps) (auto simp: parse_record_bytes split: prod.splits sum.splits)
qed

definition silent :: "bytes \<Rightarrow> bool" where
  "silent t \<longleftrightarrow> parse_record None t \<in> {PErr REOF, PErr RTruncated}"

lemma scan_bytes_silent: "silent p \<Longrightarrow> scan_bytes fn s None p = Done (s, None)"
  by (subst scan_bytes.simps) (auto simp: silent_def)

text \<open>The record codec has the framing contract.\<close>

definition dec_record :: "bytes \<Rightarrow> rec_error option + bytes \<times> bytes" where
  "dec_record bs =
     (case parse_record None bs of
        PRec b rest \<Rightarrow> Inr (b, rest) | PErr e \<Rightarrow> Inl (Some e) | PPanic \<Rightarrow> Inl None)"

interpretation rec: framing record_bytes dec_record body_ok
  by unfold_locales (simp add: dec_record_def parse_record_bytes)

section \<open>Properties\<close>

text \<open>C19 scan_is_reference. \<open>Scan\<close> always returns, and for every way the reader's data
  may be cut into reads it gives what the reference parser gives on the whole content.\<close>

theorem scan_is_reference:
  "scan fn s src = Some (scan_bytes fn s (st_fin src) (concat (st_chunks src)))"
  by (rule scan_eq_scan_bytes)

lemma run_callback_collect:
  "run_callback (\<lambda>out body. (out @ [body], Inr True)) out bs k = k (out @ bs)"
  by (induction bs arbitrary: out) simp_all

text \<open>C25 scan_recovers_records. What \<open>AppendRecord\<close> wrote, followed by a record that was
  not written to its end, is scanned back as exactly the bodies of the complete records,
  without error.\<close>

theorem scan_recovers_records:
  assumes "list_all body_ok bs" and "body_ok b" and "strict_prefix t (record_bytes b)"
    and "concat (st_chunks src) = concat (map record_bytes bs) @ t" and "st_fin src = None"
  shows "scan (\<lambda>out body. (out @ [body], Inr True)) [] src = Some (Done (bs, None))"
proof -
  have "silent t" unfolding silent_def using parse_record_torn [OF assms(2,3)] .
  then show ?thesis
    using assms(4,5) by (simp add: scan_eq_scan_bytes scan_bytes_records [OF assms(1)] run_callback_collect scan_bytes_silent)
qed

theorem scan_recovers_records_witness:
  "scan (\<lambda>out body. (out @ [body], Inr True)) []
     \<lparr>st_chunks = [record_bytes ''ab'', record_bytes [] @ take 3 (record_bytes ''xyz'')], st_fin = None\<rparr>
   = Some (Done ([''ab'', []], None))"
proof -
  have "strict_prefix (take 3 (record_bytes ''xyz'')) (record_bytes ''xyz'')"
  proof -
    have "length (take 3 (record_bytes ''xyz'')) < length (record_bytes ''xyz'')"
      by (simp add: record_bytes_def)
    then show ?thesis by (auto simp: strict_prefix_def take_is_prefix)
  qed
  then show ?thesis
    by (intro scan_recovers_records [of "[''ab'', []]" "''xyz''"]) (simp_all add: body_ok_def)
qed

text \<open>A record whose checksum does not match its body ends the
  scan with an error after the records before it have been delivered, whatever follows.\<close>

theorem scan_rejects_corruption:
  assumes "list_all body_ok bs" and "body_ok body" and "crc \<noteq> crc32_ieee body"
    and "concat (st_chunks src) = concat (map record_bytes bs)
      @ put_uvarint (of_nat (length body)) @ body @ put_uint32 crc @ rest"
  shows "scan (\<lambda>out b. (out @ [b], Inr True)) [] src = Some (Done (bs, Some (SRecord RCrc)))"
proof -
  have "parse_record fin (put_uvarint (of_nat (length body)) @ body @ put_uint32 crc @ rest) = PErr RCrc" for fin
    using assms(2,3) unat_body_length [OF assms(2)] need_bytes_small [of "of_nat (length body)"]
    by (simp add: parse_record_put parse_body_def get_put_uint32)
  then have "scan_bytes fn s fin (put_uvarint (of_nat (length body)) @ body @ put_uint32 crc @ rest) =
      Done (s, Some (SRecord RCrc))" for fn s fin
    by (subst scan_bytes.simps) simp
  then show ?thesis
    by (simp add: scan_eq_scan_bytes assms(4) scan_bytes_records [OF assms(1)] run_callback_collect)
qed

theorem scan_rejects_corruption_witness:
  "\<exists>crc. crc \<noteq> crc32_ieee [] \<and>
     scan (\<lambda>out b. (out @ [b], Inr True)) []
       \<lparr>st_chunks = [record_bytes ''k'', put_uvarint 0 @ put_uint32 crc @ ''zz''], st_fin = None\<rparr>
     = Some (Done ([''k''], Some (SRecord RCrc)))"
proof (intro exI conjI)
  show "crc32_ieee [] + 1 \<noteq> crc32_ieee []" by simp
  then show "scan (\<lambda>out b. (out @ [b], Inr True)) []
       \<lparr>st_chunks = [record_bytes ''k'', put_uvarint 0 @ put_uint32 (crc32_ieee [] + 1) @ ''zz''], st_fin = None\<rparr>
     = Some (Done ([''k''], Some (SRecord RCrc)))"
    by (intro scan_rejects_corruption [of "[''k'']" "[]" _ _ "''zz''"]) (simp_all add: body_ok_def)
qed

text \<open>A length of \<open>2^63 - 4\<close> or more in a record header
  panics when at least three bytes follow, although the comment on \<open>Scan\<close> promises an
  error for a malformed length.\<close>

theorem scan_panics_on_huge_length:
  assumes "2 ^ 63 - 4 \<le> unat l" and "concat (st_chunks src) = put_uvarint l @ rest" and "3 \<le> length rest"
  shows "scan fn s src = Some (Panic ''makeslice: len out of range'')"
proof -
  have u: "int (unat l) = uint l" "uint l < 2 ^ 64" using uint_lt2p [of l] by simp_all
  have big: "2 ^ 63 - 4 \<le> uint l"
  proof -
    have "int (2 ^ 63 - 4) \<le> int (unat l)" using assms(1) by (simp only: of_nat_le_iff)
    then show ?thesis by simp
  qed
  have "need_bytes l \<le> 3"
  proof (cases "uint l < 2 ^ 63")
    case True
    then have "wrap64 (uint l) = uint l" using uint_ge_0 [of l]
      by (intro wrap64_id) (unfold min_int64_def max_int64_def, linarith+)
    then show ?thesis using True big wrap64_over [of "uint l + 4"] by (simp add: need_bytes_def)
  next
    case False
    then have "wrap64 (uint l) = uint l - 2 ^ 64" using u(2) by (intro wrap64_over) simp_all
    moreover have "wrap64 (uint l - 2 ^ 64 + 4) = uint l - 2 ^ 64 + 4" using False u(2)
      by (intro wrap64_id) (simp_all add: min_int64_def max_int64_def)
    ultimately show ?thesis using u(2) by (simp add: need_bytes_def)
  qed
  then have "parse_record fin (put_uvarint l @ rest) = PPanic" for fin
    using assms(1,3) by (simp add: parse_record_def uvarint_put parse_body_def length_panics_def)
  then show ?thesis
    by (simp add: scan_eq_scan_bytes assms(2)) (subst scan_bytes.simps, simp)
qed

theorem scan_panics_on_huge_length_witness:
  "scan (\<lambda>out b. (out @ [b], Inr True)) [] \<lparr>st_chunks = [put_uvarint 0xFFFFFFFFFFFFFFFF, ''abc''], st_fin = None\<rparr>
   = Some (Panic ''makeslice: len out of range'')"
  by (intro scan_panics_on_huge_length [of "0xFFFFFFFFFFFFFFFF" _ "''abc''"]) simp_all

end
