(* ===== verification/Message.thy ===== *)
theory Message
  imports Recordio
begin

text \<open>
  The messages of \<open>proto/meridian.proto\<close> as records, with the field names of the
  generated Go structs, and the interface to the protobuf library: \<open>proto.Marshal\<close> and
  \<open>proto.Unmarshal\<close> are not part of the repository, so they are an argument (\<open>codec\<close>)
  of every definition that stores or sends a message.
\<close>

record walentry =
  seq_id :: u64
  args :: "bytes list"
  timestamp_ms :: int

record subscribe_request =
  follower_region :: string
  sr_follower_id :: string
  from_seq :: u64

record sync_batch =
  entries :: "walentry list"
  up_to_seq :: u64

record forward_request =
  fr_args :: "bytes list"

record forward_reply =
  fr_value :: string
  is_nil :: bool

record ack_request =
  ar_follower_id :: string
  applied_seq :: u64

record codec =
  pb_marshal :: "walentry \<Rightarrow> string + bytes"
  pb_unmarshal :: "bytes \<Rightarrow> string + walentry"

text \<open>
  What the repository relies on: unmarshalling what marshalling produced gives the entry
  back, and a marshalled entry stays below the size limit of the library.
\<close>

definition codec_ok :: "codec \<Rightarrow> bool" where
  "codec_ok cd \<longleftrightarrow>
     (\<forall>e b. pb_marshal cd e = Inr b \<longrightarrow> pb_unmarshal cd b = Inr e \<and> body_ok b)"

definition entry_ok :: "codec \<Rightarrow> walentry \<Rightarrow> bool" where
  "entry_ok cd e =
     (case pb_marshal cd e of
        Inl _ \<Rightarrow> False
      | Inr b \<Rightarrow> body_ok b \<and> pb_unmarshal cd b = Inr e)"

lemma codec_entry_ok: "codec_ok cd \<Longrightarrow> pb_marshal cd e = Inr b \<Longrightarrow> entry_ok cd e"
  by (simp add: codec_ok_def entry_ok_def)

text \<open>The bytes of the record that stores an entry.\<close>

definition rec_of :: "codec \<Rightarrow> walentry \<Rightarrow> bytes" where
  "rec_of cd e = (case pb_marshal cd e of Inl _ \<Rightarrow> [] | Inr b \<Rightarrow> record_bytes b)"

definition seg_data :: "codec \<Rightarrow> walentry list \<Rightarrow> bytes" where
  "seg_data cd es = concat (map (rec_of cd) es)"

lemma seg_data_simps [simp]:
  "seg_data cd [] = []"
  "seg_data cd (e # es) = rec_of cd e @ seg_data cd es"
  "seg_data cd (es @ fs) = seg_data cd es @ seg_data cd fs"
  by (simp_all add: seg_data_def)

text \<open>A torn tail: what is left of a record that was not written to its end.\<close>

definition torn :: "bytes \<Rightarrow> bool" where
  "torn t \<longleftrightarrow> (\<exists>b. body_ok b \<and> strict_prefix t (record_bytes b))"

lemma torn_Nil [simp]: "torn []"
proof -
  have "strict_prefix [] (record_bytes [])" by (simp add: strict_prefix_def record_bytes_def)
  moreover have "body_ok []" by (simp add: body_ok_def)
  ultimately show ?thesis unfolding torn_def by blast
qed

lemma torn_silent [simp]: "torn t \<Longrightarrow> silent t"
  unfolding torn_def silent_def using parse_record_torn by blast

lemma silent_Nil [simp]: "silent []"
  by (simp add: torn_silent)

lemma rec_of_not_Nil: "entry_ok cd e \<Longrightarrow> rec_of cd e \<noteq> []"
  by (auto simp: entry_ok_def rec_of_def record_bytes_def split: sum.splits)

text \<open>
  \<open>scanRecords\<close>: the callback sees entries. \<open>run_entries\<close> is its effect on a list of
  entries.
\<close>

fun run_entries :: "('s \<Rightarrow> walentry \<Rightarrow> 's \<times> bool) \<Rightarrow> 's \<Rightarrow> walentry list \<Rightarrow> 's" where
  "run_entries cb s [] = s"
| "run_entries cb s (e # es) =
     (case cb s e of (s', cont) \<Rightarrow> if cont then run_entries cb s' es else s')"

definition file_stream :: "bytes \<Rightarrow> stream" where
  "file_stream c = \<lparr>st_chunks = [c], st_fin = None\<rparr>"

definition scan_records ::
  "codec \<Rightarrow> ('s \<Rightarrow> walentry \<Rightarrow> 's \<times> bool) \<Rightarrow> 's \<Rightarrow> bytes \<Rightarrow> ('s \<times> scan_error option) outcome" where
  "scan_records cd cb s c =
     (case scan (\<lambda>s body.
        case pb_unmarshal cd body of
          Inl e \<Rightarrow> (s, Inl e)
        | Inr e \<Rightarrow> (case cb s e of (s', cont) \<Rightarrow> (s', Inr cont))) s (file_stream c)
      of None \<Rightarrow> Panic ''the scan does not end'' | Some r \<Rightarrow> r)"

lemma scan_records_eq:
  "scan_records cd cb s c =
     scan_bytes (\<lambda>s body.
        case pb_unmarshal cd body of
          Inl e \<Rightarrow> (s, Inl e)
        | Inr e \<Rightarrow> (case cb s e of (s', cont) \<Rightarrow> (s', Inr cont))) s None c"
  by (simp add: scan_records_def scan_eq_scan_bytes file_stream_def)

lemma scan_records_step:
  assumes "entry_ok cd e"
  shows "scan_records cd cb s (rec_of cd e @ c) =
    (case cb s e of (s', cont) \<Rightarrow> if cont then scan_records cd cb s' c else Done (s', None))"
proof -
  obtain b where "pb_marshal cd e = Inr b" "body_ok b" "pb_unmarshal cd b = Inr e"
    using assms by (auto simp: entry_ok_def split: sum.splits)
  then show ?thesis
    unfolding scan_records_eq
    by (subst scan_bytes.simps) (simp add: rec_of_def parse_record_bytes split: prod.splits)
qed

lemma scan_records_silent: "silent t \<Longrightarrow> scan_records cd cb s t = Done (s, None)"
  by (simp add: scan_records_eq scan_bytes_silent)

lemma scan_records_seg:
  "list_all (entry_ok cd) es \<Longrightarrow> silent t \<Longrightarrow>
   scan_records cd cb s (seg_data cd es @ t) = Done (run_entries cb s es, None)"
  by (induction es arbitrary: s)
    (simp_all add: scan_records_silent scan_records_step split: prod.splits)

end
