(* ===== verification/Disk.thy ===== *)
theory Disk
  imports Prelude "HOL-Library.AList"
begin

text \<open>
  The part of the operating system the program stores its state in: files named by a
  directory and a name, with the bytes written so far and how many of them have been
  forced to stable storage. A write can run out of space and then leaves a prefix; the
  other calls fail when their kind is in the list of faults. A crash keeps of each file
  some prefix that is at least the synced one. The model has no subdirectories, and file
  names survive a crash.
\<close>

type_synonym fpath = "string \<times> string"

datatype fault = FMkdir | FReadDir | FOpen | FStat | FSync | FClose | FRename | FRead

record fdata =
  fd_bytes :: bytes
  fd_synced :: nat

record disk =
  dk_files :: "(fpath \<times> fdata) list"
  dk_space :: "nat option"
  dk_faults :: "fault list"

datatype io_error = ENotExist | ENoSpace | EInvalid | EFault fault

definition disk_file :: "disk \<Rightarrow> fpath \<Rightarrow> fdata option" where
  "disk_file d p = map_of (dk_files d) p"

definition disk_put :: "disk \<Rightarrow> fpath \<Rightarrow> fdata \<Rightarrow> disk" where
  "disk_put d p f = d\<lparr>dk_files := AList.update p f (dk_files d)\<rparr>"

definition disk_del :: "disk \<Rightarrow> fpath \<Rightarrow> disk" where
  "disk_del d p = d\<lparr>dk_files := AList.delete p (dk_files d)\<rparr>"

definition faulty :: "disk \<Rightarrow> fault \<Rightarrow> bool" where
  "faulty d f \<longleftrightarrow> f \<in> set (dk_faults d)"

lemma disk_file_put [simp]:
  "disk_file (disk_put d p f) q = (if q = p then Some f else disk_file d q)"
  by (simp add: disk_file_def disk_put_def update_conv')

lemma disk_file_del [simp]:
  "disk_file (disk_del d p) q = (if q = p then None else disk_file d q)"
  by (simp add: disk_file_def disk_del_def delete_conv')

lemma disk_put_other [simp]:
  "dk_space (disk_put d p f) = dk_space d" "dk_faults (disk_put d p f) = dk_faults d"
  "faulty (disk_put d p f) x = faulty d x"
  by (simp_all add: disk_put_def faulty_def)

lemma disk_file_update [simp]:
  "disk_file (d\<lparr>dk_space := s\<rparr>) p = disk_file d p"
  "faulty (d\<lparr>dk_space := s\<rparr>) x = faulty d x"
  by (simp_all add: disk_file_def faulty_def)

text \<open>The names in a directory (\<open>os.ReadDir\<close>).\<close>

definition dir_names :: "disk \<Rightarrow> string \<Rightarrow> string list" where
  "dir_names d dir = remdups (map (snd \<circ> fst) (filter (\<lambda>(p, f). fst p = dir) (dk_files d)))"

lemma set_dir_names: "set (dir_names d dir) = {n. disk_file d (dir, n) \<noteq> None}"
  by (force simp: dir_names_def disk_file_def map_of_eq_None_iff image_iff)

lemma distinct_dir_names [simp]: "distinct (dir_names d dir)"
  by (simp add: dir_names_def)

text \<open>
  Opening for writing, with \<open>O_CREATE\<close>: an existing file keeps its content, and is emptied
  under \<open>O_TRUNC\<close>.
\<close>

definition file_create :: "disk \<Rightarrow> fpath \<Rightarrow> bool \<Rightarrow> disk \<times> io_error option" where
  "file_create d p trunc =
     (if faulty d FOpen then (d, Some (EFault FOpen))
      else case disk_file d p of
        None \<Rightarrow> (disk_put d p \<lparr>fd_bytes = [], fd_synced = 0\<rparr>, None)
      | Some f \<Rightarrow> (if trunc then disk_put d p \<lparr>fd_bytes = [], fd_synced = 0\<rparr> else d, None))"

definition file_open :: "disk \<Rightarrow> fpath \<Rightarrow> io_error + bytes" where
  "file_open d p =
     (case disk_file d p of
        None \<Rightarrow> Inl ENotExist
      | Some f \<Rightarrow> if faulty d FOpen then Inl (EFault FOpen) else Inr (fd_bytes f))"

text \<open>Writing at the end of an open file.\<close>

definition file_append :: "disk \<Rightarrow> fpath \<Rightarrow> bytes \<Rightarrow> disk" where
  "file_append d p b =
     (case disk_file d p of
        None \<Rightarrow> d
      | Some f \<Rightarrow> disk_put d p (f\<lparr>fd_bytes := fd_bytes f @ b\<rparr>))"

definition file_write :: "disk \<Rightarrow> fpath \<Rightarrow> bytes \<Rightarrow> disk \<times> io_error option" where
  "file_write d p b =
     (case dk_space d of
        None \<Rightarrow> (file_append d p b, None)
      | Some k \<Rightarrow>
          if length b \<le> k then ((file_append d p b)\<lparr>dk_space := Some (k - length b)\<rparr>, None)
          else ((file_append d p (take k b))\<lparr>dk_space := Some 0\<rparr>, Some ENoSpace))"

definition file_sync :: "disk \<Rightarrow> fpath \<Rightarrow> disk \<times> io_error option" where
  "file_sync d p =
     (if faulty d FSync then (d, Some (EFault FSync))
      else case disk_file d p of
        None \<Rightarrow> (d, None)
      | Some f \<Rightarrow> (disk_put d p (f\<lparr>fd_synced := length (fd_bytes f)\<rparr>), None))"

definition file_close :: "disk \<Rightarrow> io_error option" where
  "file_close d = (if faulty d FClose then Some (EFault FClose) else None)"

definition file_rename :: "disk \<Rightarrow> fpath \<Rightarrow> fpath \<Rightarrow> disk \<times> io_error option" where
  "file_rename d p q =
     (if faulty d FRename then (d, Some (EFault FRename))
      else case disk_file d p of
        None \<Rightarrow> (d, Some ENotExist)
      | Some f \<Rightarrow> (disk_put (disk_del d p) q f, None))"

text \<open>What a crash of the machine can leave.\<close>

definition crash_file :: "fdata \<Rightarrow> fdata \<Rightarrow> bool" where
  "crash_file f g \<longleftrightarrow>
     prefix (fd_bytes g) (fd_bytes f) \<and> min (fd_synced f) (length (fd_bytes f)) \<le> length (fd_bytes g)"

definition crashes_to :: "disk \<Rightarrow> disk \<Rightarrow> bool" where
  "crashes_to d d' \<longleftrightarrow>
     (\<forall>p. rel_option crash_file (disk_file d p) (disk_file d' p)) \<and> dk_faults d' = dk_faults d"

section \<open>Frame and content lemmas\<close>

lemma file_append_file:
  "disk_file (file_append d p b) q =
     (if q = p then map_option (\<lambda>f. f\<lparr>fd_bytes := fd_bytes f @ b\<rparr>) (disk_file d p) else disk_file d q)"
  by (auto simp: file_append_def split: option.splits)

lemma file_append_faulty [simp]: "faulty (file_append d p b) x = faulty d x"
  by (simp add: file_append_def split: option.splits)

lemma file_append_space [simp]: "dk_space (file_append d p b) = dk_space d"
  by (simp add: file_append_def split: option.splits)

lemma file_write_other: "file_write d p b = (d', r) \<Longrightarrow> q \<noteq> p \<Longrightarrow> disk_file d' q = disk_file d q"
  by (auto simp: file_write_def file_append_file split: option.splits if_splits)

lemma file_write_faulty: "file_write d p b = (d', r) \<Longrightarrow> faulty d' x = faulty d x"
  by (auto simp: file_write_def split: option.splits if_splits)

lemma file_write_ok:
  "file_write d p b = (d', None) \<Longrightarrow>
     disk_file d' p = map_option (\<lambda>f. f\<lparr>fd_bytes := fd_bytes f @ b\<rparr>) (disk_file d p)"
  by (auto simp: file_write_def file_append_file split: option.splits if_splits)

lemma file_write_prefix:
  "file_write d p b = (d', r) \<Longrightarrow>
     \<exists>b'. prefix b' b \<and> (r = None \<longrightarrow> b' = b) \<and>
       disk_file d' p = map_option (\<lambda>f. f\<lparr>fd_bytes := fd_bytes f @ b'\<rparr>) (disk_file d p)"
  by (auto simp: file_write_def file_append_file split: option.splits if_splits)
    (metis take_is_prefix)

lemma file_sync_other:
  "file_sync d p = (d', r) \<Longrightarrow> q \<noteq> p \<Longrightarrow> disk_file d' q = disk_file d q"
  by (auto simp: file_sync_def split: option.splits if_splits)

lemma file_sync_ok:
  "file_sync d p = (d', None) \<Longrightarrow>
     disk_file d' p = map_option (\<lambda>f. f\<lparr>fd_synced := length (fd_bytes f)\<rparr>) (disk_file d p)"
  by (auto simp: file_sync_def split: option.splits if_splits)

lemma file_sync_bytes:
  "file_sync d p = (d', r) \<Longrightarrow> map_option fd_bytes (disk_file d' q) = map_option fd_bytes (disk_file d q)"
  by (auto simp: file_sync_def split: option.splits if_splits)

lemma file_sync_faulty: "file_sync d p = (d', r) \<Longrightarrow> faulty d' x = faulty d x"
  by (auto simp: file_sync_def split: option.splits if_splits)

lemma file_create_file:
  "file_create d p False = (d', None) \<Longrightarrow>
     disk_file d' q = (if q = p \<and> disk_file d p = None
       then Some \<lparr>fd_bytes = [], fd_synced = 0\<rparr> else disk_file d q)"
  by (auto simp: file_create_def split: option.splits if_splits)

lemma crashes_toD:
  "crashes_to d d' \<Longrightarrow> disk_file d p = Some f \<Longrightarrow>
     \<exists>g. disk_file d' p = Some g \<and> crash_file f g"
  unfolding crashes_to_def by (metis option_rel_Some1)

lemma crashes_to_refl: "crashes_to d d"
  by (simp add: crashes_to_def crash_file_def option.rel_refl)

section \<open>The bytes a reader sees\<close>

definition disk_bytes :: "disk \<Rightarrow> fpath \<Rightarrow> bytes option" where
  "disk_bytes d p = map_option fd_bytes (disk_file d p)"

lemma disk_bytes_write:
  "file_write d p b = (d', None) \<Longrightarrow>
     disk_bytes d' = (disk_bytes d)(p := map_option (\<lambda>c. c @ b) (disk_bytes d p))"
  by (rule ext) (auto simp: disk_bytes_def file_write_ok file_write_other option.map_comp comp_def)

lemma disk_bytes_sync: "file_sync d p = (d', r) \<Longrightarrow> disk_bytes d' = disk_bytes d"
  by (rule ext) (simp add: disk_bytes_def file_sync_bytes)

lemma disk_bytes_create:
  "file_create d p False = (d', None) \<Longrightarrow>
     disk_bytes d' = (if disk_bytes d p = None then (disk_bytes d)(p := Some []) else disk_bytes d)"
  by (rule ext) (auto simp: disk_bytes_def file_create_file)

lemma file_open_bytes: "\<not> faulty d FOpen \<Longrightarrow> disk_bytes d p = Some c \<Longrightarrow> file_open d p = Inr c"
  by (auto simp: disk_bytes_def file_open_def)

end
