(* ===== verification/Wal.thy ===== *)
theory Wal
  imports Message Disk Gostrings
begin

text \<open>
  The segmented write-ahead log, \<open>internal/wal/wal.go\<close>. The operations take the disk and
  the \<open>WAL\<close> struct and return both; the mutex makes each of them one step. \<open>active\<close>, a
  pointer to one of the segments, is an index into \<open>segments\<close>. A notification channel of
  capacity one is a flag; the flusher's stop channel is \<open>None\<close> until it is made and then
  says whether it is still open.
\<close>

section \<open>State\<close>

datatype flush_mode = FlushNone | FlushPeriodic | FlushSync

record wal_options =
  op_dir :: string
  op_segment_max :: int
  op_flush :: flush_mode
  op_flush_interval :: int

record segment =
  sg_id :: u64
  sg_end :: u64
  sg_path :: fpath
  sg_file :: bool
  sg_size :: int

record wal =
  wl_dir :: string
  wl_max :: int
  wl_snapshot :: u64
  wl_segs :: "segment list"
  wl_active :: "nat option"
  wl_mode :: flush_mode
  wl_every :: int
  wl_flusher :: "bool option"
  wl_next :: u64
  wl_notify :: "bool list"

datatype wal_error =
    EDirRequired
  | EIO io_error
  | EScan scan_error
  | EMarshal string

definition default_segment_max :: int where
  "default_segment_max = 64 * 2 ^ 20"

definition segmentExt :: string where
  "segmentExt = ''.wal''"

text \<open>\<open>Sprintf("%0*d%s", 20, id, ".wal")\<close>\<close>

definition segment_name :: "u64 \<Rightarrow> string" where
  "segment_name sid =
     (let s = format_uint (unat sid) in replicate (20 - length s) (CHR ''0'') @ s @ segmentExt)"

section \<open>Open\<close>

text \<open>\<open>scanLastSeq\<close>: the seq of the last well-formed record, 0 if there is none.\<close>

definition scan_last_seq :: "codec \<Rightarrow> bytes \<Rightarrow> (u64 \<times> scan_error option) outcome" where
  "scan_last_seq cd c = scan_records cd (\<lambda>last e. (seq_id e, True)) 0 c"

definition segment_ids :: "disk \<Rightarrow> string \<Rightarrow> u64 list" where
  "segment_ids d dir =
     sort (List.map_filter (\<lambda>name.
       if \<not> has_suffix name segmentExt then None
       else case parse_uint (trim_suffix name segmentExt) of
              Inl _ \<Rightarrow> None
            | Inr v \<Rightarrow> Some (of_nat v))
       (dir_names d dir))"

fun load_segs :: "codec \<Rightarrow> disk \<Rightarrow> string \<Rightarrow> u64 list \<Rightarrow> (wal_error + segment list) outcome" where
  "load_segs cd d dir [] = Done (Inr [])"
| "load_segs cd d dir (sid # ids) =
     (let path = (dir, segment_name sid) in
      case file_open d path of
        Inl e \<Rightarrow> Done (Inl (EIO e))
      | Inr c \<Rightarrow>
          if faulty d FStat then Done (Inl (EIO (EFault FStat)))
          else
            bind_outcome
              (if ids \<noteq> [] then scan_last_seq cd c else Done (0, None))
              (\<lambda>(endseq, err).
                 case err of
                   Some x \<Rightarrow> Done (Inl (EScan x))
                 | None \<Rightarrow>
                     bind_outcome (load_segs cd d dir ids) (\<lambda>r.
                       case r of
                         Inl e \<Rightarrow> Done (Inl e)
                       | Inr segs \<Rightarrow> Done (Inr (
                           \<lparr>sg_id = sid, sg_end = endseq, sg_path = path, sg_file = False,
                            sg_size = int (length c)\<rparr> # segs)))))"

text \<open>The last segment is opened for appending and its last record sets the next seq.\<close>

definition open_active :: "codec \<Rightarrow> disk \<Rightarrow> wal \<Rightarrow> (wal_error + wal) outcome" where
  "open_active cd d w =
     (let n = length (wl_segs w) - 1; seg = wl_segs w ! n in
      case file_open d (sg_path seg) of
        Inl e \<Rightarrow> Done (Inl (EIO e))
      | Inr c \<Rightarrow>
          bind_outcome (scan_last_seq cd c) (\<lambda>(last, err).
            case err of
              Some x \<Rightarrow> Done (Inl (EScan x))
            | None \<Rightarrow>
                Done (Inr (w\<lparr>wl_segs := (wl_segs w)[n := seg\<lparr>sg_file := True\<rparr>],
                             wl_active := Some n,
                             wl_next := (if wl_next w < last + 1 then last + 1 else wl_next w)\<rparr>))))"

definition load_segments :: "codec \<Rightarrow> disk \<Rightarrow> wal \<Rightarrow> (wal_error + wal) outcome" where
  "load_segments cd d w =
     (if faulty d FReadDir then Done (Inl (EIO (EFault FReadDir)))
      else
        bind_outcome (load_segs cd d (wl_dir w) (segment_ids d (wl_dir w))) (\<lambda>r.
          case r of
            Inl e \<Rightarrow> Done (Inl e)
          | Inr segs \<Rightarrow>
              bind_outcome
                (if segs \<noteq> [] then open_active cd d (w\<lparr>wl_segs := segs\<rparr>)
                 else Done (Inr (w\<lparr>wl_segs := segs\<rparr>)))
                (\<lambda>r2. case r2 of
                   Inl e \<Rightarrow> Done (Inl e)
                 | Inr w2 \<Rightarrow>
                     Done (Inr (if wl_next w2 = 0 then w2\<lparr>wl_next := 1\<rparr> else w2)))))"

definition wal_open :: "codec \<Rightarrow> disk \<Rightarrow> wal_options \<Rightarrow> (wal_error + wal) outcome" where
  "wal_open cd d opts =
     (if op_dir opts = [] then Done (Inl EDirRequired)
      else if faulty d FMkdir then Done (Inl (EIO (EFault FMkdir)))
      else
        let w0 = \<lparr>wl_dir = op_dir opts,
                  wl_max = (if op_segment_max opts = 0 then default_segment_max else op_segment_max opts),
                  wl_snapshot = 0, wl_segs = [], wl_active = None,
                  wl_mode = op_flush opts,
                  wl_every = (if op_flush_interval opts \<le> 0 then 100 else op_flush_interval opts),
                  wl_flusher = None, wl_next = 0, wl_notify = []\<rparr>
        in bind_outcome (load_segments cd d w0) (\<lambda>r.
             case r of
               Inl e \<Rightarrow> Done (Inl e)
             | Inr w \<Rightarrow> Done (Inr (if wl_mode w = FlushPeriodic then w\<lparr>wl_flusher := Some True\<rparr> else w))))"

section \<open>Append\<close>

definition seg_sync :: "disk \<Rightarrow> segment \<Rightarrow> disk \<times> io_error option" where
  "seg_sync d seg = (if sg_file seg then file_sync d (sg_path seg) else (d, Some EInvalid))"

definition seg_write :: "disk \<times> segment \<Rightarrow> bytes \<Rightarrow> (disk \<times> segment) \<times> io_error option" where
  "seg_write ds b =
     (case ds of (d, seg) \<Rightarrow>
        if sg_file seg then (case file_write d (sg_path seg) b of (d', r) \<Rightarrow> ((d', seg), r))
        else ((d, seg), Some EInvalid))"

definition seal_active :: "disk \<Rightarrow> wal \<Rightarrow> disk \<times> wal \<times> io_error option" where
  "seal_active d w =
     (case wl_active w of
        None \<Rightarrow> (d, w, None)
      | Some i \<Rightarrow>
          let seg = (wl_segs w ! i)\<lparr>sg_end := wl_next w - 1\<rparr>;
              w1 = w\<lparr>wl_segs := (wl_segs w)[i := seg]\<rparr>
          in case seg_sync d seg of
               (d1, Some e) \<Rightarrow> (d1, w1, Some e)
             | (d1, None) \<Rightarrow>
                 (case file_close d1 of
                    Some e \<Rightarrow> (d1, w1, Some e)
                  | None \<Rightarrow> (d1, w\<lparr>wl_segs := (wl_segs w)[i := seg\<lparr>sg_file := False\<rparr>]\<rparr>, None)))"

definition roll_locked :: "disk \<Rightarrow> wal \<Rightarrow> disk \<times> wal \<times> io_error option" where
  "roll_locked d w =
     (case seal_active d w of
        (d1, w1, Some e) \<Rightarrow> (d1, w1, Some e)
      | (d1, w1, None) \<Rightarrow>
          let sid = wl_next w1; path = (wl_dir w1, segment_name sid) in
          case file_create d1 path False of
            (d2, Some e) \<Rightarrow> (d2, w1, Some e)
          | (d2, None) \<Rightarrow>
              (d2, w1\<lparr>wl_segs := wl_segs w1 @
                        [\<lparr>sg_id = sid, sg_end = 0, sg_path = path, sg_file = True, sg_size = 0\<rparr>],
                      wl_active := Some (length (wl_segs w1))\<rparr>, None))"

definition notify_all :: "wal \<Rightarrow> wal" where
  "notify_all w = w\<lparr>wl_notify := map (\<lambda>_. True) (wl_notify w)\<rparr>"

definition write_record :: "codec \<Rightarrow> disk \<Rightarrow> segment \<Rightarrow> walentry \<Rightarrow> disk \<times> wal_error option" where
  "write_record cd d seg e =
     (case pb_marshal cd e of
        Inl m \<Rightarrow> (d, Some (EMarshal m))
      | Inr body \<Rightarrow>
          (case append_record seg_write (d, seg) body of
             ((d', _), r) \<Rightarrow> (d', map_option EIO r)))"

definition stat_size :: "disk \<Rightarrow> segment \<Rightarrow> int" where
  "stat_size d seg =
     (if \<not> sg_file seg \<or> faulty d FStat then sg_size seg
      else case disk_file d (sg_path seg) of None \<Rightarrow> sg_size seg | Some f \<Rightarrow> int (length (fd_bytes f)))"

text \<open>
  After the record is written: update the size, roll if the segment is full, sync in sync
  mode, wake the subscribers.
\<close>

definition finish_append :: "disk \<Rightarrow> wal \<Rightarrow> nat \<Rightarrow> disk \<times> wal \<times> wal_error option" where
  "finish_append d w i =
     (let seg = (wl_segs w ! i)\<lparr>sg_size := stat_size d (wl_segs w ! i)\<rparr>;
          w1 = w\<lparr>wl_segs := (wl_segs w)[i := seg]\<rparr>
      in case (if wl_max w1 \<le> sg_size seg then roll_locked d w1 else (d, w1, None)) of
           (d2, w2, Some e) \<Rightarrow> (d2, w2, Some (EIO e))
         | (d2, w2, None) \<Rightarrow>
             (case (if wl_mode w2 = FlushSync then seg_sync d2 (wl_segs w2 ! the (wl_active w2)) else (d2, None)) of
                (d3, Some e) \<Rightarrow> (d3, w2, Some (EIO e))
              | (d3, None) \<Rightarrow> (d3, notify_all w2, None)))"

definition append_open :: "codec \<Rightarrow> disk \<Rightarrow> wal \<Rightarrow> nat \<Rightarrow> walentry \<Rightarrow>
    (disk \<times> wal) \<times> walentry \<times> (wal_error + u64)" where
  "append_open cd d w i e =
     (let e' = e\<lparr>seq_id := wl_next w\<rparr>; w1 = w\<lparr>wl_next := wl_next w + 1\<rparr>
      in case write_record cd d (wl_segs w1 ! i) e' of
           (d1, Some x) \<Rightarrow> ((d1, w1), e', Inl x)
         | (d1, None) \<Rightarrow>
             (case finish_append d1 w1 i of
                (d2, w2, Some x) \<Rightarrow> ((d2, w2), e', Inl x)
              | (d2, w2, None) \<Rightarrow> ((d2, w2), e', Inr (seq_id e'))))"

definition wal_append :: "codec \<Rightarrow> disk \<times> wal \<Rightarrow> walentry \<Rightarrow>
    (disk \<times> wal) \<times> walentry \<times> (wal_error + u64)" where
  "wal_append cd dw e =
     (case dw of (d, w) \<Rightarrow>
        case wl_active w of
          Some i \<Rightarrow> append_open cd d w i e
        | None \<Rightarrow>
            (case roll_locked d w of
               (d1, w1, Some x) \<Rightarrow> ((d1, w1), e, Inl (EIO x))
             | (d1, w1, None) \<Rightarrow> append_open cd d1 w1 (the (wl_active w1)) e))"

section \<open>ReadFrom and the remaining operations\<close>

definition read_callback :: "u64 \<Rightarrow> int \<Rightarrow> walentry list \<Rightarrow> walentry \<Rightarrow> walentry list \<times> bool" where
  "read_callback from mx out e =
     (if seq_id e < from then (out, True)
      else let out' = out @ [e] in (out', \<not> mx \<le> int (length out')))"

fun read_segs :: "codec \<Rightarrow> disk \<Rightarrow> u64 \<Rightarrow> int \<Rightarrow> walentry list \<Rightarrow> segment list \<Rightarrow>
    (wal_error + walentry list) outcome" where
  "read_segs cd d from mx out [] = Done (Inr out)"
| "read_segs cd d from mx out (seg # segs) =
     (if sg_end seg \<noteq> 0 \<and> sg_end seg < from then read_segs cd d from mx out segs
      else case file_open d (sg_path seg) of
        Inl ENotExist \<Rightarrow> read_segs cd d from mx out segs
      | Inl e \<Rightarrow> Done (Inl (EIO e))
      | Inr c \<Rightarrow>
          bind_outcome (scan_records cd (read_callback from mx) out c) (\<lambda>(out', err).
            if mx \<le> int (length out') then Done (Inr out')
            else read_segs cd d from mx out' segs))"

definition read_from :: "codec \<Rightarrow> disk \<times> wal \<Rightarrow> u64 \<Rightarrow> int \<Rightarrow> (wal_error + walentry list) outcome" where
  "read_from cd dw from mx =
     (if mx < 0 then Panic ''makeslice: cap out of range''
      else read_segs cd (fst dw) from mx [] (wl_segs (snd dw)))"

definition next_seq :: "disk \<times> wal \<Rightarrow> u64" where
  "next_seq dw = wl_next (snd dw)"

definition min_seq :: "disk \<times> wal \<Rightarrow> u64" where
  "min_seq dw = (case wl_segs (snd dw) of [] \<Rightarrow> 0 | seg # _ \<Rightarrow> sg_id seg)"

definition segment_count :: "wal \<Rightarrow> nat" where
  "segment_count w = length (wl_segs w)"

definition wal_notify :: "wal \<Rightarrow> wal \<times> nat" where
  "wal_notify w = (w\<lparr>wl_notify := wl_notify w @ [False]\<rparr>, length (wl_notify w))"

definition start_snapshot :: "wal \<Rightarrow> wal \<times> u64" where
  "start_snapshot w = (w\<lparr>wl_snapshot := wl_next w\<rparr>, wl_next w)"

definition abort_snapshot :: "wal \<Rightarrow> wal" where
  "abort_snapshot w = w\<lparr>wl_snapshot := 0\<rparr>"

text \<open>One tick of the periodic flusher; its error is dropped.\<close>

definition flush_tick :: "disk \<Rightarrow> wal \<Rightarrow> disk" where
  "flush_tick d w =
     (case wl_active w of
        None \<Rightarrow> d
      | Some i \<Rightarrow> if sg_file (wl_segs w ! i) then fst (seg_sync d (wl_segs w ! i)) else d)"

text \<open>Closing the stop channel a second time panics.\<close>

definition wal_close :: "disk \<Rightarrow> wal \<Rightarrow> (disk \<times> wal) outcome" where
  "wal_close d w =
     (if wl_flusher w = Some False then Panic ''close of closed channel''
      else
        let w0 = w\<lparr>wl_flusher := map_option (\<lambda>_. False) (wl_flusher w)\<rparr> in
        case wl_active w of
          None \<Rightarrow> Done (d, w0)
        | Some i \<Rightarrow>
            if sg_file (wl_segs w ! i)
            then Done (fst (seg_sync d (wl_segs w ! i)),
                  w0\<lparr>wl_segs := (wl_segs w)[i := (wl_segs w ! i)\<lparr>sg_file := False\<rparr>]\<rparr>)
            else Done (d, w0))"

end
