(* ===== verification/Wal_Log.thy ===== *)
theory Wal_Log
  imports Wal
begin

text \<open>
  What the write-ahead log promises: the segments and their files represent one list of
  entries with consecutive sequence numbers (\<open>wal_rep\<close>), \<open>ReadFrom\<close> serves exactly the
  entries of that list from the requested sequence number on, and a successful \<open>Append\<close>
  adds its entry at the end, across segment roll-overs.
\<close>

section \<open>Segment names\<close>

lemma parse_digits_zeros: "parse_digits 0 (replicate k (CHR ''0'') @ s) = parse_digits 0 s"
  by (induction k) (simp_all add: is_digit_def digit_val_def byte_val_def max_uint64_def)

lemma segment_name_suffix [simp]: "has_suffix (segment_name i) segmentExt"
  unfolding segment_name_def Let_def by (metis append.assoc has_suffix_append)

lemma parse_segment_name:
  "parse_uint (trim_suffix (segment_name i) segmentExt) = Inr (unat i)"
proof -
  have "unat i \<le> max_uint64" using unat_u64_less [of i] by (simp add: max_uint64_def)
  moreover have "trim_suffix (segment_name i) segmentExt =
      replicate (20 - length (format_uint (unat i))) (CHR ''0'') @ format_uint (unat i)"
    unfolding segment_name_def Let_def by (metis append.assoc trim_suffix_append)
  ultimately show ?thesis
    by (simp add: parse_uint_def parse_digits_zeros parse_digits_format)
qed

lemma segment_name_inj [simp]: "segment_name i = segment_name j \<longleftrightarrow> i = j"
  by (metis parse_segment_name sum.inject(2) word_unat_eq_iff)

section \<open>The log a WAL represents\<close>

definition seqs :: "walentry list \<Rightarrow> nat list" where
  "seqs es = map (\<lambda>e. unat (seq_id e)) es"

lemma seqs_simps [simp]:
  "seqs [] = []" "seqs (e # es) = unat (seq_id e) # seqs es" "seqs (es @ fs) = seqs es @ seqs fs"
  "length (seqs es) = length es"
  by (simp_all add: seqs_def)

type_synonym fcontent = "fpath \<Rightarrow> bytes option"

definition seg_ok :: "codec \<Rightarrow> string \<Rightarrow> nat \<Rightarrow> segment \<Rightarrow> walentry list \<Rightarrow> bool" where
  "seg_ok cd dir lo s g \<longleftrightarrow>
     unat (sg_id s) = lo \<and> sg_path s = (dir, segment_name (sg_id s))
     \<and> seqs g = [lo..<lo + length g] \<and> list_all (entry_ok cd) g"

definition sealed_ok :: "codec \<Rightarrow> fcontent \<Rightarrow> string \<Rightarrow> nat \<Rightarrow> segment \<Rightarrow> walentry list \<Rightarrow> bool" where
  "sealed_ok cd db dir lo s g \<longleftrightarrow>
     seg_ok cd dir lo s g \<and> g \<noteq> [] \<and> unat (sg_end s) = lo + length g - 1
     \<and> db (sg_path s) = Some (seg_data cd g)"

definition active_ok :: "codec \<Rightarrow> fcontent \<Rightarrow> string \<Rightarrow> nat \<Rightarrow> segment \<Rightarrow> walentry list \<Rightarrow> bytes \<Rightarrow> bool" where
  "active_ok cd db dir lo s g t \<longleftrightarrow>
     seg_ok cd dir lo s g \<and> sg_end s = 0 \<and> db (sg_path s) = Some (seg_data cd g @ t)"

fun sealed_rep :: "codec \<Rightarrow> fcontent \<Rightarrow> string \<Rightarrow> nat \<Rightarrow> segment list \<Rightarrow> walentry list list \<Rightarrow> bool" where
  "sealed_rep cd db dir lo [] [] = True"
| "sealed_rep cd db dir lo (s # ss) (g # gs) =
     (sealed_ok cd db dir lo s g \<and> sealed_rep cd db dir (lo + length g) ss gs)"
| "sealed_rep cd db dir lo _ _ = False"

definition dir_ok :: "fcontent \<Rightarrow> string \<Rightarrow> segment list \<Rightarrow> bool" where
  "dir_ok db dir segs \<longleftrightarrow>
     (\<forall>name. db (dir, name) \<noteq> None \<longrightarrow> has_suffix name segmentExt \<longrightarrow>
        name \<in> segment_name ` sg_id ` set segs)"

definition segs_rep :: "codec \<Rightarrow> fcontent \<Rightarrow> wal \<Rightarrow> nat \<Rightarrow> walentry list list \<Rightarrow> walentry list \<Rightarrow> bytes \<Rightarrow> bool" where
  "segs_rep cd db w lo gs g t \<longleftrightarrow>
     (\<exists>ss a. wl_segs w = ss @ [a] \<and> wl_active w = Some (length ss) \<and> 0 < lo
        \<and> sealed_rep cd db (wl_dir w) lo ss gs
        \<and> active_ok cd db (wl_dir w) (lo + length (concat gs)) a g t
        \<and> unat (wl_next w) = lo + length (concat gs) + length g)"

definition wal_rep :: "codec \<Rightarrow> disk \<times> wal \<Rightarrow> walentry list \<Rightarrow> bytes \<Rightarrow> bool" where
  "wal_rep cd dw es t \<longleftrightarrow>
     (case dw of (d, w) \<Rightarrow>
        dir_ok (disk_bytes d) (wl_dir w) (wl_segs w)
        \<and> (wl_segs w = [] \<and> wl_active w = None \<and> wl_next w \<noteq> 0 \<and> es = [] \<and> t = []
           \<or> (\<exists>lo gs g. segs_rep cd (disk_bytes d) w lo gs g t \<and> es = concat gs @ g)))"

lemma sealed_rep_length: "sealed_rep cd db dir lo ss gs \<Longrightarrow> length ss = length gs"
  by (induction cd db dir lo ss gs rule: sealed_rep.induct) auto

lemma sealed_rep_snoc:
  "sealed_rep cd db dir lo ss gs \<Longrightarrow>
     sealed_rep cd db dir lo (ss @ [s]) (gs @ [g]) = sealed_ok cd db dir (lo + length (concat gs)) s g"
  by (induction cd db dir lo ss gs rule: sealed_rep.induct) (auto simp: add.assoc)

lemma sealed_rep_ids:
  "sealed_rep cd db dir lo ss gs \<Longrightarrow> s \<in> set ss \<Longrightarrow>
     lo \<le> unat (sg_id s) \<and> unat (sg_id s) < lo + length (concat gs)
     \<and> sg_path s = (dir, segment_name (sg_id s))"
proof (induction cd db dir lo ss gs rule: sealed_rep.induct)
  case (2 cd db dir lo s' ss g gs)
  then show ?case
    by (auto simp: sealed_ok_def seg_ok_def neq_Nil_conv)
qed auto

lemma sealed_rep_cong:
  "sealed_rep cd db dir lo ss gs \<Longrightarrow> (\<And>s. s \<in> set ss \<Longrightarrow> db' (sg_path s) = db (sg_path s)) \<Longrightarrow>
     sealed_rep cd db' dir lo ss gs"
  by (induction cd db dir lo ss gs rule: sealed_rep.induct) (auto simp: sealed_ok_def)

text \<open>Sequence numbers of the log are consecutive.\<close>

lemma sealed_rep_seqs:
  "sealed_rep cd db dir lo ss gs \<Longrightarrow>
     seqs (concat gs) = [lo..<lo + length (concat gs)]
     \<and> list_all (entry_ok cd) (concat gs)"
proof (induction cd db dir lo ss gs rule: sealed_rep.induct)
  case (2 cd db dir lo s ss g gs)
  then show ?case
    using upt_add_eq_append [of lo "lo + length g" "length (concat gs)"]
    by (simp add: sealed_ok_def seg_ok_def add.assoc)
qed auto

lemma segs_rep_seqs:
  assumes "segs_rep cd db w lo gs g t"
  shows "seqs (concat gs @ g) = [lo..<unat (wl_next w)]"
    and "list_all (entry_ok cd) (concat gs @ g)"
  using assms sealed_rep_seqs upt_add_eq_append [of lo "lo + length (concat gs)" "length g"]
  by (fastforce simp: segs_rep_def active_ok_def seg_ok_def)+


section \<open>ReadFrom serves the log\<close>

definition wanted :: "u64 \<Rightarrow> walentry list \<Rightarrow> walentry list" where
  "wanted fr es = filter (\<lambda>e. fr \<le> seq_id e) es"

lemma wanted_simps [simp]:
  "wanted fr [] = []"
  "wanted fr (e # es) = (if fr \<le> seq_id e then e # wanted fr es else wanted fr es)"
  "wanted fr (es @ fs) = wanted fr es @ wanted fr fs"
  by (simp_all add: wanted_def)

lemma run_read_callback:
  "length out < n \<Longrightarrow>
     run_entries (read_callback fr (int n)) out es = take n (out @ wanted fr es)"
  by (induction es arbitrary: out) (auto simp: read_callback_def Let_def not_less not_le take_Cons')

lemma wanted_below:
  assumes "seqs g = [lo..<lo + length g]" and "lo + length g \<le> unat fr"
  shows "wanted fr g = []"
proof -
  have "unat (seq_id e) < unat fr" if "e \<in> set g" for e
  proof -
    have "unat (seq_id e) \<in> set (seqs g)" using that by (simp add: seqs_def)
    then show ?thesis using assms by simp
  qed
  then show ?thesis by (auto simp: wanted_def filter_empty_conv word_le_nat_alt not_le)
qed

lemma read_segs_skip_or_scan:
  assumes "list_all (entry_ok cd) g" and "silent t"
    and "disk_bytes d (sg_path s) = Some (seg_data cd g @ t)" and "\<not> faulty d FOpen"
    and "sg_end s \<noteq> 0 \<and> sg_end s < fr \<Longrightarrow> wanted fr g = []"
    and "length out < n"
  shows "read_segs cd d fr (int n) out (s # segs) =
    (if n \<le> length (out @ wanted fr g) then Done (Inr (take n (out @ wanted fr g)))
     else read_segs cd d fr (int n) (out @ wanted fr g) segs)"
proof (cases "sg_end s \<noteq> 0 \<and> sg_end s < fr")
  case True
  with assms show ?thesis by simp
next
  case False
  have "scan_records cd (read_callback fr (int n)) out (seg_data cd g @ t) =
      Done (take n (out @ wanted fr g), None)"
    by (simp only: scan_records_seg [OF assms(1,2)] run_read_callback [OF assms(6)])
  with False file_open_bytes [OF assms(4,3)] show ?thesis
    by (auto simp: min_def)
qed

lemma read_segs_sealed:
  assumes "sealed_rep cd (disk_bytes d) dir lo ss gs" and "\<not> faulty d FOpen" and "length out < n"
  shows "read_segs cd d fr (int n) out (ss @ segs) =
    (if n \<le> length (out @ wanted fr (concat gs)) then Done (Inr (take n (out @ wanted fr (concat gs))))
     else read_segs cd d fr (int n) (out @ wanted fr (concat gs)) segs)"
  using assms
proof (induction cd "disk_bytes d" dir lo ss gs arbitrary: out rule: sealed_rep.induct)
  case (1 cd dir lo)
  then show ?case by simp
next
  case (2 cd dir lo s ss g gs)
  then have g: "seg_ok cd dir lo s g" "g \<noteq> []" "unat (sg_end s) = lo + length g - 1"
    "disk_bytes d (sg_path s) = Some (seg_data cd g @ [])" by (auto simp: sealed_ok_def)
  have "wanted fr g = []" if "sg_end s \<noteq> 0 \<and> sg_end s < fr"
    using g that by (intro wanted_below [of _ lo])
      (auto simp: seg_ok_def word_less_nat_alt neq_Nil_conv)
  with g 2 have step: "read_segs cd d fr (int n) out (s # ss @ segs) =
    (if n \<le> length (out @ wanted fr g) then Done (Inr (take n (out @ wanted fr g)))
     else read_segs cd d fr (int n) (out @ wanted fr g) (ss @ segs))"
    by (intro read_segs_skip_or_scan) (auto simp: seg_ok_def)
  show ?case
  proof (cases "n \<le> length (out @ wanted fr g)")
    case True
    with step show ?thesis by simp
  next
    case False
    with step 2(1) [of "out @ wanted fr g"] 2(2-) show ?thesis by simp
  qed
qed auto

lemma read_from_segs:
  assumes rep: "segs_rep cd (disk_bytes d) w lo gs g t" and t: "silent t" and ok: "\<not> faulty d FOpen" and n: "0 < n"
  shows "read_from cd (d, w) fr (int n) = Done (Inr (take n (wanted fr (concat gs @ g))))"
proof -
  obtain ss a where segs: "wl_segs w = ss @ [a]"
    and sealed: "sealed_rep cd (disk_bytes d) (wl_dir w) lo ss gs"
    and act: "active_ok cd (disk_bytes d) (wl_dir w) (lo + length (concat gs)) a g t"
    using rep by (auto simp: segs_rep_def)
  have "read_segs cd d fr (int n) out [a] = Done (Inr (take n (out @ wanted fr g)))"
    if "length out < n" for out
    using act that t ok read_segs_skip_or_scan [of cd g t d a fr out n "[]"]
    by (auto simp: active_ok_def seg_ok_def)
  with read_segs_sealed [OF sealed ok, of "[]" n fr "[a]"] n show ?thesis
    by (auto simp: read_from_def segs)
qed

lemma read_from_rep:
  assumes "wal_rep cd dw es t" and "silent t" and "\<not> faulty (fst dw) FOpen" and "0 < n"
  shows "read_from cd dw fr (int n) = Done (Inr (take n (wanted fr es)))"
  using assms read_from_segs by (cases dw) (auto simp: wal_rep_def read_from_def)

section \<open>Append extends the log\<close>

lemma append_record_file:
  assumes "append_record seg_write (d, seg) body = ((d', seg'), None)"
  shows "disk_bytes d' = (disk_bytes d)(sg_path seg := map_option (\<lambda>c. c @ record_bytes body) (disk_bytes d (sg_path seg)))"
    and "sg_file seg"
proof -
  let ?p = "sg_path seg"
  show fileopen: "sg_file seg"
    using assms by (auto simp: append_record_def seg_write_def split: prod.splits option.splits if_splits)
  obtain d1 d2 where
    "file_write d ?p (put_uvarint (of_nat (length body))) = (d1, None)"
    "file_write d1 ?p body = (d2, None)"
    "file_write d2 ?p (put_uint32 (crc32_ieee body)) = (d', None)"
    using assms fileopen
    by (auto simp: append_record_def seg_write_def split: prod.splits option.splits if_splits)
  from this [THEN disk_bytes_write]
  show "disk_bytes d' = (disk_bytes d)(?p := map_option (\<lambda>c. c @ record_bytes body) (disk_bytes d ?p))"
    by (cases "disk_bytes d ?p") (simp_all add: record_bytes_def fun_upd_idem_iff)
qed

lemma write_record_ok:
  assumes "codec_ok cd" and "write_record cd d seg e = (d', None)"
  shows "disk_bytes d' = (disk_bytes d)(sg_path seg := map_option (\<lambda>c. c @ rec_of cd e) (disk_bytes d (sg_path seg)))"
    and "entry_ok cd e"
  using assms append_record_file(1) [of d seg] codec_entry_ok [OF assms(1)]
  by (auto simp: write_record_def rec_of_def split: sum.splits prod.splits)

lemma seg_sync_bytes: "seg_sync d seg = (d', r) \<Longrightarrow> disk_bytes d' = disk_bytes d"
  by (auto simp: seg_sync_def disk_bytes_sync split: if_splits)

text \<open>The representation depends on the disk through the bytes only, and on few fields.\<close>

lemma wal_rep_cong:
  assumes "wal_rep cd (d, w) es t" and "disk_bytes d' = disk_bytes d"
    and "wl_dir w' = wl_dir w" "wl_segs w' = wl_segs w" "wl_active w' = wl_active w" "wl_next w' = wl_next w"
  shows "wal_rep cd (d', w') es t"
  using assms unfolding wal_rep_def segs_rep_def by auto

lemma dir_ok_next:
  assumes "dir_ok db dir segs" and "i \<notin> sg_id ` set segs"
  shows "db (dir, segment_name i) = None"
proof (rule ccontr)
  assume "db (dir, segment_name i) \<noteq> None"
  then have "segment_name i \<in> segment_name ` sg_id ` set segs"
    using assms(1) unfolding dir_ok_def by simp
  with assms(2) show False by auto
qed

text \<open>Rolling over: the active segment, not empty, is sealed and a new one starts.\<close>

lemma roll_locked_first:
  assumes "roll_locked d w = (d', w', None)" and "wl_segs w = []" "wl_active w = None" "wl_next w \<noteq> 0"
    and "dir_ok (disk_bytes d) (wl_dir w) []"
  shows "segs_rep cd (disk_bytes d') w' (unat (wl_next w)) [] [] []"
    and "dir_ok (disk_bytes d') (wl_dir w') (wl_segs w')" and "wl_next w' = wl_next w" and "wl_active w' = Some 0"
proof -
  let ?p = "(wl_dir w, segment_name (wl_next w))"
  have none: "disk_bytes d ?p = None" using assms(5) by (rule dir_ok_next) simp
  obtain d2 where cr: "file_create d ?p False = (d2, None)" and d': "d' = d2"
    and w': "w' = w\<lparr>wl_segs := [\<lparr>sg_id = wl_next w, sg_end = 0, sg_path = ?p, sg_file = True, sg_size = 0\<rparr>],
                  wl_active := Some 0\<rparr>"
    using assms(1-3) by (auto simp: roll_locked_def seal_active_def Let_def split: prod.splits option.splits)
  have "disk_bytes d' = (disk_bytes d)(?p := Some [])"
    using disk_bytes_create [OF cr] none d' by simp
  then show "segs_rep cd (disk_bytes d') w' (unat (wl_next w)) [] [] []"
    and "dir_ok (disk_bytes d') (wl_dir w') (wl_segs w')"
    and "wl_next w' = wl_next w" and "wl_active w' = Some 0"
    using assms(4,5) by (auto simp: segs_rep_def active_ok_def seg_ok_def w' dir_ok_def u64_pos)
qed

lemma segs_rep_ids:
  assumes "segs_rep cd db w lo gs g t" and "g \<noteq> []" and "s \<in> set (wl_segs w)"
  shows "unat (sg_id s) < unat (wl_next w)" and "sg_path s = (wl_dir w, segment_name (sg_id s))"
proof -
  obtain ss a where "wl_segs w = ss @ [a]" "sealed_rep cd db (wl_dir w) lo ss gs"
      "active_ok cd db (wl_dir w) (lo + length (concat gs)) a g t"
      "unat (wl_next w) = lo + length (concat gs) + length g"
    using assms(1) by (auto simp: segs_rep_def)
  with assms(2,3) sealed_rep_ids [of cd db "wl_dir w" lo ss gs s]
  show "unat (sg_id s) < unat (wl_next w)" and "sg_path s = (wl_dir w, segment_name (sg_id s))"
    by (auto simp: active_ok_def seg_ok_def neq_Nil_conv)
qed

text \<open>What sealing does, from its code: the end is recorded, the file synced and closed.\<close>

lemma seal_active_ok:
  assumes "seal_active d w = (d', w', None)" and "wl_segs w = ss @ [a]" "wl_active w = Some (length ss)"
  shows "w' = w\<lparr>wl_segs := ss @ [a\<lparr>sg_end := wl_next w - 1, sg_file := False\<rparr>]\<rparr>"
    and "file_sync d (sg_path a) = (d', None)"
  using assms by (auto simp: seal_active_def Let_def seg_sync_def split: option.splits prod.splits if_splits)

lemma roll_locked_ok:
  assumes "roll_locked d w = (d', w', None)" and "wl_segs w = ss @ [a]" "wl_active w = Some (length ss)"
  shows "\<exists>d1. file_sync d (sg_path a) = (d1, None)
    \<and> file_create d1 (wl_dir w, segment_name (wl_next w)) False = (d', None)
    \<and> w' = w\<lparr>wl_segs := ss @ [a\<lparr>sg_end := wl_next w - 1, sg_file := False\<rparr>,
         \<lparr>sg_id = wl_next w, sg_end = 0, sg_path = (wl_dir w, segment_name (wl_next w)), sg_file = True, sg_size = 0\<rparr>],
         wl_active := Some (Suc (length ss))\<rparr>"
proof -
  obtain d1 w1 r where seal: "seal_active d w = (d1, w1, r)" by (metis prod_cases3)
  with assms(1) have r: "r = None" by (auto simp: roll_locked_def split: option.splits)
  note sealed = seal_active_ok [OF seal [unfolded r] assms(2,3)]
  from assms(1) seal r sealed show ?thesis
    by (auto simp: roll_locked_def Let_def split: option.splits prod.splits)
qed

lemma roll_locked_rep:
  assumes roll: "roll_locked d w = (d', w', None)" and rep: "segs_rep cd (disk_bytes d) w lo gs g []" and g: "g \<noteq> []"
    and dir: "dir_ok (disk_bytes d) (wl_dir w) (wl_segs w)"
  shows "segs_rep cd (disk_bytes d') w' lo (gs @ [g]) [] []"
    and "dir_ok (disk_bytes d') (wl_dir w') (wl_segs w')"
proof -
  let ?p = "(wl_dir w, segment_name (wl_next w))"
  obtain ss a where w: "wl_segs w = ss @ [a]" "wl_active w = Some (length ss)" "0 < lo"
    and sealed: "sealed_rep cd (disk_bytes d) (wl_dir w) lo ss gs"
    and act: "active_ok cd (disk_bytes d) (wl_dir w) (lo + length (concat gs)) a g []"
    and nxt: "unat (wl_next w) = lo + length (concat gs) + length g"
    using rep by (auto simp: segs_rep_def)
  obtain d1 where d1: "file_sync d (sg_path a) = (d1, None)" and cr: "file_create d1 ?p False = (d', None)"
    and w': "w' = w\<lparr>wl_segs := ss @ [a\<lparr>sg_end := wl_next w - 1, sg_file := False\<rparr>,
         \<lparr>sg_id = wl_next w, sg_end = 0, sg_path = ?p, sg_file = True, sg_size = 0\<rparr>],
         wl_active := Some (Suc (length ss))\<rparr>"
    using roll_locked_ok [OF roll w(1,2)] by blast
  have new: "wl_next w \<notin> sg_id ` set (wl_segs w)"
    using segs_rep_ids(1) [OF rep g] by fastforce
  have none: "disk_bytes d ?p = None" using dir new by (rule dir_ok_next)
  have db: "disk_bytes d' = (disk_bytes d)(?p := Some [])"
    using disk_bytes_create [OF cr] none disk_bytes_sync [OF d1] by simp
  have other: "disk_bytes d' (sg_path s) = disk_bytes d (sg_path s)" if "s \<in> set (wl_segs w)" for s
  proof -
    have "sg_id s \<noteq> wl_next w" using new that by force
    then show ?thesis using segs_rep_ids(2) [OF rep g that] by (simp add: db)
  qed
  have "wl_next w \<noteq> 0" using nxt w(3) by auto
  then have last: "unat (wl_next w - 1) = lo + length (concat gs) + length g - 1"
    using nxt by (simp add: unat_minus_one)
  have "sealed_rep cd (disk_bytes d') (wl_dir w) lo ss gs"
    using sealed by (rule sealed_rep_cong) (simp add: other w)
  moreover have "sealed_ok cd (disk_bytes d') (wl_dir w) (lo + length (concat gs))
      (a\<lparr>sg_end := wl_next w - 1, sg_file := False\<rparr>) g"
    using act g last other [of a] w by (auto simp: sealed_ok_def active_ok_def seg_ok_def)
  ultimately have "sealed_rep cd (disk_bytes d') (wl_dir w) lo (ss @ [a\<lparr>sg_end := wl_next w - 1, sg_file := False\<rparr>]) (gs @ [g])"
    by (simp add: sealed_rep_snoc)
  then show "segs_rep cd (disk_bytes d') w' lo (gs @ [g]) [] []"
    unfolding segs_rep_def using w(3) nxt
    by (auto simp: w' active_ok_def seg_ok_def db
        intro!: exI [of _ "ss @ [a\<lparr>sg_end := wl_next w - 1, sg_file := False\<rparr>]"])
  show "dir_ok (disk_bytes d') (wl_dir w') (wl_segs w')"
    using dir by (auto simp: dir_ok_def w' w db)
qed


lemma segs_rep_size:
  assumes "segs_rep cd db w lo gs g t" and "wl_active w = Some i"
  shows "segs_rep cd db (w\<lparr>wl_segs := (wl_segs w)[i := (wl_segs w ! i)\<lparr>sg_size := k\<rparr>]\<rparr>) lo gs g t"
  using assms by (auto simp: segs_rep_def active_ok_def seg_ok_def)

lemma dir_ok_size:
  assumes "dir_ok db dir segs" and "i < length segs"
  shows "dir_ok db dir (segs[i := (segs ! i)\<lparr>sg_size := k\<rparr>])"
proof -
  have "map sg_id (segs[i := (segs ! i)\<lparr>sg_size := k\<rparr>]) = map sg_id segs"
    using assms(2) by (intro nth_equalityI) (auto simp: nth_list_update)
  then have "sg_id ` set (segs[i := (segs ! i)\<lparr>sg_size := k\<rparr>]) = sg_id ` set segs"
    by (metis set_map)
  with assms(1) show ?thesis by (simp only: dir_ok_def)
qed

lemma roll_locked_fields:
  "roll_locked d w = (d', w', r) \<Longrightarrow>
     wl_dir w' = wl_dir w \<and> wl_next w' = wl_next w \<and> wl_mode w' = wl_mode w \<and> wl_max w' = wl_max w
     \<and> wl_flusher w' = wl_flusher w"
  by (auto simp: roll_locked_def seal_active_def Let_def split: option.splits prod.splits)

text \<open>The parts of \<open>finish_append\<close> when it succeeds.\<close>

definition sized :: "disk \<Rightarrow> wal \<Rightarrow> nat \<Rightarrow> wal" where
  "sized d w i = w\<lparr>wl_segs := (wl_segs w)[i := (wl_segs w ! i)\<lparr>sg_size := stat_size d (wl_segs w ! i)\<rparr>]\<rparr>"

lemma finish_append_ok:
  assumes "finish_append d w i = (d', w', None)" and "i < length (wl_segs w)"
  obtains d2 w2 where "(if wl_max w \<le> stat_size d (wl_segs w ! i) then roll_locked d (sized d w i) else (d, sized d w i, None)) = (d2, w2, None)"
    and "(if wl_mode w2 = FlushSync then seg_sync d2 (wl_segs w2 ! the (wl_active w2)) else (d2, None)) = (d', None)"
    and "w' = notify_all w2"
  using assms by (auto simp: finish_append_def Let_def sized_def split: prod.splits option.splits if_splits)

lemma sized_simps [simp]:
  "wl_dir (sized d w i) = wl_dir w" "wl_next (sized d w i) = wl_next w" "wl_active (sized d w i) = wl_active w"
  "wl_mode (sized d w i) = wl_mode w" "wl_max (sized d w i) = wl_max w"
  "length (wl_segs (sized d w i)) = length (wl_segs w)"
  by (simp_all add: sized_def)

lemma finish_append_rep:
  assumes fin: "finish_append d w i = (d', w', None)"
    and rep: "segs_rep cd (disk_bytes d) w lo gs g []" and g: "g \<noteq> []" and i: "wl_active w = Some i"
    and dir: "dir_ok (disk_bytes d) (wl_dir w) (wl_segs w)"
  shows "wal_rep cd (d', w') (concat gs @ g) []" and "wl_next w' = wl_next w"
    and "length (wl_segs w') \<noteq> length (wl_segs w) \<Longrightarrow> disk_bytes d' (sg_path (last (wl_segs w'))) = Some []"
proof -
  have i': "i < length (wl_segs w)" using rep i by (auto simp: segs_rep_def)
  have rep1: "segs_rep cd (disk_bytes d) (sized d w i) lo gs g []" unfolding sized_def using rep i by (rule segs_rep_size)
  have dir1: "dir_ok (disk_bytes d) (wl_dir (sized d w i)) (wl_segs (sized d w i))"
    using dir_ok_size [OF dir i'] by (simp add: sized_def)
  from fin i' obtain d2 w2 where
    roll: "(if wl_max w \<le> stat_size d (wl_segs w ! i) then roll_locked d (sized d w i) else (d, sized d w i, None)) = (d2, w2, None)"
    and sync: "(if wl_mode w2 = FlushSync then seg_sync d2 (wl_segs w2 ! the (wl_active w2)) else (d2, None)) = (d', None)"
    and w': "w' = notify_all w2" by (rule finish_append_ok)
  have db: "disk_bytes d' = disk_bytes d2" using sync seg_sync_bytes by (auto split: if_splits)
  have "wal_rep cd (d2, w2) (concat gs @ g) [] \<and>
    (length (wl_segs w') \<noteq> length (wl_segs w) \<longrightarrow> disk_bytes d' (sg_path (last (wl_segs w'))) = Some [])"
  proof (cases "wl_max w \<le> stat_size d (wl_segs w ! i)")
    case True
    with roll have "roll_locked d (sized d w i) = (d2, w2, None)" by simp
    from roll_locked_rep [OF this rep1 g dir1]
    have r: "segs_rep cd (disk_bytes d2) w2 lo (gs @ [g]) [] []" "dir_ok (disk_bytes d2) (wl_dir w2) (wl_segs w2)" .
    then have "disk_bytes d' (sg_path (last (wl_segs w'))) = Some []"
      by (auto simp: segs_rep_def active_ok_def w' notify_all_def db)
    with r show ?thesis unfolding wal_rep_def by fastforce
  next
    case False
    with roll have "d2 = d" "w2 = sized d w i" by auto
    with rep1 dir1 show ?thesis unfolding wal_rep_def by (fastforce simp: w' notify_all_def)
  qed
  then show "wal_rep cd (d', w') (concat gs @ g) []"
    and "length (wl_segs w') \<noteq> length (wl_segs w) \<Longrightarrow> disk_bytes d' (sg_path (last (wl_segs w'))) = Some []"
    using wal_rep_cong [of cd d2 w2 _ _ d' w'] by (simp_all add: db w' notify_all_def)
  have "wl_next w2 = wl_next w" using roll roll_locked_fields [of d "sized d w i" d2 w2 None]
    by (auto split: if_splits)
  then show "wl_next w' = wl_next w" by (simp add: w' notify_all_def)
qed

lemma append_open_rep:
  assumes app: "append_open cd d w i e = ((d', w'), e', Inr s)" and cd: "codec_ok cd"
    and rep: "segs_rep cd (disk_bytes d) w lo gs g []" and i: "wl_active w = Some i"
    and dir: "dir_ok (disk_bytes d) (wl_dir w) (wl_segs w)" and room: "unat (wl_next w) + 1 < 2 ^ 64"
  shows "wal_rep cd (d', w') (concat gs @ g @ [e']) []" and "s = wl_next w"
    and "e' = e\<lparr>seq_id := wl_next w\<rparr>" and "wl_next w' = wl_next w + 1"
    and "length (wl_segs w') \<noteq> length (wl_segs w) \<Longrightarrow> disk_bytes d' (sg_path (last (wl_segs w'))) = Some []"
proof -
  define w1 where "w1 = w\<lparr>wl_next := wl_next w + 1\<rparr>"
  show e': "e' = e\<lparr>seq_id := wl_next w\<rparr>" and "s = wl_next w"
    using app by (auto simp: append_open_def Let_def split: prod.splits option.splits)
  obtain d1 where wr: "write_record cd d (wl_segs w ! i) e' = (d1, None)"
    and fin: "finish_append d1 w1 i = (d', w', None)"
    using app by (auto simp: append_open_def Let_def w1_def split: prod.splits option.splits)
  obtain ss a where w: "wl_segs w = ss @ [a]" "i = length ss" "0 < lo"
    and sealed: "sealed_rep cd (disk_bytes d) (wl_dir w) lo ss gs"
    and act: "active_ok cd (disk_bytes d) (wl_dir w) (lo + length (concat gs)) a g []"
    and nxt: "unat (wl_next w) = lo + length (concat gs) + length g"
    using rep i by (auto simp: segs_rep_def)
  have db: "disk_bytes d1 = (disk_bytes d)(sg_path a := Some (seg_data cd (g @ [e'])))" and ok: "entry_ok cd e'"
    using write_record_ok [OF cd wr] w act by (auto simp: active_ok_def)
  have "sg_path s \<noteq> sg_path a" if "s \<in> set ss" for s
    using sealed_rep_ids [OF sealed that] act by (auto simp: active_ok_def seg_ok_def)
  then have "sealed_rep cd (disk_bytes d1) (wl_dir w) lo ss gs"
    using sealed by (intro sealed_rep_cong [OF sealed]) (simp add: db)
  moreover have "active_ok cd (disk_bytes d1) (wl_dir w) (lo + length (concat gs)) a (g @ [e']) []"
    using act ok nxt by (auto simp: active_ok_def seg_ok_def db e')
  ultimately have rep1: "segs_rep cd (disk_bytes d1) w1 lo gs (g @ [e']) []"
    using w nxt i unat_Suc [OF room] by (auto simp: segs_rep_def w1_def)
  have "dir_ok (disk_bytes d1) (wl_dir w1) (wl_segs w1)"
    using dir act w by (auto simp: dir_ok_def db w1_def active_ok_def seg_ok_def)
  from finish_append_rep [OF fin rep1 _ _ this] i
  show "wal_rep cd (d', w') (concat gs @ g @ [e']) []" and "wl_next w' = wl_next w + 1"
    and "length (wl_segs w') \<noteq> length (wl_segs w) \<Longrightarrow> disk_bytes d' (sg_path (last (wl_segs w'))) = Some []"
    by (simp_all add: w1_def)
qed

lemma wal_append_rep:
  assumes app: "wal_append cd dw e = (dw', e', Inr s)" and cd: "codec_ok cd"
    and rep: "wal_rep cd dw es []" and room: "unat (next_seq dw) + 1 < 2 ^ 64"
  shows "wal_rep cd dw' (es @ [e']) []" and "s = next_seq dw"
    and "e' = e\<lparr>seq_id := next_seq dw\<rparr>" and "next_seq dw' = next_seq dw + 1"
proof -
  obtain d w d' w' where dw: "dw = (d, w)" "dw' = (d', w')" by fastforce
  have dir: "dir_ok (disk_bytes d) (wl_dir w) (wl_segs w)" using rep by (simp add: wal_rep_def dw)
  have goal: "wal_rep cd dw' (es @ [e']) [] \<and> s = next_seq dw
    \<and> e' = e\<lparr>seq_id := next_seq dw\<rparr> \<and> next_seq dw' = next_seq dw + 1"
  proof (cases "wl_active w")
    case None
    with rep have w: "wl_segs w = []" "wl_next w \<noteq> 0" "es = []"
      by (auto simp: wal_rep_def dw segs_rep_def)
    obtain d1 w1 where roll: "roll_locked d w = (d1, w1, None)"
      and app1: "append_open cd d1 w1 (the (wl_active w1)) e = (dw', e', Inr s)"
      using app None by (auto simp: wal_append_def dw split: prod.splits option.splits)
    note first = roll_locked_first [OF roll w(1) None w(2) dir [unfolded w]]
    from append_open_rep [OF app1 [unfolded dw] cd first(1) [of cd] _ first(2)] first(3,4) room w(3)
    show ?thesis by (auto simp: dw next_seq_def)
  next
    case (Some i)
    with rep obtain lo gs g where r: "segs_rep cd (disk_bytes d) w lo gs g []" "es = concat gs @ g"
      by (auto simp: wal_rep_def dw)
    have "append_open cd d w i e = ((d', w'), e', Inr s)"
      using app Some by (simp add: wal_append_def dw)
    from append_open_rep [OF this cd r(1) Some dir] room r(2) show ?thesis
      by (auto simp: dw next_seq_def)
  qed
  then show "wal_rep cd dw' (es @ [e']) []" and "s = next_seq dw"
    and "e' = e\<lparr>seq_id := next_seq dw\<rparr>" and "next_seq dw' = next_seq dw + 1" by blast+
qed

end
