(* ===== verification/Wal_Recovery.thy ===== *)
theory Wal_Recovery
  imports Wal_Log
begin

text \<open>
  \<open>Open\<close> on a directory that already holds segments, after an orderly shutdown or after a
  crash of the machine: which entries are found again, which sequence number comes next,
  and what the flush modes guarantee.
\<close>

section \<open>Reopening\<close>

lemma run_last_seq:
  "run_entries (\<lambda>last e. (seq_id e, True)) s g = (if g = [] then s else seq_id (last g))"
  by (induction g arbitrary: s) auto

lemma scan_last_seq_seg:
  "list_all (entry_ok cd) g \<Longrightarrow> silent t \<Longrightarrow>
     scan_last_seq cd (seg_data cd g @ t) = Done (if g = [] then 0 else seq_id (last g), None)"
  by (simp add: scan_last_seq_def scan_records_seg run_last_seq)

lemma last_seq:
  assumes "seqs g = [lo..<lo + length g]" and "g \<noteq> []"
  shows "unat (seq_id (last g)) = lo + length g - 1"
proof -
  have "last (seqs g) = unat (seq_id (last g))" using assms(2) by (simp add: seqs_def last_map)
  then show ?thesis using assms by (simp add: last_upt)
qed

lemma sealed_rep_sorted:
  "sealed_rep cd db dir lo ss gs \<Longrightarrow> sorted_wrt (<) (map sg_id ss)"
proof (induction cd db dir lo ss gs rule: sealed_rep.induct)
  case (2 cd db dir lo s ss g gs)
  have "sg_id s < sg_id x" if "x \<in> set ss" for x
    using 2 sealed_rep_ids [of cd db dir "lo + length g" ss gs x] that
    by (auto simp: sealed_ok_def seg_ok_def word_less_nat_alt neq_Nil_conv)
  with 2 show ?case by auto
qed auto

definition loaded :: "fcontent \<Rightarrow> segment \<Rightarrow> u64 \<Rightarrow> segment" where
  "loaded db s endseq = \<lparr>sg_id = sg_id s, sg_end = endseq, sg_path = sg_path s, sg_file = False,
     sg_size = int (length (the (db (sg_path s))))\<rparr>"

lemma load_segs_sealed:
  assumes "sealed_rep cd (disk_bytes d) dir lo ss gs" and "dk_faults d = []" and "ids \<noteq> []"
    and "load_segs cd d dir ids = Done (Inr segs)"
  shows "load_segs cd d dir (map sg_id ss @ ids) =
    Done (Inr (map (\<lambda>s. loaded (disk_bytes d) s (sg_end s)) ss @ segs))"
  using assms
proof (induction cd "disk_bytes d" dir lo ss gs rule: sealed_rep.induct)
  case (2 cd dir lo s ss g gs)
  then have g: "seg_ok cd dir lo s g" "g \<noteq> []" "unat (sg_end s) = lo + length g - 1"
    "disk_bytes d (sg_path s) = Some (seg_data cd g)" by (auto simp: sealed_ok_def)
  have "\<not> faulty d FOpen" "\<not> faulty d FStat" using 2 by (auto simp: faulty_def)
  then have op: "file_open d (dir, segment_name (sg_id s)) = Inr (seg_data cd g)"
    using file_open_bytes g by (auto simp: seg_ok_def)
  have "seq_id (last g) = sg_end s"
    using last_seq [of g lo] g by (simp add: seg_ok_def word_unat_eq_iff)
  then have "scan_last_seq cd (seg_data cd g) = Done (sg_end s, None)"
    using scan_last_seq_seg [of cd g "[]"] g by (simp add: seg_ok_def)
  with 2 op \<open>\<not> faulty d FStat\<close> g show ?case
    by (auto simp: Let_def loaded_def seg_ok_def)
qed auto

lemma segment_ids_eq:
  assumes "dir_ok (disk_bytes d) dir segs" and "sorted_wrt (<) (map sg_id segs)"
    and "\<And>s. s \<in> set segs \<Longrightarrow> disk_bytes d (dir, segment_name (sg_id s)) \<noteq> None"
  shows "segment_ids d dir = map sg_id segs"
proof -
  define f where "f = (\<lambda>name. if \<not> has_suffix name segmentExt then None
       else case parse_uint (trim_suffix name segmentExt) of
              Inl _ \<Rightarrow> None | Inr v \<Rightarrow> Some (of_nat v :: u64))"
  let ?names = "dir_names d dir"
  have f_name: "f (segment_name i) = Some i" for i by (simp add: f_def parse_segment_name)
  have dom: "\<exists>s \<in> set segs. name = segment_name (sg_id s)" if "f name \<noteq> None" "name \<in> set ?names" for name
  proof -
    have "has_suffix name segmentExt" using that(1) by (auto simp: f_def split: if_splits)
    moreover have "disk_bytes d (dir, name) \<noteq> None" using that(2) by (simp add: set_dir_names disk_bytes_def)
    ultimately show ?thesis using assms(1) unfolding dir_ok_def by blast
  qed
  have eq: "List.map_filter f ?names = map (the \<circ> f) (filter (\<lambda>x. f x \<noteq> None) ?names)"
    by (simp add: List.map_filter_def)
  have inv: "name = segment_name (the (f name))" if "f name \<noteq> None" "name \<in> set ?names" for name
    using dom [OF that] f_name by auto
  have "inj_on (the \<circ> f) {x \<in> set ?names. f x \<noteq> None}"
  proof (rule inj_onI)
    fix x y
    assume x: "x \<in> {x \<in> set ?names. f x \<noteq> None}" and y: "y \<in> {x \<in> set ?names. f x \<noteq> None}"
      and "(the \<circ> f) x = (the \<circ> f) y"
    then have "segment_name (the (f x)) = segment_name (the (f y))" by simp
    with x y inv show "x = y" by auto
  qed
  then have dist: "distinct (List.map_filter f ?names)"
    unfolding eq by (simp add: distinct_map)
  have set: "set (List.map_filter f ?names) = sg_id ` set segs"
  proof
    show "set (List.map_filter f ?names) \<subseteq> sg_id ` set segs"
      unfolding eq using dom f_name by fastforce
    show "sg_id ` set segs \<subseteq> set (List.map_filter f ?names)"
    proof
      fix i assume "i \<in> sg_id ` set segs"
      then have "segment_name i \<in> set ?names"
        using assms(3) by (auto simp: set_dir_names disk_bytes_def)
      then show "i \<in> set (List.map_filter f ?names)"
        unfolding eq using f_name [of i] by (force simp: image_iff)
    qed
  qed
  have "sorted (map sg_id segs)" "distinct (map sg_id segs)"
    using assms(2) by (auto simp: strict_sorted_iff)
  then have "sort (List.map_filter f ?names) = map sg_id segs"
    using dist set by (intro sorted_distinct_set_unique) auto
  then show ?thesis by (simp add: segment_ids_def f_def)
qed


text \<open>
  Opening a directory that holds sealed segments and a last one with a possibly silent tail
  finds every complete record. The next sequence number comes from the last segment only.
\<close>

lemma sealed_rep_loaded:
  "sealed_rep cd db dir lo ss gs \<Longrightarrow> sealed_rep cd db dir lo (map (\<lambda>s. loaded db s (sg_end s)) ss) gs"
  by (induction cd db dir lo ss gs rule: sealed_rep.induct)
    (auto simp: sealed_ok_def seg_ok_def loaded_def)

lemma sealed_rep_files:
  "sealed_rep cd db dir lo ss gs \<Longrightarrow> s \<in> set ss \<Longrightarrow> db (dir, segment_name (sg_id s)) \<noteq> None"
  by (induction cd db dir lo ss gs rule: sealed_rep.induct) (auto simp: sealed_ok_def seg_ok_def)

lemma next_after_last:
  assumes "seqs g = [lo..<lo + length g]" and "g \<noteq> []" and "0 < lo" and "lo + length g < 2 ^ 64"
  shows "(if 0 < seq_id (last g) + 1 then seq_id (last g) + 1 else 0) = of_nat (lo + length g)"
proof -
  have "unat (seq_id (last g)) = lo + length g - 1" using last_seq assms(1,2) by blast
  then have u: "unat (seq_id (last g) + 1) = lo + length g"
    using unat_Suc [of "seq_id (last g)"] assms by simp
  moreover have "unat (of_nat (lo + length g) :: u64) = lo + length g"
    using assms(4) by (rule unat_u64_of_nat)
  ultimately have "seq_id (last g) + 1 = of_nat (lo + length g)"
    by (simp only: word_unat_eq_iff)
  moreover have "0 < seq_id (last g) + 1"
    using u assms(3) by (simp add: word_less_nat_alt)
  ultimately show ?thesis by simp
qed

lemma load_segments_rep:
  assumes sealed: "sealed_rep cd (disk_bytes d) (wl_dir w) lo ss gs"
    and act: "active_ok cd (disk_bytes d) (wl_dir w) (lo + length (concat gs)) a g t"
    and dir: "dir_ok (disk_bytes d) (wl_dir w) (ss @ [a])"
    and t: "silent t" and lo: "0 < lo" and n: "n = lo + length (concat gs) + length g" and room: "n < 2 ^ 64"
    and ok: "dk_faults d = []" and w: "wl_segs w = []" "wl_next w = 0"
  shows "\<exists>segs. load_segments cd d w = Done (Inr (w\<lparr>wl_segs := segs, wl_active := Some (length ss),
      wl_next := (if g = [] then 1 else of_nat n)\<rparr>))
    \<and> (\<exists>a'. segs = map (\<lambda>s. loaded (disk_bytes d) s (sg_end s)) ss @ [a']
         \<and> active_ok cd (disk_bytes d) (wl_dir w) (lo + length (concat gs)) a' g t \<and> sg_file a')"
proof -
  let ?db = "disk_bytes d"
  let ?segs = "map (\<lambda>s. loaded ?db s (sg_end s)) ss @ [loaded ?db a 0]"
  let ?a = "(loaded ?db a 0)\<lparr>sg_file := True\<rparr>"
  have nf: "\<not> faulty d x" for x using ok by (simp add: faulty_def)
  have a: "sg_path a = (wl_dir w, segment_name (sg_id a))" "unat (sg_id a) = lo + length (concat gs)"
    "?db (sg_path a) = Some (seg_data cd g @ t)" "list_all (entry_ok cd) g"
    "seqs g = [lo + length (concat gs)..<lo + length (concat gs) + length g]"
    using act by (auto simp: active_ok_def seg_ok_def)
  have "sorted_wrt (<) (map sg_id (ss @ [a]))"
    using sealed_rep_sorted [OF sealed] sealed_rep_ids [OF sealed] a(2)
    by (auto simp: sorted_wrt_append word_less_nat_alt)
  then have ids: "segment_ids d (wl_dir w) = map sg_id (ss @ [a])"
    using dir sealed_rep_files [OF sealed] a by (intro segment_ids_eq) auto
  have "load_segs cd d (wl_dir w) [sg_id a] = Done (Inr [loaded ?db a 0])"
    using file_open_bytes [OF nf, of "sg_path a"] a nf
    by (simp add: Let_def loaded_def)
  then have load: "load_segs cd d (wl_dir w) (segment_ids d (wl_dir w)) = Done (Inr ?segs)"
    unfolding ids using load_segs_sealed [OF sealed ok] by simp
  have scan: "scan_last_seq cd (seg_data cd g @ t) = Done (if g = [] then 0 else seq_id (last g), None)"
    using scan_last_seq_seg a(4) t by blast
  have "file_open d (sg_path (loaded ?db a 0)) = Inr (seg_data cd g @ t)"
    using file_open_bytes [OF nf] a(3) by (simp add: loaded_def)
  with scan have "open_active cd d (w\<lparr>wl_segs := ?segs\<rparr>) =
      Done (Inr (w\<lparr>wl_segs := ?segs[length ss := ?a], wl_active := Some (length ss),
        wl_next := (let l = (if g = [] then 0 else seq_id (last g)) in if 0 < l + 1 then l + 1 else 0)\<rparr>))"
    using w by (simp add: open_active_def Let_def nth_append)
  moreover have "(let l = (if g = [] then 0 else seq_id (last g)) in if 0 < l + 1 then l + 1 else 0)
      = (if g = [] then 1 else of_nat n :: u64)"
    using next_after_last [OF a(5)] room lo unfolding n by (auto simp: Let_def)
  ultimately have "load_segments cd d w = Done (Inr (w\<lparr>wl_segs := ?segs[length ss := ?a], wl_active := Some (length ss),
      wl_next := (if g = [] then 1 else of_nat n)\<rparr>))"
    using nf load u64_of_nat_neq_0 [of n] room lo n by (simp add: load_segments_def)
  moreover have "?segs[length ss := ?a] = map (\<lambda>s. loaded ?db s (sg_end s)) ss @ [?a]"
    by (simp add: list_update_append)
  moreover have "active_ok cd ?db (wl_dir w) (lo + length (concat gs)) ?a g t"
    using act by (auto simp: active_ok_def seg_ok_def loaded_def)
  ultimately show ?thesis by auto
qed


definition fresh_wal :: "wal_options \<Rightarrow> wal" where
  "fresh_wal opts = \<lparr>wl_dir = op_dir opts,
      wl_max = (if op_segment_max opts = 0 then default_segment_max else op_segment_max opts),
      wl_snapshot = 0, wl_segs = [], wl_active = None, wl_mode = op_flush opts,
      wl_every = (if op_flush_interval opts \<le> 0 then 100 else op_flush_interval opts),
      wl_flusher = None, wl_next = 0, wl_notify = []\<rparr>"

lemma wal_open_load:
  assumes "load_segments cd d (fresh_wal opts) = Done (Inr w)" and "op_dir opts \<noteq> []" and "dk_faults d = []"
  shows "wal_open cd d opts = Done (Inr (if wl_mode w = FlushPeriodic then w\<lparr>wl_flusher := Some True\<rparr> else w))"
  using assms by (simp add: wal_open_def fresh_wal_def faulty_def)

lemma wal_open_segs:
  assumes sealed: "sealed_rep cd (disk_bytes d) (op_dir opts) lo ss gs"
    and act: "active_ok cd (disk_bytes d) (op_dir opts) (lo + length (concat gs)) a g t"
    and dir: "dir_ok (disk_bytes d) (op_dir opts) (ss @ [a])"
    and t: "silent t" and lo: "0 < lo" and n: "n = lo + length (concat gs) + length g" and room: "n < 2 ^ 64"
    and ok: "dk_faults d = []" "op_dir opts \<noteq> []"
  shows "\<exists>w. wal_open cd d opts = Done (Inr w) \<and> wl_next w = (if g = [] then 1 else of_nat n)
    \<and> wal_rep cd (d, w\<lparr>wl_next := of_nat n\<rparr>) (concat gs @ g) t"
proof -
  have dir0: "wl_dir (fresh_wal opts) = op_dir opts" "wl_segs (fresh_wal opts) = []" "wl_next (fresh_wal opts) = 0"
    by (simp_all add: fresh_wal_def)
  define segs where "segs = map (\<lambda>s. loaded (disk_bytes d) s (sg_end s)) ss"
  obtain a' where load: "load_segments cd d (fresh_wal opts) = Done (Inr ((fresh_wal opts)\<lparr>
        wl_segs := segs @ [a'], wl_active := Some (length ss), wl_next := (if g = [] then 1 else of_nat n)\<rparr>))"
    and a': "active_ok cd (disk_bytes d) (op_dir opts) (lo + length (concat gs)) a' g t"
    using load_segments_rep [of cd d "fresh_wal opts", unfolded dir0, OF sealed act dir t lo n room ok(1)]
    unfolding segs_def by auto
  define w where "w = (fresh_wal opts)\<lparr>wl_segs := segs @ [a'], wl_active := Some (length ss),
      wl_next := (if g = [] then 1 else of_nat n),
      wl_flusher := (if op_flush opts = FlushPeriodic then Some True else None)\<rparr>"
  have "wal_open cd d opts = Done (Inr w)"
    using wal_open_load [OF load ok(2,1)] by (auto simp: w_def fresh_wal_def)
  moreover have "sealed_rep cd (disk_bytes d) (op_dir opts) lo segs gs"
    unfolding segs_def using sealed by (rule sealed_rep_loaded)
  then have "segs_rep cd (disk_bytes d) (w\<lparr>wl_next := of_nat n\<rparr>) lo gs g t"
    using a' lo unat_u64_of_nat [OF room]
    by (auto simp: segs_rep_def w_def fresh_wal_def segs_def n)
  moreover have "dir_ok (disk_bytes d) (op_dir opts) (segs @ [a'])"
  proof -
    have "sg_id a' = sg_id a" using act a' by (simp add: active_ok_def seg_ok_def word_unat_eq_iff)
    then have "sg_id ` set (segs @ [a']) = sg_id ` set (ss @ [a])"
      by (auto simp: segs_def loaded_def image_iff)
    with dir show ?thesis by (simp only: dir_ok_def)
  qed
  moreover have "wl_segs w = segs @ [a']" "wl_dir w = op_dir opts" "wl_next w = (if g = [] then 1 else of_nat n)"
    by (simp_all add: w_def fresh_wal_def)
  ultimately show ?thesis
    unfolding wal_rep_def by (intro exI [of _ w]) (simp, blast)
qed

lemma wal_open_fresh:
  assumes "dir_ok (disk_bytes d) (op_dir opts) []" and "dk_faults d = []" "op_dir opts \<noteq> []"
  shows "\<exists>w. wal_open cd d opts = Done (Inr w) \<and> wl_next w = 1 \<and> wal_rep cd (d, w) [] []
    \<and> wl_mode w = op_flush opts \<and> wl_segs w = []"
proof -
  have "segment_ids d (op_dir opts) = []"
    using segment_ids_eq [OF assms(1)] by simp
  then have "load_segments cd d (fresh_wal opts) = Done (Inr ((fresh_wal opts)\<lparr>wl_next := 1\<rparr>))"
    using assms(2) by (simp add: load_segments_def faulty_def fresh_wal_def)
  from wal_open_load [OF this assms(3,2)] assms(1) show ?thesis
    by (auto simp: wal_rep_def fresh_wal_def)
qed

section \<open>Crashes\<close>

text \<open>A prefix of a segment's data is some of its records and a torn one.\<close>

lemma seg_data_prefix:
  assumes "list_all (entry_ok cd) g" and "prefix c (seg_data cd g)"
  shows "\<exists>g1 g2 t. g = g1 @ g2 \<and> c = seg_data cd g1 @ t \<and> torn t"
  using assms
proof (induction g arbitrary: c)
  case Nil
  then have "[] = [] @ [] \<and> c = seg_data cd [] @ [] \<and> torn []" by simp
  then show ?case by (intro exI) assumption
next
  case (Cons e g)
  show ?case
  proof (cases "prefix (rec_of cd e) c")
    case True
    then obtain c' where c: "c = rec_of cd e @ c'" by (auto simp: prefix_def)
    with Cons.prems have "prefix c' (seg_data cd g)" by simp
    moreover have "list_all (entry_ok cd) g" using Cons.prems(1) by simp
    ultimately obtain g1 g2 t where "g = g1 @ g2" "c' = seg_data cd g1 @ t" "torn t" using Cons.IH by blast
    then have "e # g = (e # g1) @ g2 \<and> c = seg_data cd (e # g1) @ t \<and> torn t" by (simp add: c)
    then show ?thesis by blast
  next
    case False
    have "prefix c (rec_of cd e) \<or> prefix (rec_of cd e) c"
      using Cons.prems(2) prefix_same_cases [of c "rec_of cd e @ seg_data cd g" "rec_of cd e"] by simp
    with False have "strict_prefix c (rec_of cd e)" by (auto simp: strict_prefix_def)
    with Cons.prems(1) have "torn c"
      by (auto simp: torn_def entry_ok_def rec_of_def split: sum.splits)
    then have "e # g = [] @ (e # g) \<and> c = seg_data cd [] @ c \<and> torn c" by simp
    then show ?thesis by blast
  qed
qed

definition synced :: "disk \<Rightarrow> fpath \<Rightarrow> bool" where
  "synced d p \<longleftrightarrow> (\<forall>f. disk_file d p = Some f \<longrightarrow> length (fd_bytes f) \<le> fd_synced f)"

definition sealed_synced :: "disk \<Rightarrow> wal \<Rightarrow> bool" where
  "sealed_synced d w \<longleftrightarrow> list_all (\<lambda>s. synced d (sg_path s)) (butlast (wl_segs w))"

definition all_synced :: "disk \<Rightarrow> wal \<Rightarrow> bool" where
  "all_synced d w \<longleftrightarrow> list_all (\<lambda>s. synced d (sg_path s)) (wl_segs w)"

lemma crash_synced:
  assumes "crashes_to d d'" and "synced d p"
  shows "disk_bytes d' p = disk_bytes d p"
proof (cases "disk_file d p")
  case None
  have "rel_option crash_file (disk_file d p) (disk_file d' p)" using assms(1) unfolding crashes_to_def by blast
  with None have "disk_file d' p = None" by simp
  with None show ?thesis by (simp add: disk_bytes_def)
next
  case (Some f)
  then obtain f' where f': "disk_file d' p = Some f'" "crash_file f f'" using assms(1) crashes_toD by blast
  then have "fd_bytes f' = fd_bytes f"
    using assms(2) Some by (auto simp: crash_file_def synced_def min_def prefix_def split: if_splits)
  with Some f' show ?thesis by (simp add: disk_bytes_def)
qed

lemma crash_bytes:
  assumes "crashes_to d d'" and "disk_bytes d p = Some c"
  shows "\<exists>c'. disk_bytes d' p = Some c' \<and> prefix c' c"
  using assms crashes_toD [of d d' p] by (auto simp: disk_bytes_def crash_file_def)

lemma crash_dir_ok:
  assumes "crashes_to d d'" and "dir_ok (disk_bytes d) dir segs"
  shows "dir_ok (disk_bytes d') dir segs"
proof -
  have "disk_bytes d p \<noteq> None" if "disk_bytes d' p \<noteq> None" for p
  proof -
    have "rel_option crash_file (disk_file d p) (disk_file d' p)" using assms(1) unfolding crashes_to_def by blast
    with that show ?thesis by (cases "disk_file d p") (auto simp: disk_bytes_def)
  qed
  then have "disk_bytes d (dir, name) \<noteq> None" if "disk_bytes d' (dir, name) \<noteq> None" for name
    using that by simp
  with assms(2) show ?thesis unfolding dir_ok_def by simp
qed

lemma torn_prefix: "torn t \<Longrightarrow> prefix c t \<Longrightarrow> torn c"
  unfolding torn_def using prefix_order.le_less_trans by blast

lemma seg_torn_prefix:
  assumes "list_all (entry_ok cd) g" and "torn t" and "prefix c (seg_data cd g @ t)"
  shows "\<exists>g1 g2 t'. g = g1 @ g2 \<and> c = seg_data cd g1 @ t' \<and> torn t'"
proof (cases "prefix c (seg_data cd g)")
  case True
  with assms(1) show ?thesis by (rule seg_data_prefix)
next
  case False
  with assms(3) obtain t' where "c = seg_data cd g @ t'" "prefix t' t" by (auto simp: prefix_append)
  with assms(2) torn_prefix have "g = g @ [] \<and> c = seg_data cd g @ t' \<and> torn t'" by auto
  then show ?thesis by (intro exI) assumption
qed

lemma read_from_next [simp]: "read_from cd (d, w\<lparr>wl_next := n\<rparr>) fr mx = read_from cd (d, w) fr mx"
  by (simp add: read_from_def)

text \<open>
  After a crash the log is opened again on what the disk kept: a prefix of the entries,
  losing some of the last segment at most, and all of them if every segment was synced.
\<close>

lemma seg_ok_prefix: "seg_ok cd dir lo s (g1 @ g2) \<Longrightarrow> seg_ok cd dir lo s g1"
proof -
  assume ok: "seg_ok cd dir lo s (g1 @ g2)"
  then have "take (length g1) (seqs (g1 @ g2)) = take (length g1) [lo..<lo + length (g1 @ g2)]"
    by (simp only: seg_ok_def)
  then have "seqs g1 = [lo..<lo + length g1]" by (simp add: min_def)
  with ok show ?thesis by (simp add: seg_ok_def)
qed

lemma crash_segs:
  assumes rep: "segs_rep cd (disk_bytes d) w lo gs g t" and t: "torn t"
    and sy: "sealed_synced d w" and cr: "crashes_to d d'"
  shows "\<exists>ss a g1 g2 t'. wl_segs w = ss @ [a] \<and> sealed_rep cd (disk_bytes d') (wl_dir w) lo ss gs
    \<and> active_ok cd (disk_bytes d') (wl_dir w) (lo + length (concat gs)) a g1 t'
    \<and> g = g1 @ g2 \<and> torn t' \<and> (all_synced d w \<longrightarrow> g2 = [] \<and> t' = t)"
proof -
  obtain ss a where segs: "wl_segs w = ss @ [a]"
    and sealed: "sealed_rep cd (disk_bytes d) (wl_dir w) lo ss gs"
    and act: "active_ok cd (disk_bytes d) (wl_dir w) (lo + length (concat gs)) a g t"
    using rep by (auto simp: segs_rep_def)
  have "disk_bytes d' (sg_path s) = disk_bytes d (sg_path s)" if "s \<in> set ss" for s
    using sy that by (intro crash_synced [OF cr]) (simp add: sealed_synced_def segs list_all_iff)
  then have S: "sealed_rep cd (disk_bytes d') (wl_dir w) lo ss gs"
    by (rule sealed_rep_cong [OF sealed])
  show ?thesis
  proof (cases "all_synced d w")
    case True
    then have "disk_bytes d' (sg_path a) = disk_bytes d (sg_path a)"
      by (intro crash_synced [OF cr]) (simp add: all_synced_def segs list_all_iff)
    with act have "active_ok cd (disk_bytes d') (wl_dir w) (lo + length (concat gs)) a g t"
      by (simp add: active_ok_def)
    with segs S t have "wl_segs w = ss @ [a] \<and> sealed_rep cd (disk_bytes d') (wl_dir w) lo ss gs
      \<and> active_ok cd (disk_bytes d') (wl_dir w) (lo + length (concat gs)) a g t
      \<and> g = g @ [] \<and> torn t \<and> (all_synced d w \<longrightarrow> [] = [] \<and> t = t)" by simp
    then show ?thesis by (intro exI) assumption
  next
    case False
    obtain c where c: "disk_bytes d' (sg_path a) = Some c" "prefix c (seg_data cd g @ t)"
      using crash_bytes [OF cr, of "sg_path a"] act by (auto simp: active_ok_def)
    then obtain g1 g2 t' where g: "g = g1 @ g2" "c = seg_data cd g1 @ t'" "torn t'"
      using seg_torn_prefix [of cd g t c] act t by (auto simp: active_ok_def seg_ok_def)
    with act c have "active_ok cd (disk_bytes d') (wl_dir w) (lo + length (concat gs)) a g1 t'"
      using seg_ok_prefix by (auto simp: active_ok_def)
    with segs S g False show ?thesis by blast
  qed
qed

lemma crash_open:
  assumes rep: "wal_rep cd (d, w) es t" and t: "torn t" and sy: "sealed_synced d w"
    and cr: "crashes_to d d'" and ok: "dk_faults d = []" "op_dir opts \<noteq> []" "op_dir opts = wl_dir w"
  shows "\<exists>w' es1 es2 t'. wal_open cd d' opts = Done (Inr w') \<and> es = es1 @ es2 \<and> torn t'
    \<and> (all_synced d w \<longrightarrow> es2 = [] \<and> t' = t)
    \<and> (\<exists>n. wal_rep cd (d', w'\<lparr>wl_next := n\<rparr>) es1 t')"
proof -
  have ok': "dk_faults d' = []" using cr ok(1) by (simp add: crashes_to_def)
  have dir: "dir_ok (disk_bytes d') (op_dir opts) (wl_segs w)"
    using rep crash_dir_ok [OF cr] by (simp add: wal_rep_def ok(3))
  consider "wl_segs w = []" "es = []" "t = []"
    | lo gs g where "segs_rep cd (disk_bytes d) w lo gs g t" "es = concat gs @ g"
    using rep by (auto simp: wal_rep_def)
  then show ?thesis
  proof cases
    case 1
    with dir obtain w' where w': "wal_open cd d' opts = Done (Inr w')" "wal_rep cd (d', w'\<lparr>wl_next := wl_next w'\<rparr>) [] []"
      using wal_open_fresh [of d' opts cd] ok ok' by auto
    from w'(2) have "\<exists>n. wal_rep cd (d', w'\<lparr>wl_next := n\<rparr>) [] []" by (rule exI)
    with w'(1) 1 have "wal_open cd d' opts = Done (Inr w') \<and> es = [] @ [] \<and> torn []
      \<and> (all_synced d w \<longrightarrow> [] = [] \<and> [] = t) \<and> (\<exists>n. wal_rep cd (d', w'\<lparr>wl_next := n\<rparr>) [] [])"
      by simp
    then show ?thesis by (intro exI) assumption
  next
    case 2
    from crash_segs [OF this(1) t sy cr] obtain ss a g1 g2 t' where
      s: "wl_segs w = ss @ [a]" "sealed_rep cd (disk_bytes d') (op_dir opts) lo ss gs"
        "active_ok cd (disk_bytes d') (op_dir opts) (lo + length (concat gs)) a g1 t'"
      and g: "g = g1 @ g2" "torn t'" "all_synced d w \<longrightarrow> g2 = [] \<and> t' = t"
      unfolding ok(3) by blast
    have lo: "0 < lo" "lo + length (concat gs) + length g1 < 2 ^ 64"
      using 2(1) unat_u64_less [of "wl_next w"] by (auto simp: segs_rep_def g)
    obtain w' where "wal_open cd d' opts = Done (Inr w')"
      "wal_rep cd (d', w'\<lparr>wl_next := of_nat (lo + length (concat gs) + length g1)\<rparr>) (concat gs @ g1) t'"
      using wal_open_segs [OF s(2,3) dir [unfolded s(1)] torn_silent [OF g(2)] lo(1) refl lo(2) ok' ok(2)] by blast
    moreover have "es = (concat gs @ g1) @ g2" by (simp add: 2 g)
    ultimately show ?thesis using g(2,3) by blast
  qed
qed


section \<open>What the flush modes keep synced\<close>

lemma synced_write: "file_write d q b = (d', r) \<Longrightarrow> p \<noteq> q \<Longrightarrow> synced d p \<Longrightarrow> synced d' p"
  by (simp add: synced_def file_write_other)

lemma synced_sync: "file_sync d q = (d', r) \<Longrightarrow> synced d p \<Longrightarrow> synced d' p"
  by (auto simp: synced_def file_sync_def split: option.splits if_splits)

lemma synced_sync_same: "file_sync d p = (d', None) \<Longrightarrow> synced d' p"
  by (auto simp: synced_def file_sync_def split: option.splits if_splits)

lemma synced_create: "file_create d q False = (d', r) \<Longrightarrow> synced d p \<Longrightarrow> synced d' p"
  by (auto simp: synced_def file_create_def split: option.splits if_splits)

lemma synced_write_record:
  assumes "write_record cd d seg e = (d', r)" and "p \<noteq> sg_path seg" and "synced d p"
  shows "synced d' p"
  using assms by (auto simp: write_record_def append_record_def seg_write_def
      split: sum.splits prod.splits option.splits if_splits dest!: synced_write)

text \<open>
  A successful append leaves every sealed segment synced, and in sync mode the active one too.
\<close>

lemma finish_append_synced:
  assumes fin: "finish_append d w i = (d', w', None)" and w: "wl_segs w = ss @ [a]" "i = length ss" "wl_active w = Some i"
    and sy: "list_all (\<lambda>s. synced d (sg_path s)) ss"
  shows "sealed_synced d' w'" and "wl_mode w = FlushSync \<Longrightarrow> all_synced d' w'"
    and "wl_mode w' = wl_mode w" and "wl_dir w' = wl_dir w"
proof -
  define a1 where "a1 = a\<lparr>sg_size := stat_size d a\<rparr>"
  define w1 where "w1 = sized d w i"
  have w1: "wl_segs w1 = ss @ [a1]" "wl_active w1 = Some (length ss)" "wl_mode w1 = wl_mode w" "wl_dir w1 = wl_dir w"
    "wl_next w1 = wl_next w" "sg_path a1 = sg_path a"
    using w by (simp_all add: w1_def sized_def a1_def)
  obtain d2 w2 where roll: "(if wl_max w \<le> stat_size d (wl_segs w ! i) then roll_locked d w1 else (d, w1, None)) = (d2, w2, None)"
    and sync: "(if wl_mode w2 = FlushSync then seg_sync d2 (wl_segs w2 ! the (wl_active w2)) else (d2, None)) = (d', None)"
    and w': "w' = notify_all w2"
    using finish_append_ok [OF fin] w unfolding w1_def by auto
  have two: "(\<exists>ss2 a2. wl_segs w2 = ss2 @ [a2] \<and> wl_active w2 = Some (length ss2)
      \<and> list_all (\<lambda>s. synced d2 (sg_path s)) ss2) \<and> wl_mode w2 = wl_mode w \<and> wl_dir w2 = wl_dir w"
  proof (cases "wl_max w \<le> stat_size d (wl_segs w ! i)")
    case True
    with roll have r: "roll_locked d w1 = (d2, w2, None)" by simp
    from roll_locked_ok [OF r w1(1,2)] obtain d1 where
      d1: "file_sync d (sg_path a) = (d1, None)"
      and cr: "file_create d1 (wl_dir w, segment_name (wl_next w)) False = (d2, None)"
      and w2: "wl_segs w2 = (ss @ [a1\<lparr>sg_end := wl_next w - 1, sg_file := False\<rparr>]) @
         [\<lparr>sg_id = wl_next w, sg_end = 0, sg_path = (wl_dir w, segment_name (wl_next w)), sg_file = True, sg_size = 0\<rparr>]"
         "wl_active w2 = Some (Suc (length ss))"
      unfolding w1 by fastforce
    have "list_all (\<lambda>s. synced d2 (sg_path s)) (ss @ [a1\<lparr>sg_end := wl_next w - 1, sg_file := False\<rparr>])"
      using sy synced_sync [OF d1] synced_sync_same [OF d1] synced_create [OF cr]
      by (auto simp: list_all_iff w1)
    with w2 roll_locked_fields [OF r] w1 show ?thesis by auto
  next
    case False
    with roll w1 sy show ?thesis by auto
  qed
  then obtain ss2 a2 where w2: "wl_segs w2 = ss2 @ [a2]" "wl_active w2 = Some (length ss2)"
    "list_all (\<lambda>s. synced d2 (sg_path s)) ss2" "wl_mode w2 = wl_mode w" "wl_dir w2 = wl_dir w" by blast
  have keep: "synced d2 p \<Longrightarrow> synced d' p" for p
    using sync synced_sync by (auto simp: seg_sync_def split: if_splits)
  with w2 show "sealed_synced d' w'"
    by (auto simp: sealed_synced_def w' notify_all_def list_all_iff)
  show "all_synced d' w'" if "wl_mode w = FlushSync"
    using sync that w2 keep synced_sync_same
    by (auto simp: all_synced_def w' notify_all_def list_all_iff seg_sync_def split: if_splits)
  show "wl_mode w' = wl_mode w" "wl_dir w' = wl_dir w" using w2 by (simp_all add: w' notify_all_def)
qed


lemma append_open_synced:
  assumes app: "append_open cd d w i e = ((d', w'), e', Inr s)"
    and rep: "segs_rep cd (disk_bytes d) w lo gs g t" and i: "wl_active w = Some i" and sy: "sealed_synced d w"
  shows "sealed_synced d' w'" and "wl_mode w = FlushSync \<Longrightarrow> all_synced d' w'"
    and "wl_mode w' = wl_mode w" and "wl_dir w' = wl_dir w"
proof -
  define w1 where "w1 = w\<lparr>wl_next := wl_next w + 1\<rparr>"
  obtain d1 where wr: "write_record cd d (wl_segs w ! i) e' = (d1, None)"
    and fin: "finish_append d1 w1 i = (d', w', None)"
    using app by (auto simp: append_open_def Let_def w1_def split: prod.splits option.splits)
  obtain ss a where w: "wl_segs w = ss @ [a]" "i = length ss"
    and sealed: "sealed_rep cd (disk_bytes d) (wl_dir w) lo ss gs"
    and act: "active_ok cd (disk_bytes d) (wl_dir w) (lo + length (concat gs)) a g t"
    using rep i by (auto simp: segs_rep_def)
  have "sg_path x \<noteq> sg_path a" if "x \<in> set ss" for x
    using sealed_rep_ids [OF sealed that] act by (auto simp: active_ok_def seg_ok_def)
  then have "list_all (\<lambda>s. synced d1 (sg_path s)) ss"
    using sy synced_write_record [OF wr] w by (auto simp: sealed_synced_def list_all_iff)
  from finish_append_synced [OF fin, of ss a] this w i
  show "sealed_synced d' w'" and "wl_mode w = FlushSync \<Longrightarrow> all_synced d' w'"
    and "wl_mode w' = wl_mode w" and "wl_dir w' = wl_dir w" by (simp_all add: w1_def)
qed

lemma wal_append_synced:
  assumes app: "wal_append cd (d, w) e = ((d', w'), e', Inr s)"
    and rep: "wal_rep cd (d, w) es t" and sy: "sealed_synced d w"
  shows "sealed_synced d' w' \<and> (wl_mode w = FlushSync \<longrightarrow> all_synced d' w')
    \<and> wl_mode w' = wl_mode w \<and> wl_dir w' = wl_dir w"
proof (cases "wl_active w")
  case None
  with rep have w: "wl_segs w = []" "wl_next w \<noteq> 0" "dir_ok (disk_bytes d) (wl_dir w) []"
    by (auto simp: wal_rep_def segs_rep_def)
  obtain d1 w1 where roll: "roll_locked d w = (d1, w1, None)"
    and app1: "append_open cd d1 w1 (the (wl_active w1)) e = ((d', w'), e', Inr s)"
    using app None by (auto simp: wal_append_def split: prod.splits option.splits)
  note first = roll_locked_first [OF roll w(1) None w(2,3)]
  have "sealed_synced d1 w1" using first(1) [of cd] by (auto simp: sealed_synced_def segs_rep_def dest: sealed_rep_length)
  from append_open_synced [OF app1 first(1) [of cd] _ this] first(4) roll_locked_fields [OF roll]
  show ?thesis by simp
next
  case (Some i)
  with rep obtain lo gs g where r: "segs_rep cd (disk_bytes d) w lo gs g t"
    by (auto simp: wal_rep_def)
  have "append_open cd d w i e = ((d', w'), e', Inr s)"
    using app Some by (simp add: wal_append_def)
  from append_open_synced [OF this r Some sy] show ?thesis by simp
qed

text \<open>An entry whose append returned in sync mode survives every crash, with all before it.\<close>

lemma append_crash_open:
  assumes app: "wal_append cd (d, w) e = ((d1, w1), e', Inr s)" and cd: "codec_ok cd"
    and rep: "wal_rep cd (d, w) es []" and room: "unat (wl_next w) + 1 < 2 ^ 64"
    and sy: "sealed_synced d w" and mode: "wl_mode w = FlushSync"
    and cr: "crashes_to d1 d2" and ok: "dk_faults d1 = []" "op_dir opts \<noteq> []" "op_dir opts = wl_dir w"
  shows "\<exists>w2 n. wal_open cd d2 opts = Done (Inr w2) \<and> wal_rep cd (d2, w2\<lparr>wl_next := n\<rparr>) (es @ [e']) []"
proof -
  have rep1: "wal_rep cd (d1, w1) (es @ [e']) []"
    using wal_append_rep(1) [OF app cd rep] room by (simp add: next_seq_def)
  have sy1: "sealed_synced d1 w1" "all_synced d1 w1" "wl_dir w1 = wl_dir w"
    using wal_append_synced [OF app rep sy] mode by simp_all
  from crash_open [OF rep1 torn_Nil sy1(1) cr ok(1,2)] ok(3) sy1(2,3) show ?thesis by auto
qed

section \<open>Reopening after an orderly shutdown\<close>

lemma seg_data_Nil: "list_all (entry_ok cd) g \<Longrightarrow> seg_data cd g = [] \<longleftrightarrow> g = []"
  by (cases g) (auto dest: rec_of_not_Nil)

lemma wal_close_bytes:
  assumes "wal_close d w = Done (d', w')"
  shows "disk_bytes d' = disk_bytes d \<and> (\<forall>x. faulty d' x = faulty d x)"
proof -
  have "disk_bytes (fst (seg_sync d s)) = disk_bytes d \<and> (\<forall>x. faulty (fst (seg_sync d s)) x = faulty d x)" for s
    using seg_sync_bytes [of d s] file_sync_faulty [of d "sg_path s"]
    by (cases "seg_sync d s") (auto simp: seg_sync_def split: if_splits)
  with assms show ?thesis
    by (auto simp: wal_close_def Let_def split: if_splits option.splits)
qed

lemma reopen_rep:
  assumes rep: "wal_rep cd (d, w) es []" and segs: "wl_segs w \<noteq> []"
    and d': "disk_bytes d' = disk_bytes d" "dk_faults d' = []" and dir: "op_dir opts \<noteq> []" "op_dir opts = wl_dir w"
  shows "\<exists>w'. wal_open cd d' opts = Done (Inr w')
    \<and> wl_next w' = (if disk_bytes d (sg_path (last (wl_segs w))) = Some [] then 1 else wl_next w)
    \<and> wal_rep cd (d', w'\<lparr>wl_next := wl_next w\<rparr>) es []"
proof -
  from rep segs obtain lo gs g where r: "segs_rep cd (disk_bytes d) w lo gs g []" "es = concat gs @ g"
    by (auto simp: wal_rep_def)
  then obtain ss a where s: "wl_segs w = ss @ [a]" "0 < lo"
    "sealed_rep cd (disk_bytes d') (op_dir opts) lo ss gs"
    "active_ok cd (disk_bytes d') (op_dir opts) (lo + length (concat gs)) a g []"
    "unat (wl_next w) = lo + length (concat gs) + length g"
    by (auto simp: segs_rep_def d' dir)
  have n: "unat (wl_next w) < 2 ^ 64" by (rule unat_u64_less)
  have "dir_ok (disk_bytes d') (op_dir opts) (ss @ [a])" using rep by (simp add: wal_rep_def s d' dir)
  from wal_open_segs [OF s(3,4) this silent_Nil s(2) s(5) n d'(2) dir(1)] obtain w' where
    w': "wal_open cd d' opts = Done (Inr w')" "wl_next w' = (if g = [] then 1 else wl_next w)"
    "wal_rep cd (d', w'\<lparr>wl_next := wl_next w\<rparr>) (concat gs @ g) []"
    by (auto simp: s(5) [symmetric])
  have "g = [] \<longleftrightarrow> disk_bytes d (sg_path a) = Some []"
    using s(4) seg_data_Nil [of cd g] by (auto simp: active_ok_def seg_ok_def d')
  with w' r(2) show ?thesis by (auto simp: s(1))
qed

text \<open>
  An append that rolls over leaves an empty last segment. Opening then starts counting
  at 1 again, since only the last segment is looked at.
\<close>

lemma reopen_after_roll:
  assumes app: "wal_append cd (d, w) e = ((d1, w1), e', Inr s)" and cd: "codec_ok cd"
    and rep: "wal_rep cd (d, w) es []" and room: "unat (wl_next w) + 1 < 2 ^ 64"
    and roll: "wl_active w = Some i" "segment_count w1 \<noteq> segment_count w"
    and d2: "disk_bytes d2 = disk_bytes d1" "dk_faults d2 = []" and dir: "op_dir opts \<noteq> []" "op_dir opts = wl_dir w1"
  shows "\<exists>w2. wal_open cd d2 opts = Done (Inr w2) \<and> next_seq (d2, w2) = 1
    \<and> wal_rep cd (d2, w2\<lparr>wl_next := wl_next w1\<rparr>) (es @ [e']) []"
proof -
  from rep roll(1) obtain lo gs g where r: "segs_rep cd (disk_bytes d) w lo gs g []" "es = concat gs @ g"
    and dw: "dir_ok (disk_bytes d) (wl_dir w) (wl_segs w)" by (auto simp: wal_rep_def)
  have "append_open cd d w i e = ((d1, w1), e', Inr s)" using app roll(1) by (simp add: wal_append_def)
  from append_open_rep [OF this cd r(1) roll(1) dw room] roll(2) r(2)
  have rep1: "wal_rep cd (d1, w1) (es @ [e']) []" and "disk_bytes d1 (sg_path (last (wl_segs w1))) = Some []"
    by (simp_all add: segment_count_def)
  moreover have "wl_segs w1 \<noteq> []" using rep1 by (auto simp: wal_rep_def segs_rep_def)
  ultimately show ?thesis using reopen_rep [OF rep1 _ d2 dir] by (auto simp: next_seq_def)
qed

section \<open>Appends succeed\<close>

definition wal_ready :: "wal \<Rightarrow> bool" where
  "wal_ready w = (case wl_active w of None \<Rightarrow> True | Some i \<Rightarrow> i < length (wl_segs w) \<and> sg_file (wl_segs w ! i))"

definition disk_fine :: "disk \<Rightarrow> bool" where
  "disk_fine d \<longleftrightarrow> dk_faults d = [] \<and> dk_space d = None"

lemma disk_fine_not_faulty [simp]: "disk_fine d \<Longrightarrow> \<not> faulty d x"
  by (simp add: disk_fine_def faulty_def)

lemma disk_fine_put [simp]: "disk_fine (disk_put d p f) = disk_fine d"
  by (simp add: disk_fine_def)

lemma disk_fine_append [simp]: "disk_fine (file_append d p b) = disk_fine d"
  by (simp add: file_append_def split: option.splits)

lemma disk_fine_write:
  assumes "disk_fine d"
  shows "\<exists>d'. file_write d p b = (d', None) \<and> disk_fine d'"
proof -
  have "file_write d p b = (file_append d p b, None)"
    using assms by (simp add: file_write_def disk_fine_def)
  with assms show ?thesis by simp
qed

lemma disk_fine_sync: "disk_fine d \<Longrightarrow> \<exists>d'. file_sync d p = (d', None) \<and> disk_fine d'"
  by (simp add: file_sync_def split: option.splits)

lemma disk_fine_create: "disk_fine d \<Longrightarrow> \<exists>d'. file_create d p False = (d', None) \<and> disk_fine d'"
  by (simp add: file_create_def split: option.splits)

lemma write_record_succeeds:
  assumes "disk_fine d" and "sg_file seg" and "pb_marshal cd e = Inr b"
  shows "\<exists>d'. write_record cd d seg e = (d', None) \<and> disk_fine d'"
proof -
  obtain d1 where d1: "file_write d (sg_path seg) (put_uvarint (of_nat (length b))) = (d1, None)" "disk_fine d1"
    using disk_fine_write assms(1) by blast
  obtain d2 where d2: "file_write d1 (sg_path seg) b = (d2, None)" "disk_fine d2"
    using disk_fine_write d1(2) by blast
  obtain d3 where d3: "file_write d2 (sg_path seg) (put_uint32 (crc32_ieee b)) = (d3, None)" "disk_fine d3"
    using disk_fine_write d2(2) by blast
  from d1 d2 d3 assms show ?thesis by (simp add: write_record_def append_record_def seg_write_def)
qed

lemma roll_locked_succeeds:
  assumes "disk_fine d" and "wal_ready w"
  shows "\<exists>d' w' i. roll_locked d w = (d', w', None) \<and> disk_fine d' \<and> wal_ready w' \<and> wl_active w' = Some i"
proof -
  obtain d1 w1 where "seal_active d w = (d1, w1, None)" "disk_fine d1"
  proof (cases "wl_active w")
    case (Some i)
    obtain d1 where "file_sync d (sg_path (wl_segs w ! i)) = (d1, None)" "disk_fine d1"
      using disk_fine_sync assms(1) by blast
    with Some assms(2) that show ?thesis
      by (auto simp: seal_active_def Let_def seg_sync_def wal_ready_def file_close_def)
  qed (use assms that in \<open>auto simp: seal_active_def\<close>)
  moreover obtain d2 where "file_create d1 (wl_dir w1, segment_name (wl_next w1)) False = (d2, None)" "disk_fine d2"
    using disk_fine_create calculation(2) by blast
  ultimately show ?thesis
    by (auto simp: roll_locked_def Let_def wal_ready_def)
qed

lemma finish_append_succeeds:
  assumes "disk_fine d" and "wal_ready w" and "wl_active w = Some i"
  shows "\<exists>d' w'. finish_append d w i = (d', w', None) \<and> disk_fine d' \<and> wal_ready w'"
proof -
  have r: "wal_ready (sized d w i)" using assms by (simp add: wal_ready_def sized_def)
  obtain d2 w2 j where roll: "(if wl_max w \<le> stat_size d (wl_segs w ! i) then roll_locked d (sized d w i) else (d, sized d w i, None)) = (d2, w2, None)"
    "disk_fine d2" "wal_ready w2" "wl_active w2 = Some j"
    using roll_locked_succeeds [OF assms(1) r] assms r
    by (cases "wl_max w \<le> stat_size d (wl_segs w ! i)") auto
  obtain d3 where sync: "(if wl_mode w2 = FlushSync then seg_sync d2 (wl_segs w2 ! the (wl_active w2)) else (d2, None)) = (d3, None)" "disk_fine d3"
    using disk_fine_sync [OF roll(2), of "sg_path (wl_segs w2 ! j)"] roll
    by (cases "wl_mode w2 = FlushSync") (auto simp: seg_sync_def wal_ready_def)
  have "finish_append d w i = (d3, notify_all w2, None)"
    using roll(1) sync(1) by (simp add: finish_append_def Let_def sized_def cong: if_cong)
  moreover have "wal_ready (notify_all w2)" using roll(3) by (simp add: wal_ready_def notify_all_def split: option.splits)
  ultimately show ?thesis using sync(2) by blast
qed

lemma append_open_succeeds:
  assumes "disk_fine d" and "wal_ready w" and "wl_active w = Some i"
    and "pb_marshal cd (e\<lparr>seq_id := wl_next w\<rparr>) = Inr b"
  shows "\<exists>d' w'. append_open cd d w i e = ((d', w'), e\<lparr>seq_id := wl_next w\<rparr>, Inr (wl_next w)) \<and> disk_fine d' \<and> wal_ready w'"
proof -
  obtain d1 where "write_record cd d (wl_segs w ! i) (e\<lparr>seq_id := wl_next w\<rparr>) = (d1, None)" "disk_fine d1"
    using write_record_succeeds [OF assms(1) _ assms(4)] assms(2,3) by (auto simp: wal_ready_def)
  moreover obtain d2 w2 where "finish_append d1 (w\<lparr>wl_next := wl_next w + 1\<rparr>) i = (d2, w2, None)" "disk_fine d2" "wal_ready w2"
    using finish_append_succeeds [OF calculation(2), of "w\<lparr>wl_next := wl_next w + 1\<rparr>" i] assms(2,3)
    by (auto simp: wal_ready_def)
  ultimately show ?thesis by (simp add: append_open_def Let_def)
qed

lemma wal_append_succeeds:
  assumes "disk_fine d" and "wal_ready w" and "pb_marshal cd (e\<lparr>seq_id := wl_next w\<rparr>) = Inr b"
  shows "\<exists>d' w'. wal_append cd (d, w) e = ((d', w'), e\<lparr>seq_id := wl_next w\<rparr>, Inr (wl_next w)) \<and> disk_fine d' \<and> wal_ready w'"
proof (cases "wl_active w")
  case None
  obtain d1 w1 i where r: "roll_locked d w = (d1, w1, None)" "disk_fine d1" "wal_ready w1" "wl_active w1 = Some i"
    using roll_locked_succeeds [OF assms(1,2)] by blast
  moreover have "wl_next w1 = wl_next w" using roll_locked_fields [OF r(1)] by simp
  ultimately show ?thesis using append_open_succeeds [OF r(2-4), of cd e b] assms(3) None
    by (auto simp: wal_append_def)
next
  case (Some i)
  then show ?thesis using append_open_succeeds [OF assms(1,2) Some assms(3)] by (simp add: wal_append_def)
qed


section \<open>A torn tail stays in the file\<close>

text \<open>
  \<open>Open\<close> does not cut a torn record off. While the claimed length reaches past what is
  appended after it, those appends return success and \<open>ReadFrom\<close> does not see them.
\<close>

lemma finish_append_no_roll:
  assumes "disk_fine d" and "wal_ready w" and "wl_active w = Some i" and "stat_size d (wl_segs w ! i) < wl_max w"
  shows "\<exists>d'. finish_append d w i = (d', notify_all (sized d w i), None) \<and> disk_bytes d' = disk_bytes d \<and> disk_fine d'"
proof -
  obtain d2 where d2: "file_sync d (sg_path (wl_segs w ! i)) = (d2, None)" "disk_fine d2"
    using disk_fine_sync [OF assms(1)] by blast
  then show ?thesis
    using assms disk_bytes_sync [OF d2(1)]
    by (cases "wl_mode w = FlushSync") (auto simp: finish_append_def Let_def sized_def seg_sync_def wal_ready_def)
qed

lemma append_after_torn:
  assumes rep: "segs_rep cd (disk_bytes d) w lo gs g t" and i: "wl_active w = Some i"
    and fine: "disk_fine d" "wal_ready w" and cd: "codec_ok cd"
    and m: "pb_marshal cd (e\<lparr>seq_id := wl_next w\<rparr>) = Inr b'"
    and t: "t = put_uvarint (of_nat (length b)) @ p" "body_ok b"
    and short: "length p + length (record_bytes b') < length b + 4"
    and room: "int (length (seg_data cd g @ t @ record_bytes b')) < wl_max w"
  shows "\<exists>d' w'. wal_append cd (d, w) e = ((d', w'), e\<lparr>seq_id := wl_next w\<rparr>, Inr (wl_next w))
    \<and> disk_fine d' \<and> segs_rep cd (disk_bytes d') (w'\<lparr>wl_next := wl_next w\<rparr>) lo gs g (t @ record_bytes b')
    \<and> silent (t @ record_bytes b')"
proof -
  let ?e = "e\<lparr>seq_id := wl_next w\<rparr>" and ?w = "w\<lparr>wl_next := wl_next w + 1\<rparr>"
  obtain ss a where w: "wl_segs w = ss @ [a]" "i = length ss" "0 < lo"
    and sealed: "sealed_rep cd (disk_bytes d) (wl_dir w) lo ss gs"
    and act: "active_ok cd (disk_bytes d) (wl_dir w) (lo + length (concat gs)) a g t"
    and nxt: "unat (wl_next w) = lo + length (concat gs) + length g"
    using rep i by (auto simp: segs_rep_def)
  obtain d1 where wr: "write_record cd d (wl_segs w ! i) ?e = (d1, None)" "disk_fine d1"
    using write_record_succeeds [OF fine(1) _ m] fine(2) i by (auto simp: wal_ready_def)
  have db: "disk_bytes d1 = (disk_bytes d)(sg_path a := Some (seg_data cd g @ t @ record_bytes b'))"
    using write_record_ok [OF cd wr(1)] w act m by (auto simp: active_ok_def rec_of_def)
  have st: "stat_size d1 a < wl_max w"
  proof -
    have "sg_file a" using fine(2) i w by (simp add: wal_ready_def)
    then have "stat_size d1 a = int (length (seg_data cd g @ t @ record_bytes b'))"
      using fun_cong [OF db, of "sg_path a"] wr(2) by (auto simp: stat_size_def disk_bytes_def)
    with room show ?thesis by simp
  qed
  obtain d2 where fin: "finish_append d1 ?w i = (d2, notify_all (sized d1 ?w i), None)" "disk_bytes d2 = disk_bytes d1" "disk_fine d2"
    using finish_append_no_roll [of d1 ?w i] wr(2) fine(2) i st w by (auto simp: wal_ready_def)
  have app: "wal_append cd (d, w) e = ((d2, notify_all (sized d1 ?w i)), ?e, Inr (wl_next w))"
    using i wr(1) fin(1) by (simp add: wal_append_def append_open_def Let_def)
  have "sg_path s \<noteq> sg_path a" if "s \<in> set ss" for s
    using sealed_rep_ids [OF sealed that] act by (auto simp: active_ok_def seg_ok_def)
  then have "sealed_rep cd (disk_bytes d1) (wl_dir w) lo ss gs"
    using sealed by (intro sealed_rep_cong [OF sealed]) (simp add: db)
  moreover have "active_ok cd (disk_bytes d1) (wl_dir w) (lo + length (concat gs)) a g (t @ record_bytes b')"
    using act by (auto simp: active_ok_def db)
  ultimately have "segs_rep cd (disk_bytes d2) ((notify_all (sized d1 ?w i))\<lparr>wl_next := wl_next w\<rparr>) lo gs g (t @ record_bytes b')"
    using w nxt i by (auto simp: segs_rep_def sized_def notify_all_def fin(2) active_ok_def seg_ok_def)
  moreover have "silent (t @ record_bytes b')"
    using parse_record_short [OF t(2)] short by (simp add: silent_def t(1))
  ultimately show ?thesis using app fin(3) by blast
qed


lemma append_swallowed:
  assumes "wal_rep cd (d, w) es t" and i: "wl_active w = Some i"
    and fine: "disk_fine d" "wal_ready w" and cd: "codec_ok cd"
    and m: "pb_marshal cd (e\<lparr>seq_id := wl_next w\<rparr>) = Inr b'"
    and t: "t = put_uvarint (of_nat (length b)) @ p" "body_ok b"
    and short: "length p + length (record_bytes b') < length b + 4"
    and room: "int (length (the (disk_bytes d (sg_path (wl_segs w ! i)))) + length (record_bytes b')) < wl_max w"
  shows "\<exists>dw'. wal_append cd (d, w) e = (dw', e\<lparr>seq_id := wl_next w\<rparr>, Inr (wl_next w))
    \<and> (\<forall>fr n. 0 < n \<longrightarrow> read_from cd dw' fr (int n) = Done (Inr (take n (wanted fr es))))"
proof -
  obtain lo gs g where r: "segs_rep cd (disk_bytes d) w lo gs g t" "es = concat gs @ g"
    using assms(1) i by (auto simp: wal_rep_def)
  then have "the (disk_bytes d (sg_path (wl_segs w ! i))) = seg_data cd g @ t"
    using i by (auto simp: segs_rep_def active_ok_def)
  with room have "int (length (seg_data cd g @ t @ record_bytes b')) < wl_max w" by simp
  from append_after_torn [OF r(1) i fine cd m t short this] obtain d' w' where
    app: "wal_append cd (d, w) e = ((d', w'), e\<lparr>seq_id := wl_next w\<rparr>, Inr (wl_next w))" "disk_fine d'"
    and rep': "segs_rep cd (disk_bytes d') (w'\<lparr>wl_next := wl_next w\<rparr>) lo gs g (t @ record_bytes b')"
    and sil: "silent (t @ record_bytes b')" by blast
  have "read_from cd (d', w') fr (int n) = Done (Inr (take n (wanted fr es)))" if "0 < n" for fr n
    using read_from_segs [OF rep' sil _ that, of fr] app(2) r(2) by simp
  with app(1) show ?thesis by blast
qed

end
