(* ===== verification/Wire.thy ===== *)
theory Wire
  imports Message
begin

text \<open>
  An instance of the \<open>codec\<close> interface: the proto3 wire format of the message \<open>WalEntry\<close>
  (field 1 a varint, field 3 repeated bytes, field 4 a varint, zero fields left out), with
  the size limit of the library. It shows that the interface can be met and gives the
  concrete runs of the development their messages.
\<close>

section \<open>Encoding\<close>

definition tag_seq :: char where "tag_seq = CHR 0x08"
definition tag_args :: char where "tag_args = CHR 0x1A"
definition tag_ts :: char where "tag_ts = CHR 0x20"

definition enc_varint :: "char \<Rightarrow> u64 \<Rightarrow> bytes" where
  "enc_varint tag v = (if v = 0 then [] else tag # put_uvarint v)"

definition enc_arg :: "bytes \<Rightarrow> bytes" where
  "enc_arg a = tag_args # put_uvarint (of_nat (length a)) @ a"

definition enc_entry :: "walentry \<Rightarrow> bytes" where
  "enc_entry e = enc_varint tag_seq (seq_id e) @ concat (map enc_arg (args e))
     @ enc_varint tag_ts (word_of_int (timestamp_ms e))"

definition wire_limit :: nat where "wire_limit = 2 ^ 31"

definition wire_marshal :: "walentry \<Rightarrow> string + bytes" where
  "wire_marshal e =
     (let b = enc_entry e in
      if timestamp_ms e < min_int64 \<or> max_int64 < timestamp_ms e then Inl ''timestamp out of range''
      else if wire_limit \<le> length b then Inl ''message too large''
      else Inr b)"

section \<open>Decoding\<close>

fun dec_fields :: "nat \<Rightarrow> walentry \<Rightarrow> bytes \<Rightarrow> string + walentry" where
  "dec_fields k e [] = Inr e"
| "dec_fields 0 e (tag # bs) = Inl ''cannot parse invalid wire-format data''"
| "dec_fields (Suc k) e (tag # bs) =
     (case uvarint bs of
        (v, n) \<Rightarrow>
          let rest = drop (nat n) bs in
          if n \<le> 0 then Inl ''cannot parse invalid wire-format data''
          else if tag = tag_seq then dec_fields k (e\<lparr>seq_id := v\<rparr>) rest
          else if tag = tag_ts then dec_fields k (e\<lparr>timestamp_ms := sint v\<rparr>) rest
          else if tag = tag_args \<and> unat v \<le> length rest
            then dec_fields k (e\<lparr>args := args e @ [take (unat v) rest]\<rparr>) (drop (unat v) rest)
          else Inl ''cannot parse invalid wire-format data'')"

definition wire_unmarshal :: "bytes \<Rightarrow> string + walentry" where
  "wire_unmarshal b = dec_fields (length b) \<lparr>seq_id = 0, args = [], timestamp_ms = 0\<rparr> b"

definition wire :: codec where
  "wire = \<lparr>pb_marshal = wire_marshal, pb_unmarshal = wire_unmarshal\<rparr>"

section \<open>Round trip\<close>

lemma tags_distinct [simp]:
  "tag_seq \<noteq> tag_args" "tag_args \<noteq> tag_seq" "tag_seq \<noteq> tag_ts" "tag_ts \<noteq> tag_seq"
  "tag_args \<noteq> tag_ts" "tag_ts \<noteq> tag_args"
  by (simp_all add: tag_seq_def tag_args_def tag_ts_def)

lemma dec_enc_seq:
  "dec_fields (Suc k) e (tag_seq # put_uvarint v @ bs) = dec_fields k (e\<lparr>seq_id := v\<rparr>) bs"
  by (simp add: uvarint_put)

lemma dec_enc_ts:
  "dec_fields (Suc k) e (tag_ts # put_uvarint v @ bs) = dec_fields k (e\<lparr>timestamp_ms := sint v\<rparr>) bs"
  by (simp add: uvarint_put)

lemma dec_enc_arg:
  assumes "length a < wire_limit"
  shows "dec_fields (Suc k) e (enc_arg a @ bs) = dec_fields k (e\<lparr>args := args e @ [a]\<rparr>) bs"
proof -
  have "unat (of_nat (length a) :: u64) = length a"
    using assms by (intro unat_u64_of_nat) (simp add: wire_limit_def)
  then show ?thesis by (simp add: enc_arg_def uvarint_put)
qed

lemma dec_enc_args:
  "list_all (\<lambda>a. length a < wire_limit) as \<Longrightarrow>
   dec_fields (length as + k) e (concat (map enc_arg as) @ bs) = dec_fields k (e\<lparr>args := args e @ as\<rparr>) bs"
proof (induction as arbitrary: e)
  case Nil
  then show ?case by simp
next
  case (Cons a as)
  then show ?case using dec_enc_arg [of a "length as + k" e] by simp
qed

lemma sint_timestamp: "min_int64 \<le> t \<Longrightarrow> t \<le> max_int64 \<Longrightarrow> sint (word_of_int t :: u64) = t"
  by (simp add: min_int64_def max_int64_def signed_take_bit_int_eq_self sint_sbintrunc')

lemma enc_arg_bounds:
  "a \<in> set as \<Longrightarrow> length a < length (concat (map enc_arg as))"
  "length as \<le> length (concat (map enc_arg as))"
  by (induction as) (auto simp: enc_arg_def)

lemma wire_roundtrip:
  assumes "wire_marshal e = Inr b"
  shows "wire_unmarshal b = Inr e"
proof -
  from assms have b: "b = enc_entry e" "length b < wire_limit" "min_int64 \<le> timestamp_ms e" "timestamp_ms e \<le> max_int64"
    by (auto simp: wire_marshal_def Let_def split: if_splits)
  let ?A = "concat (map enc_arg (args e))" and ?T = "enc_varint tag_ts (word_of_int (timestamp_ms e))"
  have small: "list_all (\<lambda>a. length a < wire_limit) (args e)"
    using enc_arg_bounds(1) [of _ "args e"] b(1,2) by (fastforce simp: list_all_iff enc_entry_def)
  have T: "dec_fields k e0 ?T = Inr (if word_of_int (timestamp_ms e) = (0 :: u64) then e0 else e0\<lparr>timestamp_ms := timestamp_ms e\<rparr>)"
    if "length ?T \<le> k" for k e0
    using that dec_enc_ts [of "k - 1" e0 "word_of_int (timestamp_ms e)" "[]"] sint_timestamp [OF b(3,4)]
    by (cases k) (auto simp: enc_varint_def)
  have z: "timestamp_ms e = 0" if "word_of_int (timestamp_ms e) = (0 :: u64)"
    using sint_timestamp [OF b(3,4)] that by simp
  have A: "dec_fields k e0 (?A @ ?T) = Inr (e0\<lparr>args := args e0 @ args e, timestamp_ms := timestamp_ms e\<rparr>)"
    if "length (?A @ ?T) \<le> k" "timestamp_ms e0 = 0" for k e0
  proof -
    define j where "j = k - length (args e)"
    have k: "k = length (args e) + j" and j: "length ?T \<le> j"
      using that(1) enc_arg_bounds(2) [of "args e"] by (simp_all add: j_def)
    show ?thesis using dec_enc_args [OF small, of j e0 ?T] T [OF j] that(2) z by (auto simp: k)
  qed
  show ?thesis
  proof (cases "seq_id e = 0")
    case True
    then show ?thesis using A [of "length b"] by (simp add: wire_unmarshal_def b(1) enc_entry_def enc_varint_def)
  next
    case False
    then have eq: "b = tag_seq # put_uvarint (seq_id e) @ ?A @ ?T"
      by (simp add: b(1) enc_entry_def enc_varint_def)
    define k where "k = length (put_uvarint (seq_id e) @ ?A @ ?T)"
    have k: "length b = Suc k" by (simp add: eq k_def)
    have le: "length (?A @ ?T) \<le> k" by (simp add: k_def)
    show ?thesis
      unfolding wire_unmarshal_def k unfolding eq dec_enc_seq
      by (subst A [OF le]) simp_all
  qed
qed

lemma wire_ok: "codec_ok wire"
  using wire_roundtrip
  by (auto simp: codec_ok_def wire_def body_ok_def wire_marshal_def Let_def wire_limit_def split: if_splits)

lemma length_put_uvarint_bound: "unat x < 2 ^ (7 * Suc n) \<Longrightarrow> length (put_uvarint x) \<le> Suc n"
proof (induction n arbitrary: x)
  case 0
  then have "x < 0x80" by (simp add: word_less_nat_alt)
  then show ?case by (subst put_uvarint.simps) simp
next
  case (Suc n)
  have "unat (drop_bit 7 x) < 2 ^ (7 * Suc n)"
    using Suc.prems less_mult_imp_div_less [of "unat x" "2 ^ (7 * Suc n)" 128]
    by (simp add: drop_bit_eq_div unat_div power_add)
  from Suc.IH [OF this] show ?case by (subst put_uvarint.simps) simp
qed

lemma length_put_uvarint: "length (put_uvarint x) \<le> 10"
proof -
  have "unat x < 2 ^ (7 * Suc 9)" using unat_u64_less [of x] by simp
  from length_put_uvarint_bound [OF this] show ?thesis by simp
qed

text \<open>Every entry of moderate size is accepted.\<close>

lemma wire_marshal_short:
  assumes "22 + sum_list (map (\<lambda>x. 11 + length x) (args e)) < wire_limit" and "min_int64 \<le> timestamp_ms e" and "timestamp_ms e \<le> max_int64"
  shows "\<exists>b. pb_marshal wire e = Inr b \<and> length b \<le> 22 + sum_list (map (\<lambda>x. 11 + length x) (args e))"
proof -
  have v: "length (enc_varint t v) \<le> 11" for t and v :: u64
    using length_put_uvarint [of v] by (simp add: enc_varint_def)
  have "length (enc_arg x) \<le> 11 + length x" for x
    using length_put_uvarint [of "of_nat (length x)"] by (simp add: enc_arg_def)
  then have c: "length (concat (map enc_arg as)) \<le> sum_list (map (\<lambda>x. 11 + length x) as)" for as
    by (induction as) (simp, simp add: add_le_mono)
  have "length (enc_entry e) \<le> 22 + sum_list (map (\<lambda>x. 11 + length x) (args e))"
    using v [of tag_seq "seq_id e"] v [of tag_ts "word_of_int (timestamp_ms e)"] c [of "args e"]
    unfolding enc_entry_def length_append by linarith
  then show ?thesis using assms by (auto simp: wire_def wire_marshal_def Let_def)
qed

end
