(* ===== verification/Log_Spec.thy ===== *)
theory Log_Spec
  imports Wal_Recovery Wire
begin

text \<open>
  The interface of a log that numbers its entries, as the replication server and the
  dispatcher rely on it, what follows from it, and the write-ahead log as its provider.
\<close>

section \<open>The interface\<close>

fun appends :: "('s \<Rightarrow> walentry \<Rightarrow> 's \<times> walentry \<times> ('e + u64)) \<Rightarrow> 's \<Rightarrow> walentry list \<Rightarrow>
    ('s \<times> walentry list) option" where
  "appends app s [] = Some (s, [])"
| "appends app s (e # es) =
     (case app s e of
        (s', e', Inl _) \<Rightarrow> None
      | (s', e', Inr _) \<Rightarrow> map_option (\<lambda>(s2, es'). (s2, e' # es')) (appends app s' es))"

text \<open>Reading on from the end of the last batch until there is nothing more.\<close>

fun drain :: "nat \<Rightarrow> (u64 \<Rightarrow> ('e + walentry list) outcome) \<Rightarrow> u64 \<Rightarrow> walentry list list option" where
  "drain 0 rd c = None"
| "drain (Suc f) rd c =
     (case rd c of
        Done (Inr []) \<Rightarrow> Some []
      | Done (Inr (e # b)) \<Rightarrow> map_option (Cons (e # b)) (drain f rd (seq_id (last (e # b)) + 1))
      | _ \<Rightarrow> None)"

locale ordered_log =
  fixes rep :: "'s \<Rightarrow> walentry list \<Rightarrow> bool"
    and app :: "'s \<Rightarrow> walentry \<Rightarrow> 's \<times> walentry \<times> ('e + u64)"
    and rd :: "'s \<Rightarrow> u64 \<Rightarrow> int \<Rightarrow> ('e + walentry list) outcome"
    and nxt :: "'s \<Rightarrow> u64"
    and mn :: "'s \<Rightarrow> u64"
  assumes app_rep: "rep s es \<Longrightarrow> app s e = (s', e', Inr n) \<Longrightarrow> unat (nxt s) + 1 < 2 ^ 64 \<Longrightarrow>
      rep s' (es @ [e']) \<and> n = nxt s \<and> e' = e\<lparr>seq_id := nxt s\<rparr> \<and> nxt s' = nxt s + 1"
    and rd_rep: "rep s es \<Longrightarrow> 0 < k \<Longrightarrow> rd s fr (int k) = Done (Inr (take k (wanted fr es)))"
    and rep_seqs: "rep s es \<Longrightarrow> seqs es = [unat (nxt s) - length es..<unat (nxt s)] \<and> length es < unat (nxt s)"
    and rep_min: "rep s es \<Longrightarrow> es \<noteq> [] \<Longrightarrow> mn s = seq_id (hd es)"
begin

lemma appends_rep:
  assumes "rep s es" and "appends app s xs = Some (s', ys)" and "unat (nxt s) + length xs < 2 ^ 64"
  shows "rep s' (es @ ys) \<and> unat (nxt s') = unat (nxt s) + length xs \<and> map args ys = map args xs"
  using assms
proof (induction xs arbitrary: s es ys)
  case Nil
  then show ?case by simp
next
  case (Cons x xs)
  obtain s1 e1 r where x: "app s x = (s1, e1, r)" by (metis prod_cases3)
  with Cons.prems(2) obtain n zs where r: "r = Inr n" "appends app s1 xs = Some (s', zs)" "ys = e1 # zs"
    by (auto split: sum.splits)
  from app_rep [OF Cons.prems(1) x [unfolded r(1)]] Cons.prems(3)
  have one: "rep s1 (es @ [e1])" "e1 = x\<lparr>seq_id := nxt s\<rparr>" "nxt s1 = nxt s + 1" by auto
  then have "unat (nxt s1) = Suc (unat (nxt s))" using unat_Suc Cons.prems(3) by simp
  with Cons.IH [OF one(1) r(2)] Cons.prems(3) show ?case by (simp add: r(3) one(2))
qed

text \<open>
  What a reader asks for is a suffix of the log, and an entry appended is read back at its
  sequence number.
\<close>

lemma wanted_drop:
  assumes "rep s es"
  shows "wanted fr es = drop (unat fr - (unat (nxt s) - length es)) es"
proof -
  have "wanted fr xs = drop (unat fr - lo) xs" if "seqs xs = [lo..<lo + length xs]" for xs lo
    using that
  proof (induction xs arbitrary: lo)
    case (Cons x xs)
    then have x: "unat (seq_id x) = lo" "seqs xs = [Suc lo..<Suc lo + length xs]"
      by (auto simp: upt_conv_Cons simp del: upt_Suc)
    show ?case
    proof (cases "fr \<le> seq_id x")
      case True
      then have "unat fr \<le> lo" by (simp add: word_le_nat_alt x)
      with True Cons.IH [OF x(2)] show ?thesis by simp
    next
      case False
      then have "unat fr - lo = Suc (unat fr - Suc lo)" by (simp add: word_le_nat_alt x)
      with False Cons.IH [OF x(2)] show ?thesis by simp
    qed
  qed simp
  moreover have "unat (nxt s) = unat (nxt s) - length es + length es" using rep_seqs [OF assms] by simp
  ultimately show ?thesis using rep_seqs [OF assms] by metis
qed

lemma read_own_append:
  assumes "rep s es" and "app s e = (s', e', Inr n)" and "unat (nxt s) + 1 < 2 ^ 64" and "0 < k"
  shows "rd s' n (int k) = Done (Inr [e'])"
proof -
  from app_rep [OF assms(1-3)] have a: "rep s' (es @ [e'])" "n = nxt s" "nxt s' = nxt s + 1" by auto
  have "unat (nxt s') = Suc (unat (nxt s))" using a(3) unat_Suc assms(3) by simp
  with wanted_drop [OF a(1), of n] rep_seqs [OF assms(1)] have "wanted n (es @ [e']) = [e']" by (simp add: a(2))
  with rd_rep [OF a(1) assms(4), of n] assms(4) show ?thesis by (simp only: take_all_iff) simp
qed

text \<open>
  A batch read from a cursor, and the cursor behind its last entry: what is left to read is
  what the batch did not contain.
\<close>

lemma next_cursor:
  assumes rep: "rep s es" and b: "b = take k (wanted c es)" "b \<noteq> []"
  shows "wanted (seq_id (last b) + 1) es = drop (length b) (wanted c es)"
    and "unat (seq_id (last b) + 1) \<le> unat (nxt s)"
    and "drop (length b) (wanted c es) = [] \<Longrightarrow> seq_id (last b) + 1 = nxt s"
proof -
  let ?lo = "unat (nxt s) - length es" and ?n = "unat (nxt s)" and ?c = "seq_id (last b) + 1"
  define i where "i = unat c - ?lo"
  have W: "wanted c es = drop i es" unfolding i_def by (rule wanted_drop [OF rep])
  have es: "seqs es = [?lo..<?n]" "length es < ?n" using rep_seqs [OF rep] by simp_all
  have len: "0 < length b" "length b \<le> length es - i" using b by (simp_all add: W)
  then have j: "i + length b - 1 < length es" by linarith
  have "last b = es ! (i + length b - 1)"
    using len b by (subst last_conv_nth) (auto simp: W)
  moreover have "seqs es ! (i + length b - 1) = unat (seq_id (es ! (i + length b - 1)))" using j by (simp add: seqs_def)
  moreover have "[?lo..<?n] ! (i + length b - 1) = ?lo + (i + length b - 1)"
    using es(2) j by (intro nth_upt) linarith
  ultimately have "unat (seq_id (last b)) = ?lo + (i + length b - 1)" using es(1) by (simp only:)
  moreover have "?lo + (i + length b - 1) + 1 \<le> ?n" using j es(2) by linarith
  ultimately have c: "unat ?c = ?lo + i + length b" "unat ?c \<le> ?n"
    using unat_Suc [of "seq_id (last b)"] unat_u64_less [of "nxt s"] len by simp_all
  have "unat ?c - ?lo = length b + i" using c(1) by linarith
  then show "wanted ?c es = drop (length b) (wanted c es)"
    using wanted_drop [OF rep, of ?c] by (simp only: W drop_drop)
  show "unat ?c \<le> ?n" by (rule c(2))
  assume "drop (length b) (wanted c es) = []"
  then have "length es \<le> length b + i" by (simp add: W)
  with j len es(2) c(1) have "unat ?c = ?n" by linarith
  then show "?c = nxt s" by (simp add: word_unat_eq_iff)
qed

lemma wanted_end: "rep s es \<Longrightarrow> wanted (nxt s) es = []"
  using wanted_drop [of s es "nxt s"] rep_seqs [of s es] by simp

text \<open>Reading in batches gives every entry from the cursor on, once and in order.\<close>

lemma drain_rep:
  assumes rep: "rep s es" and k: "0 < k" and f: "length (wanted c es) < f"
  shows "\<exists>bs. drain f (\<lambda>c. rd s c (int k)) c = Some bs \<and> concat bs = wanted c es \<and> list_all (\<lambda>b. length b \<le> k) bs"
  using f
proof (induction f arbitrary: c)
  case 0
  then show ?case by simp
next
  case (Suc f)
  note read = rd_rep [OF rep k, of c]
  show ?case
  proof (cases "take k (wanted c es)")
    case Nil
    with k have "wanted c es = []" by simp
    with read show ?thesis by simp
  next
    case (Cons x b)
    note n = next_cursor [OF rep Cons [symmetric]]
    have less: "length (wanted (seq_id (last (x # b)) + 1) es) < f"
      using Suc.prems arg_cong [OF Cons, of length] unfolding n(1) [OF list.distinct(2)] by simp
    from Suc.IH [OF less] obtain bs where bs:
      "drain f (\<lambda>c. rd s c (int k)) (seq_id (last (x # b)) + 1) = Some bs"
      "concat bs = drop (length (x # b)) (wanted c es)" "list_all (\<lambda>b. length b \<le> k) bs"
      unfolding n(1) [OF list.distinct(2)] by blast
    have len: "length (x # b) = min (length (wanted c es)) k" using arg_cong [OF Cons, of length] by simp
    then have "concat ((x # b) # bs) = wanted c es"
      using bs(2) by (metis Cons append_take_drop_id concat.simps(2) length_take take_take min.commute min.idem min.left_idem take_all_iff nle_le)
    moreover have "drain (Suc f) (\<lambda>c. rd s c (int k)) c = Some ((x # b) # bs)" using read bs(1) Cons by simp
    moreover have "list_all (\<lambda>b. length b \<le> k) ((x # b) # bs)" using bs(3) len by simp
    ultimately show ?thesis by blast
  qed
qed

end

section \<open>The write-ahead log provides it\<close>

lemma seg_sync_faulty: "seg_sync d s = (d', r) \<Longrightarrow> faulty d' x = faulty d x"
  by (auto simp: seg_sync_def file_sync_faulty split: if_splits)

lemma file_create_faulty: "file_create d p b = (d', r) \<Longrightarrow> faulty d' x = faulty d x"
  by (auto simp: file_create_def split: if_splits option.splits)

lemma roll_locked_faulty: "roll_locked d w = (d', w', r) \<Longrightarrow> faulty d' x = faulty d x"
  by (auto simp: roll_locked_def seal_active_def Let_def
      split: option.splits prod.splits dest!: seg_sync_faulty [where x = x] file_create_faulty [where x = x])

lemma write_record_faulty: "write_record cd d s e = (d', r) \<Longrightarrow> faulty d' x = faulty d x"
  by (auto simp: write_record_def append_record_def seg_write_def
      split: sum.splits prod.splits option.splits if_splits dest!: file_write_faulty [where x = x])

lemma finish_append_faulty: "finish_append d w i = (d', w', r) \<Longrightarrow> faulty d' x = faulty d x"
  by (auto simp: finish_append_def Let_def
      split: option.splits prod.splits if_splits dest!: seg_sync_faulty [where x = x] roll_locked_faulty [where x = x])

lemma append_open_faulty: "append_open cd d w i e = ((d', w'), e', r) \<Longrightarrow> faulty d' x = faulty d x"
  by (auto simp: append_open_def Let_def
      split: option.splits prod.splits dest!: finish_append_faulty [where x = x] write_record_faulty [where x = x])

lemma wal_append_faulty:
  "wal_append cd dw e = (dw', e', r) \<Longrightarrow> faulty (fst dw') x = faulty (fst dw) x"
  by (cases dw') (auto simp: wal_append_def
      split: option.splits prod.splits dest!: append_open_faulty [where x = x] roll_locked_faulty [where x = x])

definition wal_log :: "codec \<Rightarrow> disk \<times> wal \<Rightarrow> walentry list \<Rightarrow> bool" where
  "wal_log cd dw es \<longleftrightarrow> wal_rep cd dw es [] \<and> \<not> faulty (fst dw) FOpen"

lemma wal_rep_seqs:
  assumes "wal_rep cd dw es t"
  shows "seqs es = [unat (next_seq dw) - length es..<unat (next_seq dw)] \<and> length es < unat (next_seq dw)"
    and "es \<noteq> [] \<Longrightarrow> min_seq dw = seq_id (hd es)"
proof -
  obtain d w where dw: "dw = (d, w)" by fastforce
  consider "wl_next w \<noteq> 0" "es = []"
    | lo gs g where "segs_rep cd (disk_bytes d) w lo gs g t" "es = concat gs @ g"
    using assms by (auto simp: wal_rep_def dw)
  then have "seqs es = [unat (wl_next w) - length es..<unat (wl_next w)] \<and> length es < unat (wl_next w)
    \<and> (es \<noteq> [] \<longrightarrow> min_seq dw = seq_id (hd es))"
  proof cases
    case 1
    then show ?thesis by (simp add: u64_pos)
  next
    case 2
    note q = segs_rep_seqs(1) [OF 2(1)]
    have len: "unat (wl_next w) = lo + length es" "0 < lo" using 2 by (auto simp: segs_rep_def)
    moreover have "unat (min_seq dw) = lo"
    proof -
      obtain ss a where s: "wl_segs w = ss @ [a]" "sealed_rep cd (disk_bytes d) (wl_dir w) lo ss gs"
        "active_ok cd (disk_bytes d) (wl_dir w) (lo + length (concat gs)) a g t"
        using 2(1) by (auto simp: segs_rep_def)
      then show ?thesis
        by (cases ss; cases gs) (auto simp: dw min_seq_def active_ok_def seg_ok_def sealed_ok_def)
    qed
    moreover have "unat (seq_id (hd es)) = lo" if "es \<noteq> []"
      using q that len by (cases es) (auto simp: 2(2) [symmetric] upt_conv_Cons simp del: upt_Suc)
    ultimately show ?thesis using q by (auto simp: 2(2) [symmetric] word_unat_eq_iff)
  qed
  then show "seqs es = [unat (next_seq dw) - length es..<unat (next_seq dw)] \<and> length es < unat (next_seq dw)"
    and "es \<noteq> [] \<Longrightarrow> min_seq dw = seq_id (hd es)" by (simp_all add: next_seq_def dw)
qed

lemma wal_ordered_log:
  assumes cd_ok: "codec_ok cd"
  shows "ordered_log (wal_log cd) (wal_append cd) (read_from cd) next_seq min_seq"
proof unfold_locales
  fix s es e s' e' n
  assume log: "wal_log cd s es" and app: "wal_append cd s e = (s', e', Inr n)" and room: "unat (next_seq s) + 1 < 2 ^ 64"
  show "wal_log cd s' (es @ [e']) \<and> n = next_seq s \<and> e' = e\<lparr>seq_id := next_seq s\<rparr> \<and> next_seq s' = next_seq s + 1"
    using wal_append_rep [OF app cd_ok _ room] wal_append_faulty [OF app] log by (auto simp: wal_log_def)
next
  fix s es and k :: nat and fr
  assume "wal_log cd s es" and "0 < k"
  then show "read_from cd s fr (int k) = Done (Inr (take k (wanted fr es)))"
    by (intro read_from_rep [of _ _ _ "[]"]) (auto simp: wal_log_def)
qed (use wal_rep_seqs in \<open>auto simp: wal_log_def\<close>)

locale wal_codec =
  fixes cd :: codec
  assumes cd_ok: "codec_ok cd"

sublocale wal_codec \<subseteq> ordered_log "wal_log cd" "wal_append cd" "read_from cd" next_seq min_seq
  using cd_ok by (rule wal_ordered_log)

interpretation wire: wal_codec wire
  by unfold_locales (rule wire_ok)

section \<open>Whole runs\<close>

lemma appends_succeed:
  assumes "disk_fine d" and "wal_ready w" and "\<And>x n. x \<in> set xs \<Longrightarrow> \<exists>b. pb_marshal cd (x\<lparr>seq_id := n\<rparr>) = Inr b"
  shows "\<exists>dw' ys. appends (wal_append cd) (d, w) xs = Some (dw', ys)"
  using assms
proof (induction xs arbitrary: d w)
  case Nil
  then show ?case by simp
next
  case (Cons x xs)
  obtain b where "pb_marshal cd (x\<lparr>seq_id := wl_next w\<rparr>) = Inr b" using Cons.prems(3) [of x] by auto
  from wal_append_succeeds [OF Cons.prems(1,2) this] obtain d' w' where
    w: "wal_append cd (d, w) x = ((d', w'), x\<lparr>seq_id := wl_next w\<rparr>, Inr (wl_next w))" "disk_fine d'" "wal_ready w'" by blast
  from Cons.IH [OF w(2,3)] Cons.prems(3) obtain dw' ys where "appends (wal_append cd) (d', w') xs = Some (dw', ys)"
    by auto
  with w(1) show ?case by simp
qed

definition demo_disk :: disk where
  "demo_disk = \<lparr>dk_files = [], dk_space = None, dk_faults = []\<rparr>"

definition demo_opts :: "int \<Rightarrow> wal_options" where
  "demo_opts mx = \<lparr>op_dir = ''d'', op_segment_max = mx, op_flush = FlushSync, op_flush_interval = 0\<rparr>"

definition demo_wal :: "int \<Rightarrow> wal" where
  "demo_wal mx = (fresh_wal (demo_opts mx))\<lparr>wl_next := 1\<rparr>"

definition demo_entry :: walentry where
  "demo_entry = \<lparr>seq_id = 0, args = [''SET'', ''k'', ''v''], timestamp_ms = 7\<rparr>"

lemma demo_fine [simp]: "disk_fine demo_disk" "dk_faults demo_disk = []" "disk_bytes demo_disk p = None"
  by (simp_all add: disk_fine_def demo_disk_def disk_bytes_def disk_file_def)

lemma demo_dir_ok [simp]: "dir_ok (disk_bytes demo_disk) dir []"
  by (simp add: dir_ok_def)

lemma demo_wal_simps [simp]:
  "wl_segs (demo_wal mx) = []" "wl_active (demo_wal mx) = None" "wl_next (demo_wal mx) = 1"
  "wl_dir (demo_wal mx) = ''d''" "wl_mode (demo_wal mx) = FlushSync" "mx \<noteq> 0 \<Longrightarrow> wl_max (demo_wal mx) = mx"
  by (simp_all add: demo_wal_def fresh_wal_def demo_opts_def)

lemma demo_ready [simp]: "wal_ready (demo_wal mx)"
  by (simp add: wal_ready_def)

lemma demo_log: "wal_rep cd (demo_disk, demo_wal mx) [] []" "wal_log cd (demo_disk, demo_wal mx) []"
  by (simp_all add: wal_log_def wal_rep_def)

lemma demo_marshal_length: "\<exists>b. pb_marshal wire (demo_entry\<lparr>seq_id := n\<rparr>) = Inr b \<and> length b \<le> 62"
  using wire_marshal_short [of "demo_entry\<lparr>seq_id := n\<rparr>"]
  by (auto simp: demo_entry_def min_int64_def max_int64_def wire_limit_def)

lemma demo_marshal: "\<exists>b. pb_marshal wire (demo_entry\<lparr>seq_id := n\<rparr>) = Inr b"
  using demo_marshal_length by blast

section \<open>Properties\<close>

text \<open>C3 wal_stores_everything. On an empty directory of a disk that works, \<open>Open\<close>
  succeeds, every \<open>Append\<close> of an entry the message library accepts succeeds across any
  number of roll-overs, the entries get the sequence numbers 1, 2, ..., and \<open>ReadFrom\<close>
  returns them in order, as many as it is asked for, from every starting point.\<close>

theorem wal_stores_everything:
  assumes "codec_ok cd" and "disk_fine d" and "dir_ok (disk_bytes d) (op_dir opts) []" and "op_dir opts \<noteq> []"
    and "\<And>x n. x \<in> set xs \<Longrightarrow> \<exists>b. pb_marshal cd (x\<lparr>seq_id := n\<rparr>) = Inr b" and "1 + length xs < 2 ^ 64"
  shows "\<exists>w dw ys. wal_open cd d opts = Done (Inr w) \<and> appends (wal_append cd) (d, w) xs = Some (dw, ys)
    \<and> map args ys = map args xs \<and> seqs ys = [1..<1 + length xs]
    \<and> (\<forall>fr k. 0 < k \<longrightarrow> read_from cd dw fr (int k) = Done (Inr (take k (drop (unat fr - 1) ys))))"
proof -
  note cdl = wal_ordered_log [OF assms(1)]
  obtain w where w: "wal_open cd d opts = Done (Inr w)" "wl_next w = 1" "wal_rep cd (d, w) [] []" "wl_segs w = []"
    using wal_open_fresh [OF assms(3) _ assms(4)] assms(2) by (auto simp: disk_fine_def)
  then have "wal_ready w" by (auto simp: wal_ready_def wal_rep_def segs_rep_def split: option.splits)
  then obtain dw ys where app: "appends (wal_append cd) (d, w) xs = Some (dw, ys)"
    using appends_succeed [OF assms(2)] assms(5) by blast
  have log: "wal_log cd (d, w) []" using w(3) assms(2) by (simp add: wal_log_def)
  from ordered_log.appends_rep [OF cdl log app] w(2) assms(6)
  have r: "wal_log cd dw ys" "unat (next_seq dw) = 1 + length xs" "map args ys = map args xs"
    by (simp_all add: next_seq_def)
  have len: "length ys = length xs" using r(3) by (metis length_map)
  from ordered_log.rep_seqs [OF cdl r(1)] have "seqs ys = [1..<1 + length xs]" by (simp add: r(2) len)
  moreover have "wanted fr ys = drop (unat fr - 1) ys" for fr
    using ordered_log.wanted_drop [OF cdl r(1), of fr] by (simp add: r(2) len)
  then have "\<forall>fr k. 0 < k \<longrightarrow> read_from cd dw fr (int k) = Done (Inr (take k (drop (unat fr - 1) ys)))"
    using ordered_log.rd_rep [OF cdl r(1)] by simp
  ultimately show ?thesis using w(1) app r(3) by blast
qed

theorem wal_stores_everything_witness:
  "\<exists>w dw ys. wal_open wire demo_disk (demo_opts 1) = Done (Inr w)
    \<and> appends (wal_append wire) (demo_disk, w) [demo_entry, demo_entry] = Some (dw, ys)
    \<and> read_from wire dw 2 5 = Done (Inr [ys ! 1]) \<and> seqs ys = [1, 2]"
proof -
  obtain w dw ys where w: "wal_open wire demo_disk (demo_opts 1) = Done (Inr w)"
    "appends (wal_append wire) (demo_disk, w) [demo_entry, demo_entry] = Some (dw, ys)"
    "map args ys = map args [demo_entry, demo_entry]" "seqs ys = [1..<1 + length [demo_entry, demo_entry]]"
    "\<forall>fr k. 0 < k \<longrightarrow> read_from wire dw fr (int k) = Done (Inr (take k (drop (unat fr - 1) ys)))"
    using wal_stores_everything [OF wire_ok demo_fine(1), of "demo_opts 1" "[demo_entry, demo_entry]"] demo_marshal
    by (auto simp: demo_opts_def)
  have "unat (2 :: u64) - 1 = 1" by simp
  moreover obtain y z where "ys = [y, z]" using w(3) by auto
  ultimately have "take 5 (drop (unat (2 :: u64) - 1) ys) = [ys ! 1]" by simp
  moreover have "read_from wire dw 2 (int 5) = Done (Inr (take 5 (drop (unat (2 :: u64) - 1) ys)))"
    using w(5) [rule_format, of 5 2] by simp
  ultimately have "read_from wire dw 2 5 = Done (Inr [ys ! 1])" by simp
  moreover have "seqs ys = [1, 2]" using w(4) by (simp add: upt_rec)
  ultimately show ?thesis using w(1,2) by blast
qed

text \<open>An \<open>Append\<close> that returns has numbered the entry with the next
  sequence number; reading from that number gives the entry, and reading from anywhere
  gives the old log with the entry at its end.\<close>

theorem append_then_read:
  assumes "codec_ok cd" and "wal_log cd dw es" and "wal_append cd dw e = (dw', e', Inr s)"
    and "unat (next_seq dw) + 1 < 2 ^ 64" and "0 < k"
  shows "s = next_seq dw \<and> e' = e\<lparr>seq_id := s\<rparr> \<and> next_seq dw' = s + 1
    \<and> read_from cd dw' s (int k) = Done (Inr [e'])
    \<and> read_from cd dw' fr (int k) = Done (Inr (take k (wanted fr (es @ [e']))))"
  using ordered_log.app_rep [OF wal_ordered_log [OF assms(1)] assms(2-4)]
    ordered_log.read_own_append [OF wal_ordered_log [OF assms(1)] assms(2-5)]
    ordered_log.rd_rep [OF wal_ordered_log [OF assms(1)] _ assms(5), of dw' "es @ [e']" fr] by metis

text \<open>A first append to the demonstration log, with what is known of it.\<close>

lemma demo_append:
  "\<exists>d w e. wal_append wire (demo_disk, demo_wal mx) demo_entry = ((d, w), e, Inr 1) \<and> disk_fine d \<and> wal_ready w
     \<and> e = demo_entry\<lparr>seq_id := 1\<rparr> \<and> wal_log wire (d, w) [e] \<and> next_seq (d, w) = 2"
proof -
  obtain b where "pb_marshal wire (demo_entry\<lparr>seq_id := wl_next (demo_wal mx)\<rparr>) = Inr b" using demo_marshal by blast
  from wal_append_succeeds [OF demo_fine(1) demo_ready this] obtain d w where
    w: "wal_append wire (demo_disk, demo_wal mx) demo_entry = ((d, w), demo_entry\<lparr>seq_id := 1\<rparr>, Inr 1)"
    "disk_fine d" "wal_ready w" by auto
  from ordered_log.app_rep [OF wal_ordered_log [OF wire_ok] demo_log(2) w(1)] w show ?thesis
    by (auto simp: next_seq_def)
qed

theorem append_then_read_witness:
  "\<exists>dw' e'. wal_append wire (demo_disk, demo_wal 1) demo_entry = (dw', e', Inr 1)
    \<and> read_from wire dw' 1 3 = Done (Inr [e']) \<and> seq_id e' = 1"
proof -
  obtain d w e where w: "wal_append wire (demo_disk, demo_wal 1) demo_entry = ((d, w), e, Inr 1)"
    using demo_append by blast
  from append_then_read [OF wire_ok demo_log(2) w, of 3] w show ?thesis by (auto simp: next_seq_def)
qed

text \<open>
  A reader that takes batches of at most \<open>k\<close> entries and each time goes on after the last
  entry it got reaches the end of the log.
\<close>

theorem batches_cover_the_log:
  assumes "codec_ok cd" and "wal_log cd dw es" and "0 < k" and "c \<le> next_seq dw" and "length es < fuel"
  shows "\<exists>bs. drain fuel (\<lambda>c. read_from cd dw c (int k)) c = Some bs
    \<and> concat bs = wanted c es \<and> list_all (\<lambda>b. length b \<le> k) bs"
proof -
  have "length (wanted c es) < fuel"
    using assms(5) le_less_trans [OF length_filter_le] by (auto simp: wanted_def)
  with ordered_log.drain_rep [OF wal_ordered_log [OF assms(1)] assms(2,3)] show ?thesis by simp
qed

theorem batches_cover_the_log_witness:
  "\<exists>dw' e'. wal_append wire (demo_disk, demo_wal 1) demo_entry = (dw', e', Inr 1)
    \<and> (\<exists>bs. drain 5 (\<lambda>c. read_from wire dw' c (int 1)) 1 = Some bs \<and> concat bs = [e'])"
proof -
  obtain d w e where w: "wal_append wire (demo_disk, demo_wal 1) demo_entry = ((d, w), e, Inr 1)"
    "wal_log wire (d, w) [e]" "next_seq (d, w) = 2" "e = demo_entry\<lparr>seq_id := 1\<rparr>" using demo_append by blast
  from batches_cover_the_log [OF wire_ok w(2), of 1 1 5] w show ?thesis by auto
qed

text \<open>C11 crash_recovers_prefix. When the machine crashes and the sealed segments were
  synced, \<open>Open\<close> on what the disk kept succeeds and \<open>ReadFrom\<close> serves a prefix of the old
  log; the whole log if the active segment was synced too.\<close>

theorem crash_recovers_prefix:
  assumes "wal_rep cd (d, w) es t" and "torn t" and "sealed_synced d w" and "crashes_to d d'"
    and "dk_faults d = []" and "op_dir opts \<noteq> []" and "op_dir opts = wl_dir w"
  shows "\<exists>w' es1. wal_open cd d' opts = Done (Inr w') \<and> prefix es1 es \<and> (all_synced d w \<longrightarrow> es1 = es)
    \<and> (\<forall>fr k. 0 < k \<longrightarrow> read_from cd (d', w') fr (int k) = Done (Inr (take k (wanted fr es1))))"
proof -
  obtain w' es1 es2 t' n where o: "wal_open cd d' opts = Done (Inr w')" "es = es1 @ es2" "torn t'"
    "all_synced d w \<longrightarrow> es2 = []" "wal_rep cd (d', w'\<lparr>wl_next := n\<rparr>) es1 t'"
    using crash_open [OF assms] by blast
  have "\<not> faulty d' FOpen" using assms(4,5) by (simp add: crashes_to_def faulty_def)
  then have "read_from cd (d', w') fr (int k) = Done (Inr (take k (wanted fr es1)))" if "0 < k" for fr k
    using read_from_rep [OF o(5) torn_silent [OF o(3)] _ that, of fr] by simp
  with o show ?thesis by (intro exI [of _ w'] exI [of _ es1]) auto
qed

theorem crash_recovers_prefix_witness:
  "\<exists>d w e. wal_append wire (demo_disk, demo_wal 1) demo_entry = ((d, w), e, Inr 1)
    \<and> (\<exists>w' es1. wal_open wire d (demo_opts 1) = Done (Inr w') \<and> prefix es1 [e]
       \<and> read_from wire (d, w') 1 1 = Done (Inr (take 1 (wanted 1 es1))))"
proof -
  obtain d w e where w: "wal_append wire (demo_disk, demo_wal 1) demo_entry = ((d, w), e, Inr 1)"
    "wal_log wire (d, w) [e]" "disk_fine d" using demo_append by blast
  have s: "sealed_synced d w" "wl_dir w = ''d''"
    using wal_append_synced [OF w(1) demo_log(1)] by (simp_all add: sealed_synced_def)
  have r: "wal_rep wire (d, w) [e] []" "dk_faults d = []" using w(2,3) by (simp_all add: wal_log_def disk_fine_def)
  obtain w' es1 where o: "wal_open wire d (demo_opts 1) = Done (Inr w')" "prefix es1 [e]"
    "\<forall>fr k. 0 < k \<longrightarrow> read_from wire (d, w') fr (int k) = Done (Inr (take k (wanted fr es1)))"
    using crash_recovers_prefix [OF r(1) torn_Nil s(1) crashes_to_refl r(2), of "demo_opts 1"] s(2)
    by (auto simp: demo_opts_def)
  from o(3) [rule_format, of 1 1] have "read_from wire (d, w') 1 1 = Done (Inr (take 1 (wanted 1 es1)))" by simp
  with w(1) o(1,2) show ?thesis by blast
qed



text \<open>After an orderly \<open>Close\<close> of a log whose last segment holds at
  least one record, \<open>Open\<close> finds all entries and goes on at the same sequence number.\<close>

theorem reopen_continues:
  assumes "wal_rep cd (d, w) es []" and "wl_segs w \<noteq> []" and "wal_close d w = Done (d', w1)" and "dk_faults d' = []"
    and "disk_bytes d (sg_path (last (wl_segs w))) \<noteq> Some []" and "op_dir opts \<noteq> []" and "op_dir opts = wl_dir w"
  shows "\<exists>w'. wal_open cd d' opts = Done (Inr w') \<and> wal_rep cd (d', w') es [] \<and> next_seq (d', w') = next_seq (d, w)"
proof -
  have "disk_bytes d' = disk_bytes d" using wal_close_bytes [OF assms(3)] by blast
  from reopen_rep [OF assms(1,2) this assms(4,6,7)] assms(5) obtain w' where
    w: "wal_open cd d' opts = Done (Inr w')" "wl_next w' = wl_next w" "wal_rep cd (d', w'\<lparr>wl_next := wl_next w\<rparr>) es []"
    by auto
  have "w'\<lparr>wl_next := wl_next w\<rparr> = w'" using w(2) by simp
  with w show ?thesis by (auto simp: next_seq_def)
qed

text \<open>A log with one record in its only segment.\<close>

definition demo_stored :: walentry where
  "demo_stored = demo_entry\<lparr>seq_id := 1\<rparr>"

definition demo_disk1 :: disk where
  "demo_disk1 = \<lparr>dk_files = [((''d'', segment_name 1), \<lparr>fd_bytes = rec_of wire demo_stored, fd_synced = 0\<rparr>)],
     dk_space = None, dk_faults = []\<rparr>"

definition demo_wal1 :: "int \<Rightarrow> wal" where
  "demo_wal1 mx = (fresh_wal (demo_opts mx))\<lparr>wl_next := 2, wl_active := Some 0,
     wl_segs := [\<lparr>sg_id = 1, sg_end = 0, sg_path = (''d'', segment_name 1), sg_file = True, sg_size = 0\<rparr>]\<rparr>"

lemma demo1_simps [simp]:
  "wl_segs (demo_wal1 mx) = [\<lparr>sg_id = 1, sg_end = 0, sg_path = (''d'', segment_name 1), sg_file = True, sg_size = 0\<rparr>]"
  "wl_active (demo_wal1 mx) = Some 0" "wl_next (demo_wal1 mx) = 2" "wl_dir (demo_wal1 mx) = ''d''"
  "wl_flusher (demo_wal1 mx) = None" "mx \<noteq> 0 \<Longrightarrow> wl_max (demo_wal1 mx) = mx"
  "disk_fine demo_disk1" "dk_faults demo_disk1 = []" "wal_ready (demo_wal1 mx)"
  "disk_bytes demo_disk1 p = (if p = (''d'', segment_name 1) then Some (rec_of wire demo_stored) else None)"
  by (simp_all add: demo_wal1_def fresh_wal_def demo_opts_def demo_disk1_def disk_fine_def wal_ready_def
      disk_bytes_def disk_file_def)

lemma demo_stored_ok: "entry_ok wire demo_stored" "rec_of wire demo_stored \<noteq> []"
proof -
  obtain b where "pb_marshal wire demo_stored = Inr b" using demo_marshal by (auto simp: demo_stored_def)
  then show "entry_ok wire demo_stored" using wire_ok codec_entry_ok by blast
  then show "rec_of wire demo_stored \<noteq> []" by (rule rec_of_not_Nil)
qed

lemma demo_rep1: "wal_rep wire (demo_disk1, demo_wal1 mx) [demo_stored] []"
proof -
  have "segs_rep wire (disk_bytes demo_disk1) (demo_wal1 mx) 1 [] [demo_stored] []"
    using demo_stored_ok by (simp add: segs_rep_def active_ok_def seg_ok_def) (simp add: demo_stored_def)
  then have "\<exists>lo gs g. segs_rep wire (disk_bytes demo_disk1) (demo_wal1 mx) lo gs g [] \<and> [demo_stored] = concat gs @ g"
    by (intro exI [of _ 1] exI [of _ "[]"] exI [of _ "[demo_stored]"]) simp
  then show ?thesis by (auto simp: wal_rep_def dir_ok_def split: if_splits)
qed

theorem reopen_continues_witness:
  "\<exists>d' w1 w'. wal_close demo_disk1 (demo_wal1 5) = Done (d', w1) \<and> wal_open wire d' (demo_opts 5) = Done (Inr w')
     \<and> wal_rep wire (d', w') [demo_stored] [] \<and> next_seq (d', w') = 2"
proof -
  obtain d' where d': "file_sync demo_disk1 (''d'', segment_name 1) = (d', None)" "disk_fine d'"
    using disk_fine_sync [of demo_disk1] by auto
  obtain w1 where w1: "wal_close demo_disk1 (demo_wal1 5) = Done (d', w1)"
    using d' by (simp add: wal_close_def seg_sync_def Let_def)
  from reopen_continues [OF demo_rep1 _ w1, of "demo_opts 5"] d'(2) demo_stored_ok(2) w1 show ?thesis
    by (auto simp: disk_fine_def demo_opts_def next_seq_def)
qed

text \<open>An append that fills the segment adds a new one.\<close>

lemma append_rolls:
  assumes app: "append_open cd d w i e = ((d', w'), e', Inr s)" and cd: "codec_ok cd"
    and rep: "segs_rep cd (disk_bytes d) w lo gs g t" and i: "wl_active w = Some i" and ready: "wal_ready w"
    and fine: "\<not> faulty d FStat" and mx: "wl_max w \<le> 1"
  shows "length (wl_segs w') = Suc (length (wl_segs w))"
proof -
  let ?w = "w\<lparr>wl_next := wl_next w + 1\<rparr>"
  obtain d1 where wr: "write_record cd d (wl_segs w ! i) e' = (d1, None)"
    and fin: "finish_append d1 ?w i = (d', w', None)"
    using app by (auto simp: append_open_def Let_def split: prod.splits option.splits)
  obtain ss a where w: "wl_segs w = ss @ [a]" "i = length ss"
    and act: "active_ok cd (disk_bytes d) (wl_dir w) (lo + length (concat gs)) a g t"
    using rep i by (auto simp: segs_rep_def)
  have a: "sg_file a" using ready i w by (simp add: wal_ready_def)
  have "disk_bytes d1 (sg_path a) = Some (seg_data cd g @ t @ rec_of cd e')" "entry_ok cd e'"
    using write_record_ok [OF cd wr] w act by (auto simp: active_ok_def)
  then have "1 \<le> stat_size d1 a"
    using a write_record_faulty [OF wr, of FStat] fine rec_of_not_Nil [of cd e']
    by (cases "rec_of cd e'") (auto simp: stat_size_def disk_bytes_def)
  then have full: "wl_max ?w \<le> stat_size d1 (wl_segs ?w ! i)" using mx w by simp
  have "i < length (wl_segs ?w)" using w by simp
  with fin obtain d2 w2 where r: "(if wl_max ?w \<le> stat_size d1 (wl_segs ?w ! i) then roll_locked d1 (sized d1 ?w i)
      else (d1, sized d1 ?w i, None)) = (d2, w2, None)" and w': "w' = notify_all w2" by (rule finish_append_ok)
  from r full have roll: "roll_locked d1 (sized d1 ?w i) = (d2, w2, None)" by simp
  have segs: "wl_segs (sized d1 ?w i) = ss @ [a\<lparr>sg_size := stat_size d1 a\<rparr>]" "wl_active (sized d1 ?w i) = Some (length ss)"
    using w i by (simp_all add: sized_def)
  from roll_locked_ok [OF roll segs] show ?thesis by (auto simp: w' notify_all_def w)
qed

text \<open>C37 reopen_after_roll_restarts. When the last \<open>Append\<close> rolled over to a new segment,
  \<open>Open\<close> finds all entries but starts numbering at 1 again, whatever the log contains: the
  next entries reuse sequence numbers that are already taken.\<close>

theorem reopen_after_roll_restarts:
  assumes "wal_append cd (d, w) e = ((d1, w1), e', Inr s)" and "codec_ok cd"
    and "wal_rep cd (d, w) es []" and "unat (wl_next w) + 1 < 2 ^ 64"
    and "wl_active w = Some i" and "segment_count w1 \<noteq> segment_count w"
    and "wal_close d1 w1 = Done (d2, w2)" and "dk_faults d2 = []" and "op_dir opts \<noteq> []" and "op_dir opts = wl_dir w1"
  shows "\<exists>w3. wal_open cd d2 opts = Done (Inr w3) \<and> next_seq (d2, w3) = 1 \<and> next_seq (d1, w1) = s + 1
    \<and> wal_rep cd (d2, w3\<lparr>wl_next := wl_next w1\<rparr>) (es @ [e']) []"
proof -
  have "disk_bytes d2 = disk_bytes d1" using wal_close_bytes [OF assms(7)] by blast
  from reopen_after_roll [OF assms(1-6) this assms(8-10)] wal_append_rep [OF assms(1-3)] assms(4)
  show ?thesis by (auto simp: next_seq_def)
qed

lemma wal_append_flusher:
  assumes "wal_append cd (d, w) e = ((d', w'), e', r)"
  shows "wl_flusher w' = wl_flusher w"
proof -
  have fin: "wl_flusher w2 = wl_flusher w1" if "finish_append d1 w1 i = (d2, w2, x)" for d1 w1 i d2 w2 x
    using that by (auto simp: finish_append_def Let_def notify_all_def
        split: prod.splits option.splits if_splits dest!: roll_locked_fields)
  have app: "wl_flusher w2 = wl_flusher w1" if "append_open cd d1 w1 i e = ((d2, w2), e', r)" for d1 w1 i d2 w2
    using that by (auto simp: append_open_def Let_def split: prod.splits option.splits dest!: fin)
  show ?thesis
    using assms by (auto simp: wal_append_def split: prod.splits option.splits dest!: app roll_locked_fields)
qed

theorem reopen_after_roll_restarts_witness:
  "\<exists>d1 w1 e' d2 w2 w3. wal_append wire (demo_disk1, demo_wal1 1) demo_entry = ((d1, w1), e', Inr 2)
     \<and> wal_close d1 w1 = Done (d2, w2) \<and> wal_open wire d2 (demo_opts 1) = Done (Inr w3) \<and> next_seq (d2, w3) = 1"
proof -
  obtain b where "pb_marshal wire (demo_entry\<lparr>seq_id := wl_next (demo_wal1 1)\<rparr>) = Inr b" using demo_marshal by blast
  from wal_append_succeeds [OF demo1_simps(7) demo1_simps(9) this] obtain d1 w1 where
    app: "wal_append wire (demo_disk1, demo_wal1 1) demo_entry = ((d1, w1), demo_entry\<lparr>seq_id := 2\<rparr>, Inr 2)"
    "disk_fine d1" "wal_ready w1" by auto
  have ao: "append_open wire demo_disk1 (demo_wal1 1) 0 demo_entry = ((d1, w1), demo_entry\<lparr>seq_id := 2\<rparr>, Inr 2)"
    using app(1) by (simp add: wal_append_def)
  obtain lo gs g where "segs_rep wire (disk_bytes demo_disk1) (demo_wal1 1) lo gs g []"
    using demo_rep1 [of 1] by (auto simp: wal_rep_def)
  from append_rolls [OF ao wire_ok this] have more: "segment_count w1 \<noteq> segment_count (demo_wal1 1)"
    by (simp add: segment_count_def)
  have dir: "wl_dir w1 = ''d''" "wl_flusher w1 = None"
    using wal_append_synced [OF app(1) demo_rep1] wal_append_flusher [OF app(1)] by (simp_all add: sealed_synced_def)
  obtain d2 w2 where cl: "wal_close d1 w1 = Done (d2, w2)" "disk_fine d2"
  proof (cases "wl_active w1")
    case None
    with that app(2) dir(2) show ?thesis by (simp add: wal_close_def Let_def)
  next
    case (Some j)
    obtain d2 where "file_sync d1 (sg_path (wl_segs w1 ! j)) = (d2, None)" "disk_fine d2"
      using disk_fine_sync [OF app(2)] by blast
    with Some that app(2,3) dir(2) show ?thesis by (simp add: wal_close_def Let_def seg_sync_def wal_ready_def)
  qed
  from reopen_after_roll_restarts [OF app(1) wire_ok demo_rep1 _ _ more cl(1), of 0 "demo_opts 1"] cl(2) dir(1) app(1) cl(1)
  show ?thesis by (auto simp: disk_fine_def demo_opts_def)
qed

text \<open>C38 torn_tail_hides_appends. \<open>Open\<close> keeps a torn record at the end of the last
  segment. An entry appended after it, while it fits into the length the torn record
  claims, is acknowledged with its sequence number but no \<open>ReadFrom\<close> ever returns it.\<close>

theorem torn_tail_hides_appends:
  assumes "wal_rep cd (d, w) es t" and "wl_active w = Some i" and "disk_fine d" and "wal_ready w" and "codec_ok cd"
    and "pb_marshal cd (e\<lparr>seq_id := wl_next w\<rparr>) = Inr b'"
    and "t = put_uvarint (of_nat (length b)) @ p" and "body_ok b"
    and "length p + length (record_bytes b') < length b + 4"
    and "int (length (the (disk_bytes d (sg_path (wl_segs w ! i)))) + length (record_bytes b')) < wl_max w"
  shows "\<exists>dw'. wal_append cd (d, w) e = (dw', e\<lparr>seq_id := wl_next w\<rparr>, Inr (wl_next w))
    \<and> (\<forall>fr n. 0 < n \<longrightarrow> read_from cd dw' fr (int n) = Done (Inr (take n (wanted fr es))))"
  by (rule append_swallowed [OF assms])

text \<open>The log with one record, and the header of a longer one after it.\<close>

definition demo_torn :: bytes where
  "demo_torn = put_uvarint 1000"

definition demo_disk2 :: disk where
  "demo_disk2 = \<lparr>dk_files = [((''d'', segment_name 1), \<lparr>fd_bytes = rec_of wire demo_stored @ demo_torn, fd_synced = 0\<rparr>)],
     dk_space = None, dk_faults = []\<rparr>"

lemma demo_rep2: "wal_rep wire (demo_disk2, demo_wal1 mx) [demo_stored] demo_torn"
proof -
  have b: "disk_bytes demo_disk2 p = (if p = (''d'', segment_name 1) then Some (rec_of wire demo_stored @ demo_torn) else None)" for p
    by (simp add: demo_disk2_def disk_bytes_def disk_file_def)
  have "segs_rep wire (disk_bytes demo_disk2) (demo_wal1 mx) 1 [] [demo_stored] demo_torn"
    using demo_stored_ok by (simp add: segs_rep_def active_ok_def seg_ok_def b) (simp add: demo_stored_def)
  then have "\<exists>lo gs g. segs_rep wire (disk_bytes demo_disk2) (demo_wal1 mx) lo gs g demo_torn \<and> [demo_stored] = concat gs @ g"
    by (intro exI [of _ 1] exI [of _ "[]"] exI [of _ "[demo_stored]"]) simp
  then show ?thesis by (auto simp: wal_rep_def dir_ok_def b split: if_splits)
qed

theorem torn_tail_hides_appends_witness:
  "\<exists>dw'. wal_append wire (demo_disk2, demo_wal1 10000) demo_entry = (dw', demo_entry\<lparr>seq_id := 2\<rparr>, Inr 2)
     \<and> read_from wire dw' 2 1 = Done (Inr [])"
proof -
  let ?w = "demo_wal1 10000"
  obtain b' where b': "pb_marshal wire (demo_entry\<lparr>seq_id := wl_next ?w\<rparr>) = Inr b'" "length b' \<le> 62"
    using demo_marshal_length by blast
  obtain b where b: "pb_marshal wire (demo_entry\<lparr>seq_id := 1\<rparr>) = Inr b" "length b \<le> 62"
    using demo_marshal_length by blast
  have len: "length (record_bytes b') \<le> 10 + 62 + 4" "length (rec_of wire demo_stored) \<le> 10 + 62 + 4"
    using length_put_uvarint [of "of_nat (length b')"] b' length_put_uvarint [of "of_nat (length b)"] b
    by (simp_all add: record_bytes_def rec_of_def demo_stored_def)
  have fine: "disk_fine demo_disk2" by (simp add: disk_fine_def demo_disk2_def)
  have t: "demo_torn = put_uvarint (of_nat (length (replicate 1000 (CHR ''x'')))) @ []" by (simp add: demo_torn_def)
  have sz: "the (disk_bytes demo_disk2 (sg_path (wl_segs ?w ! 0))) = rec_of wire demo_stored @ demo_torn"
    by (simp add: demo_disk2_def disk_bytes_def disk_file_def)
  have "int (length (rec_of wire demo_stored @ demo_torn) + length (record_bytes b')) < wl_max ?w"
    using len length_put_uvarint [of 1000] by (simp add: demo_torn_def)
  with sz obtain dw' where "wal_append wire (demo_disk2, ?w) demo_entry = (dw', demo_entry\<lparr>seq_id := wl_next ?w\<rparr>, Inr (wl_next ?w))"
    "\<forall>fr n. 0 < n \<longrightarrow> read_from wire dw' fr (int n) = Done (Inr (take n (wanted fr [demo_stored])))"
    using torn_tail_hides_appends [OF demo_rep2 _ fine demo1_simps(9) wire_ok b'(1) t, of 0] len
    by (auto simp: body_ok_def)
  from this(1) this(2) [rule_format, of 1 2] show ?thesis by (auto simp: demo_stored_def word_le_nat_alt)
qed

end
