(* ===== verification/Dispatch.thy ===== *)
theory Dispatch
  imports Auth Router Expiry Log_Spec
begin

text \<open>
  The dispatcher, \<open>internal/proxy/dispatch.go\<close>, and the forwarder of
  \<open>internal/proxy/forward.go\<close>. The Redis client library and the RPC transport are not part of
  the repository: they are the functions of the record \<open>env\<close>, on a backend state \<open>'b\<close> and
  the state \<open>'u\<close> of the nodes upstream. The clock is an argument. Metrics are left out; they
  do not influence the result.
\<close>

section \<open>Replies\<close>

text \<open>
  The dynamic type of a reply (\<open>any\<close>); \<open>RpOther\<close> is every type the code has no case for,
  with its name and its printed form. \<open>GoNil\<close> is the error value \<open>redis.Nil\<close>.
\<close>

datatype reply =
    RpNil
  | RpStr string
  | RpBytes "bytes option"
  | RpInt int
  | RpBool bool
  | RpArr "reply list"
  | RpOther string string

datatype go_error = GoNil | GoErr string

definition is_redis_nil :: "go_error \<Rightarrow> bool" where
  "is_redis_nil e \<longleftrightarrow> e = GoNil"

definition error_text :: "go_error \<Rightarrow> string" where
  "error_text e = (case e of GoNil \<Rightarrow> ''redis: nil'' | GoErr m \<Rightarrow> m)"

text \<open>\<open>fmt.Sprint\<close> of one value\<close>

fun join_with :: "string \<Rightarrow> string list \<Rightarrow> string" where
  "join_with sep [] = []"
| "join_with sep [x] = x"
| "join_with sep (x # y # xs) = x @ sep @ join_with sep (y # xs)"

fun sprint :: "reply \<Rightarrow> string" where
  "sprint RpNil = ''<nil>''"
| "sprint (RpStr s) = s"
| "sprint (RpBytes b) = ''['' @ join_with '' '' (map (\<lambda>c. format_uint (byte_val c)) (case b of None \<Rightarrow> [] | Some x \<Rightarrow> x)) @ '']''"
| "sprint (RpInt n) = format_int n"
| "sprint (RpBool b) = (if b then ''true'' else ''false'')"
| "sprint (RpArr xs) = ''['' @ join_with '' '' (map sprint xs) @ '']''"
| "sprint (RpOther ty s) = s"

definition looks_like_resp_error :: "string \<Rightarrow> bool" where
  "looks_like_resp_error msg =
     (let word = (if CHR '' '' \<in> set msg \<and> hd msg \<noteq> CHR '' '' then takeWhile (\<lambda>c. c \<noteq> CHR '' '') msg else msg) in
      word \<noteq> [] \<and> list_all (\<lambda>c. 65 \<le> byte_val c \<and> byte_val c \<le> 90) word)"

fun write_value :: "reply \<Rightarrow> writer \<Rightarrow> writer"
  and write_values :: "reply list \<Rightarrow> writer \<Rightarrow> writer" where
  "write_value RpNil w = write_null_bulk w"
| "write_value (RpStr t) w =
     (if t = ''OK'' \<or> t = ''PONG'' \<or> t = ''QUEUED'' then write_simple_string t w else write_bulk_string (Some t) w)"
| "write_value (RpBytes b) w = write_bulk_string b w"
| "write_value (RpInt n) w = write_int n w"
| "write_value (RpBool b) w = write_int (if b then 1 else 0) w"
| "write_value (RpArr xs) w =
     (let w1 = write_array_header (int (length xs)) w in
      if wr_err w1 \<noteq> None then w1 else write_values xs w1)"
| "write_value (RpOther ty s) w = write_error (''ERR unsupported reply type '' @ ty) w"
| "write_values [] w = w"
| "write_values (x # xs) w =
     (let w1 = write_value x w in if wr_err w1 \<noteq> None then w1 else write_values xs w1)"

definition write_reply :: "writer \<Rightarrow> go_error + reply \<Rightarrow> writer" where
  "write_reply w r =
     (case r of
        Inl e \<Rightarrow>
          if is_redis_nil e then write_null_bulk w
          else let msg = error_text e in
            write_error (if looks_like_resp_error msg then msg else ''ERR '' @ msg) w
      | Inr v \<Rightarrow> write_value v w)"

section \<open>The dispatcher\<close>

record ('b, 'f, 'u) env =
  ev_do :: "'b \<Rightarrow> bytes list \<Rightarrow> 'b \<times> (go_error + reply)"
  ev_forward :: "'f \<Rightarrow> 'u \<Rightarrow> command \<Rightarrow> 'u \<times> (go_error + reply)"
  ev_codec :: codec
  ev_upper :: "string \<Rightarrow> string"
  ev_quote :: "string \<Rightarrow> string"
  ev_wal_text :: "wal_error \<Rightarrow> string"

record 'f route_entry =
  re_prefix :: string
  re_fwd :: 'f

record ('b, 'f) dispatcher =
  dp_backend :: "'b option"
  dp_router :: router
  dp_wal :: "(disk \<times> wal) option"
  dp_primary :: bool
  dp_forward :: "'f option"
  dp_routes :: "'f route_entry list"
  dp_forward_writes :: bool
  dp_relay :: bool
  dp_auth :: "authenticator option"

definition new_dispatcher :: "'b option \<Rightarrow> router \<Rightarrow> (disk \<times> wal) option \<Rightarrow> bool \<Rightarrow> 'f option \<Rightarrow> bool \<Rightarrow> bool \<Rightarrow>
    ('b, 'f) dispatcher" where
  "new_dispatcher b r w isPrimary fwd forwardWrites relay =
     \<lparr>dp_backend = b, dp_router = r, dp_wal = w, dp_primary = isPrimary, dp_forward = fwd, dp_routes = [],
      dp_forward_writes = forwardWrites, dp_relay = relay, dp_auth = None\<rparr>"

text \<open>The private method \<open>do\<close>: the command on the local backend.\<close>

definition do_local :: "('b, 'f, 'u) env \<Rightarrow> ('b, 'f) dispatcher \<Rightarrow> bytes list \<Rightarrow> ('b, 'f) dispatcher \<times> (go_error + reply)" where
  "do_local ev d as =
     (case dp_backend d of
        None \<Rightarrow> (d, Inl (GoErr ''ERR this node has no backend configured''))
      | Some b \<Rightarrow> (case ev_do ev b as of (b', r) \<Rightarrow> (d\<lparr>dp_backend := Some b'\<rparr>, r)))"

fun append_entries :: "codec \<Rightarrow> int \<Rightarrow> disk \<times> wal \<Rightarrow> bytes list list \<Rightarrow> (disk \<times> wal) \<times> wal_error option" where
  "append_entries cd now dw [] = (dw, None)"
| "append_entries cd now dw (as # es) =
     (case wal_append cd dw \<lparr>seq_id = 0, args = as, timestamp_ms = now\<rparr> of
        (dw', _, Inl e) \<Rightarrow> (dw', Some e)
      | (dw', _, Inr _) \<Rightarrow> append_entries cd now dw' es)"

definition wal_append_error :: "('b, 'f, 'u) env \<Rightarrow> wal_error \<Rightarrow> go_error" where
  "wal_append_error ev e = GoErr (''WAL append: '' @ ev_wal_text ev e)"

text \<open>\<open>dispatchWrite\<close>: the log first, then the original command on the backend.\<close>

definition dispatch_local_write :: "('b, 'f, 'u) env \<Rightarrow> int \<Rightarrow> ('b, 'f) dispatcher \<Rightarrow> command \<Rightarrow>
    (('b, 'f) dispatcher \<times> (go_error + reply)) outcome" where
  "dispatch_local_write ev now d c =
     (case dp_wal d of
        None \<Rightarrow> Done (do_local ev d (cmd_args c))
      | Some dw \<Rightarrow>
          bind_outcome (normalize_expiry (ev_upper ev) (cmd_args c) now) (\<lambda>es.
            case append_entries (ev_codec ev) now dw es of
              (dw', Some e) \<Rightarrow> Done (d\<lparr>dp_wal := Some dw'\<rparr>, Inl (wal_append_error ev e))
            | (dw', None) \<Rightarrow> Done (do_local ev (d\<lparr>dp_wal := Some dw'\<rparr>) (cmd_args c))))"

text \<open>\<open>DispatchWrite\<close>: a write forwarded to this node, logged as it came.\<close>

definition dispatch_write :: "('b, 'f, 'u) env \<Rightarrow> int \<Rightarrow> ('b, 'f) dispatcher \<Rightarrow> bytes list \<Rightarrow>
    ('b, 'f) dispatcher \<times> (go_error + reply)" where
  "dispatch_write ev now d as =
     (case (case dp_wal d of
              None \<Rightarrow> (d, None)
            | Some dw \<Rightarrow>
                (case wal_append (ev_codec ev) dw \<lparr>seq_id = 0, args = as, timestamp_ms = now\<rparr> of
                   (dw', _, Inl e) \<Rightarrow> (d\<lparr>dp_wal := Some dw'\<rparr>, Some e)
                 | (dw', _, Inr _) \<Rightarrow> (d\<lparr>dp_wal := Some dw'\<rparr>, None)))
      of
        (d', Some e) \<Rightarrow> (d', Inl (wal_append_error ev e))
      | (d', None) \<Rightarrow>
          (case dp_backend d' of
             None \<Rightarrow> (d', Inr (RpStr ''OK''))
           | Some b \<Rightarrow> (case ev_do ev b as of (b', r) \<Rightarrow> (d'\<lparr>dp_backend := Some b'\<rparr>, r))))"

text \<open>\<open>matchRoute\<close>\<close>

definition match_step :: "string \<Rightarrow> 'f option \<times> string \<Rightarrow> 'f route_entry \<Rightarrow> 'f option \<times> string" where
  "match_step key best r =
     (if has_prefix key (re_prefix r) \<and> length (snd best) < length (re_prefix r)
      then (Some (re_fwd r), re_prefix r) else best)"

definition match_route :: "'f route_entry list \<Rightarrow> bytes list \<Rightarrow> 'f option \<times> string" where
  "match_route routes as =
     (if length as < 2 then (None, []) else foldl (match_step (as ! 1)) (None, []) routes)"

definition forward_write :: "('b, 'f, 'u) env \<Rightarrow> ('b, 'f) dispatcher \<Rightarrow> 'u \<Rightarrow> command \<Rightarrow> writer \<Rightarrow> 'u \<times> writer" where
  "forward_write ev d u c w =
     (if \<not> dp_forward_writes d then (u, write_error ''ERR this node is not the primary and write forwarding is disabled'' w)
      else case dp_forward d of
        None \<Rightarrow> (u, write_error ''ERR this node is not the primary and no upstream is configured'' w)
      | Some f \<Rightarrow> (case ev_forward ev f u c of (u', r) \<Rightarrow> (u', write_reply w r)))"

record ('b, 'f, 'u) node =
  nd_disp :: "('b, 'f) dispatcher"
  nd_up :: 'u
  nd_writer :: writer
  nd_sess :: session

definition wrote :: "('b, 'f, 'u) node \<Rightarrow> writer \<Rightarrow> ('b, 'f, 'u) node \<times> dispatch_error option" where
  "wrote n w = (n\<lparr>nd_writer := w\<rparr>, map_option ErrWrite (wr_err w))"

definition handled_by :: "('b, 'f, 'u) node \<Rightarrow> handled \<Rightarrow> ('b, 'f, 'u) node \<times> dispatch_error option" where
  "handled_by n h = (case h of (w, s, e) \<Rightarrow> (n\<lparr>nd_writer := w, nd_sess := s\<rparr>, e))"

definition dispatch_routed :: "('b, 'f, 'u) env \<Rightarrow> int \<Rightarrow> command \<Rightarrow> ('b, 'f, 'u) node \<Rightarrow>
    (('b, 'f, 'u) node \<times> dispatch_error option) outcome" where
  "dispatch_routed ev now c n =
     (let d = nd_disp n; w = nd_writer n in
      case decide (ev_upper ev) (dp_router d) (cmd_name (ev_upper ev) c) of
        RouteDeny \<Rightarrow>
          Done (wrote n (write_error (''ERR command '' @ quote (ev_quote ev) (cmd_name (ev_upper ev) c)
             @ '' is not supported by singleowner'') w))
      | RouteRead \<Rightarrow>
          (case do_local ev d (cmd_args c) of
             (d', r) \<Rightarrow> Done (wrote (n\<lparr>nd_disp := d'\<rparr>) (write_reply w r)))
      | RouteWrite \<Rightarrow>
          if \<not> dp_primary d then
            (case forward_write ev d (nd_up n) c w of (u', w') \<Rightarrow> Done (wrote (n\<lparr>nd_up := u'\<rparr>) w'))
          else
            (case match_route (dp_routes d) (cmd_args c) of
               (Some f, _) \<Rightarrow>
                 (case ev_forward ev f (nd_up n) c of
                    (u', r) \<Rightarrow> Done (wrote (n\<lparr>nd_up := u'\<rparr>) (write_reply w r)))
             | (None, _) \<Rightarrow>
                 bind_outcome (dispatch_local_write ev now d c) (\<lambda>(d', r).
                   Done (wrote (n\<lparr>nd_disp := d'\<rparr>) (write_reply w r)))))"

definition pre_auth_commands :: "string list" where
  "pre_auth_commands = [''AUTH'', ''HELLO'', ''QUIT'', ''RESET'']"

definition dispatch :: "('b, 'f, 'u) env \<Rightarrow> int \<Rightarrow> command \<Rightarrow> ('b, 'f, 'u) node \<Rightarrow>
    (('b, 'f, 'u) node \<times> dispatch_error option) outcome" where
  "dispatch ev now c n =
     (let name = cmd_name (ev_upper ev) c; au = dp_auth (nd_disp n); w = nd_writer n; s = nd_sess n in
      if name = ''AUTH'' then Done (handled_by n (handle_auth au c w s))
      else if name = ''HELLO'' then Done (handled_by n (handle_hello (ev_upper ev) au c w s))
      else if name = ''QUIT'' then Done (handled_by n (handle_quit w s))
      else if name = ''RESET'' then Done (handled_by n (handle_reset w s))
      else if auth_required au \<and> \<not> authed s then Done (wrote n (write_error ''NOAUTH Authentication required.'' w))
      else if name = ''PING'' then Done (handled_by n (handle_ping c w s))
      else if name = ''ECHO'' then Done (handled_by n (handle_echo c w s))
      else if name = ''SELECT'' then Done (handled_by n (handle_select c w s))
      else dispatch_routed ev now c n)"

section \<open>Replaying entries\<close>

text \<open>
  \<open>Apply\<close> returns the entry too: on a relay the append writes its own sequence number into
  the caller's entry. A relay without a log does not exist in the program; the append would
  dereference nil.
\<close>

definition exec_args :: "('b, 'f, 'u) env \<Rightarrow> ('b, 'f) dispatcher \<Rightarrow> bytes list \<Rightarrow> ('b, 'f) dispatcher \<times> go_error option" where
  "exec_args ev d as =
     (case ev_do ev (the (dp_backend d)) as of
        (b', r) \<Rightarrow> (d\<lparr>dp_backend := Some b'\<rparr>, case r of Inl e \<Rightarrow> Some e | Inr _ \<Rightarrow> None))"

definition apply_entry :: "('b, 'f, 'u) env \<Rightarrow> ('b, 'f) dispatcher \<Rightarrow> walentry \<Rightarrow>
    (('b, 'f) dispatcher \<times> walentry \<times> go_error option) outcome" where
  "apply_entry ev d e =
     (case (if dp_relay d then
              (case dp_wal d of
                 None \<Rightarrow> Panic ''nil pointer dereference''
               | Some dw \<Rightarrow>
                   (case wal_append (ev_codec ev) dw e of
                      (dw', e', Inl x) \<Rightarrow> Done (d\<lparr>dp_wal := Some dw'\<rparr>, e', Some (GoErr (ev_wal_text ev x)))
                    | (dw', e', Inr _) \<Rightarrow> Done (d\<lparr>dp_wal := Some dw'\<rparr>, e', None)))
            else Done (d, e, None))
      of
        Panic m \<Rightarrow> Panic m
      | Done (d', e', Some x) \<Rightarrow> Done (d', e', Some x)
      | Done (d', e', None) \<Rightarrow>
          if dp_backend d' = None then Done (d', e', None)
          else (case exec_args ev d' (args e') of (d2, x) \<Rightarrow> Done (d2, e', x)))"

section \<open>The forwarder\<close>

record grpc_forwarder =
  gf_addr :: string
  gf_connected :: bool

definition new_grpc_forwarder :: "string \<Rightarrow> grpc_forwarder" where
  "new_grpc_forwarder addr = \<lparr>gf_addr = addr, gf_connected = False\<rparr>"

definition grpc_client :: "(string \<Rightarrow> string option) \<Rightarrow> grpc_forwarder \<Rightarrow> grpc_forwarder \<times> string option" where
  "grpc_client dial g =
     (if gf_connected g then (g, None)
      else case dial (gf_addr g) of
        Some e \<Rightarrow> (g, Some e)
      | None \<Rightarrow> (g\<lparr>gf_connected := True\<rparr>, None))"

text \<open>\<open>redisNil\<close> is an error of its own with the text of \<open>redis.Nil\<close>; \<open>errors.Is\<close> tells them apart.\<close>

definition redis_nil_lookalike :: go_error where
  "redis_nil_lookalike = GoErr ''redis: nil''"

definition grpc_forward :: "(string \<Rightarrow> string option) \<Rightarrow> ('u \<Rightarrow> forward_request \<Rightarrow> 'u \<times> (string + forward_reply)) \<Rightarrow>
    grpc_forwarder \<Rightarrow> 'u \<Rightarrow> command \<Rightarrow> grpc_forwarder \<times> 'u \<times> (go_error + reply)" where
  "grpc_forward dial rpc g u c =
     (case grpc_client dial g of
        (g', Some e) \<Rightarrow> (g', u, Inl (GoErr e))
      | (g', None) \<Rightarrow>
          (case rpc u \<lparr>fr_args = cmd_args c\<rparr> of
             (u', Inl e) \<Rightarrow> (g', u', Inl (GoErr e))
           | (u', Inr r) \<Rightarrow>
               (g', u',
                if is_nil r then Inl redis_nil_lookalike
                else if fr_value r \<noteq> [] \<and> hd (fr_value r) = CHR ''-'' then Inl (GoErr (tl (fr_value r)))
                else Inr (RpStr (fr_value r)))))"

section \<open>What a client sees\<close>

fun reply_frame :: "reply \<Rightarrow> bytes" where
  "reply_frame RpNil = ''$-1'' @ crlf"
| "reply_frame (RpStr t) =
     (if t = ''OK'' \<or> t = ''PONG'' \<or> t = ''QUEUED'' then ''+'' @ t @ crlf else encode_bulk t)"
| "reply_frame (RpBytes b) = bulk_frame b"
| "reply_frame (RpInt n) = '':'' @ format_int n @ crlf"
| "reply_frame (RpBool b) = '':'' @ format_int (if b then 1 else 0) @ crlf"
| "reply_frame (RpArr xs) = ''*'' @ format_int (int (length xs)) @ crlf @ concat (map reply_frame xs)"
| "reply_frame (RpOther ty s) = ''-ERR unsupported reply type '' @ ty @ crlf"

definition result_frame :: "go_error + reply \<Rightarrow> bytes" where
  "result_frame r =
     (case r of
        Inl e \<Rightarrow> if is_redis_nil e then ''$-1'' @ crlf
          else ''-'' @ (if looks_like_resp_error (error_text e) then error_text e else ''ERR '' @ error_text e) @ crlf
      | Inr v \<Rightarrow> reply_frame v)"

lemma write_value_emits:
  "emits w s \<Longrightarrow> emits (write_value v w) (s @ reply_frame v)"
  "emits w s \<Longrightarrow> emits (write_values vs w) (s @ concat (map reply_frame vs))"
proof (induction v w and vs w arbitrary: s and s rule: write_value_write_values.induct)
  case (2 t w)
  then show ?case using write_emits(1) [OF 2, of t] write_emits(8) [OF 2, of "Some t"]
    by (simp add: bulk_frame_def)
next
  case (6 xs w)
  let ?w1 = "write_array_header (int (length xs)) w" and ?h = "''*'' @ format_int (int (length xs)) @ crlf"
  have e: "emits ?w1 (s @ ?h)" using write_emits(5) [OF 6(2)] .
  show ?case
  proof (cases "wr_err ?w1 = None")
    case True
    with 6(1) [OF refl _ e] show ?thesis by simp
  next
    case False
    with emits_prefix [OF e False, of "concat (map reply_frame xs)"] show ?thesis by simp
  qed
next
  case (9 x xs w)
  have e: "emits (write_value x w) (s @ reply_frame x)" by (rule 9(1) [OF 9(3)])
  show ?case
  proof (cases "wr_err (write_value x w) = None")
    case True
    with 9(2) [OF refl _ e] show ?thesis by simp
  next
    case False
    with emits_prefix [OF e False, of "concat (map reply_frame xs)"] show ?thesis by simp
  qed
next
  case (1 w)
  show ?case using write_emits(4) [OF 1] by simp
next
  case (3 b w)
  show ?case using write_emits(8) [OF 3] by simp
next
  case (4 n w)
  show ?case using write_emits(3) [OF 4] by simp
next
  case (5 b w)
  show ?case using write_emits(3) [OF 5] by simp
next
  case (7 ty x w)
  show ?case using write_emits(2) [OF 7, of "''ERR unsupported reply type '' @ ty"] by simp
next
  case (8 w)
  then show ?case by simp
qed

lemma write_reply_emits:
  assumes "emits w s"
  shows "emits (write_reply w r) (s @ result_frame r)"
proof (cases r)
  case (Inl e)
  then show ?thesis
    using assms write_emits(2) [of w s "if looks_like_resp_error (error_text e) then error_text e else ''ERR '' @ error_text e"]
      write_emits(4) [of w s] by (simp add: write_reply_def result_frame_def Let_def)
next
  case (Inr v)
  then show ?thesis
    using assms write_value_emits(1) by (simp add: write_reply_def result_frame_def)
qed

section \<open>Longest prefix\<close>

definition fits :: "string \<Rightarrow> 'f route_entry \<Rightarrow> bool" where
  "fits key r \<longleftrightarrow> has_prefix key (re_prefix r) \<and> re_prefix r \<noteq> []"

definition best_for :: "string \<Rightarrow> 'f route_entry list \<Rightarrow> 'f option \<times> string \<Rightarrow> bool" where
  "best_for key rs b \<longleftrightarrow>
     (b = (None, []) \<and> (\<forall>r \<in> set rs. \<not> fits key r)
      \<or> (\<exists>r \<in> set rs. fits key r \<and> b = (Some (re_fwd r), re_prefix r)
           \<and> (\<forall>q \<in> set rs. fits key q \<longrightarrow> length (re_prefix q) \<le> length (re_prefix r))))"

lemma match_step_best:
  assumes "best_for key rs b"
  shows "best_for key (rs @ [r]) (match_step key b r)"
proof (cases "fits key r \<and> length (snd b) < length (re_prefix r)")
  case True
  then have "match_step key b r = (Some (re_fwd r), re_prefix r)" by (simp add: match_step_def fits_def)
  moreover have "length (re_prefix q) \<le> length (re_prefix r)" if "q \<in> set rs" "fits key q" for q
    using assms that True by (fastforce simp: best_for_def)
  ultimately show ?thesis using True unfolding best_for_def by auto
next
  case False
  then have same: "match_step key b r = b" by (auto simp: match_step_def fits_def)
  show ?thesis
  proof (cases "b = (None, [])")
    case True
    with assms False same show ?thesis by (auto simp: best_for_def fits_def)
  next
    case some: False
    with assms obtain p where "p \<in> set rs" "fits key p" "b = (Some (re_fwd p), re_prefix p)"
      "\<forall>q \<in> set rs. fits key q \<longrightarrow> length (re_prefix q) \<le> length (re_prefix p)"
      by (auto simp: best_for_def)
    with False same show ?thesis unfolding best_for_def by (intro disjI2 bexI [of _ p]) auto
  qed
qed

lemma match_route_best:
  assumes "2 \<le> length as"
  shows "best_for (as ! 1) routes (match_route routes as)"
proof -
  have "best_for key routes (foldl (match_step key) (None, []) routes)" for key
    by (induction routes rule: rev_induct) (auto simp: match_step_best best_for_def [of _ "[]"])
  with assms show ?thesis by (simp add: match_route_def)
qed

section \<open>The log after a write\<close>

lemma append_entries_rep:
  assumes "codec_ok cd" and "wal_log cd dw es" and "append_entries cd now dw as = (dw', None)"
    and "unat (next_seq dw) + length as < 2 ^ 64"
  shows "\<exists>ys. wal_log cd dw' (es @ ys) \<and> map args ys = as \<and> list_all (\<lambda>e. timestamp_ms e = now) ys
    \<and> unat (next_seq dw') = unat (next_seq dw) + length as"
  using assms(2-4)
proof (induction as arbitrary: dw es)
  case Nil
  then show ?case by (intro exI [of _ "[]"]) auto
next
  case (Cons a as)
  let ?e = "\<lparr>seq_id = 0, args = a, timestamp_ms = now\<rparr>"
  obtain dw1 e1 r where 1: "wal_append cd dw ?e = (dw1, e1, r)" by (metis prod_cases3)
  with Cons.prems(2) obtain n where n: "r = Inr n" and 2: "append_entries cd now dw1 as = (dw', None)"
    by (cases r) auto
  note l = ordered_log.app_rep [OF wal_ordered_log [OF assms(1)] Cons.prems(1) 1 [unfolded n]]
  have room: "unat (next_seq dw) + 1 < 2 ^ 64" using Cons.prems(3) by simp
  have one: "wal_log cd dw1 (es @ [e1])" "e1 = ?e\<lparr>seq_id := next_seq dw\<rparr>" "next_seq dw1 = next_seq dw + 1"
    using l room by auto
  have nx: "unat (next_seq dw1) = Suc (unat (next_seq dw))" using one(3) unat_Suc room by simp
  from Cons.IH [OF one(1) 2] Cons.prems(3) nx obtain ys where
    "wal_log cd dw' ((es @ [e1]) @ ys)" "map args ys = as" "list_all (\<lambda>e. timestamp_ms e = now) ys"
    "unat (next_seq dw') = unat (next_seq dw1) + length as" by auto
  then show ?case using one(2) nx by (intro exI [of _ "e1 # ys"]) auto
qed

section \<open>Sessions over many commands\<close>

fun run_commands :: "('b, 'f, 'u) env \<Rightarrow> (int \<times> command) list \<Rightarrow> ('b, 'f, 'u) node \<Rightarrow>
    (('b, 'f, 'u) node \<times> dispatch_error option) outcome" where
  "run_commands ev [] n = Done (n, None)"
| "run_commands ev ((now, c) # cs) n =
     bind_outcome (dispatch ev now c n) (\<lambda>(n', e).
       if e = None then run_commands ev cs n' else Done (n', e))"

lemma run_commands_invariant:
  assumes "\<And>now c n n' e. c \<in> snd ` set cs0 \<Longrightarrow> I n \<Longrightarrow> dispatch ev now c n = Done (n', e) \<Longrightarrow> I n'"
    and "set cs \<subseteq> set cs0" and "I n" and "run_commands ev cs n = Done (n', e)"
  shows "I n'"
  using assms(2-4)
proof (induction cs arbitrary: n)
  case Nil
  then show ?case by simp
next
  case (Cons x cs)
  obtain now c where x: "x = (now, c)" by fastforce
  obtain n1 e1 where d: "dispatch ev now c n = Done (n1, e1)"
    using Cons.prems(3) by (cases "dispatch ev now c n") (auto simp: x)
  have "I n1" using assms(1) [OF _ Cons.prems(2) d] Cons.prems(1) x by force
  then show ?case using Cons.prems(1,3) Cons.IH [of n1] d x by (auto split: if_splits)
qed

text \<open>The credentials a command can present: its own words, and the default user.\<close>

definition presented :: "command \<Rightarrow> string set" where
  "presented c = set (cmd_args c) \<union> {default_user}"

lemma hello_opts_presented:
  "hello_opts uni as cred = Inr (Some (u, p)) \<Longrightarrow>
     cred = Some (u, p) \<or> u \<in> set as \<and> p \<in> set as"
  by (induction uni as cred rule: hello_opts.induct) (auto split: if_splits list.splits)

lemma handle_auth_presented:
  assumes "handle_auth au c w s = (w', s', e)" and "authed s'"
  shows "authed s \<or> (\<exists>u \<in> presented c. \<exists>p \<in> presented c. auth_required au \<and> au_verify (the au) u p = None)"
proof -
  have three: "cmd_arg c 1 \<in> presented c" "cmd_arg c 2 \<in> presented c" if "length (cmd_args c) = 3"
    using that by (auto simp: presented_def cmd_arg_def)
  have two: "cmd_arg c 1 \<in> presented c" if "length (cmd_args c) = 2"
    using that by (auto simp: presented_def cmd_arg_def)
  have "default_user \<in> presented c" by (simp add: presented_def)
  with assms two three show ?thesis
    by (auto simp: handle_auth_def replied_def try_auth_def Let_def split: option.splits prod.splits sum.splits if_splits)
qed

lemma handle_hello_presented:
  assumes "handle_hello uni au c w s = (w', s', e)" and "authed s'"
  shows "authed s \<or> (\<exists>u \<in> presented c. \<exists>p \<in> presented c. auth_required au \<and> au_verify (the au) u p = None)"
proof -
  have "\<exists>u \<in> presented c. \<exists>p \<in> presented c. auth_required au \<and> au_verify (the au) u p = None"
    if "hello_opts uni (drop 2 (cmd_args c)) None = Inr (Some (u, p))" "try_auth au u p s = Inr s1" for u p s1
  proof -
    have "u \<in> presented c" "p \<in> presented c"
      using hello_opts_presented [OF that(1)] by (auto simp: presented_def dest: in_set_dropD)
    with that(2) show ?thesis by (auto simp: try_auth_def split: if_splits option.splits)
  qed
  with assms show ?thesis
    by (auto simp: handle_hello_def replied_def Let_def split: option.splits prod.splits sum.splits if_splits)
qed

lemma dispatch_unauthenticated:
  assumes "auth_required (dp_auth (nd_disp n))" and "\<not> authed (nd_sess n)"
    and "\<And>u p. u \<in> presented c \<Longrightarrow> p \<in> presented c \<Longrightarrow> au_verify (the (dp_auth (nd_disp n))) u p \<noteq> None"
    and "dispatch ev now c n = Done (n', e)"
  shows "nd_disp n' = nd_disp n \<and> nd_up n' = nd_up n \<and> \<not> authed (nd_sess n')"
proof -
  have a: "\<not> authed s'" if "handle_auth (dp_auth (nd_disp n)) c (nd_writer n) (nd_sess n) = (w', s', x)" for w' s' x
    using handle_auth_presented [OF that] assms(2,3) by blast
  have h: "\<not> authed s'" if "handle_hello (ev_upper ev) (dp_auth (nd_disp n)) c (nd_writer n) (nd_sess n) = (w', s', x)" for w' s' x
    using handle_hello_presented [OF that] assms(2,3) by blast
  show ?thesis
    using assms(1,2,4) a h
    by (auto simp: dispatch_def handled_by_def wrote_def Let_def handle_quit_def handle_reset_def replied_def
        split: if_splits prod.splits)
qed

section \<open>Properties\<close>

text \<open>When credentials are required, a connection whose commands
  contain no valid user and password pair changes neither the log, the backend nor anything
  upstream, whatever it sends, and is not authenticated at the end.\<close>

theorem no_credentials_no_effect:
  assumes "auth_required (dp_auth (nd_disp n))" and "\<not> authed (nd_sess n)"
    and "\<And>c u p. c \<in> snd ` set cs \<Longrightarrow> u \<in> presented c \<Longrightarrow> p \<in> presented c \<Longrightarrow>
      au_verify (the (dp_auth (nd_disp n))) u p \<noteq> None"
    and "run_commands ev cs n = Done (n', e)"
  shows "nd_disp n' = nd_disp n \<and> nd_up n' = nd_up n \<and> \<not> authed (nd_sess n')"
proof -
  let ?I = "\<lambda>m. nd_disp m = nd_disp n \<and> nd_up m = nd_up n \<and> \<not> authed (nd_sess m)"
  have "?I n'"
  proof (rule run_commands_invariant [where I = ?I, OF _ subset_refl _ assms(4)])
    fix now c m m' e
    assume c: "c \<in> snd ` set cs" and I: "?I m" and d: "dispatch ev now c m = Done (m', e)"
    from I assms(1,3) c dispatch_unauthenticated [OF _ _ _ d] show "?I m'" by simp
  qed (use assms(2) in simp)
  then show ?thesis by simp
qed

text \<open>What a command can change of a node.\<close>

lemma do_local_keeps:
  "do_local ev d as = (d', r) \<Longrightarrow> dp_auth d' = dp_auth d \<and> dp_wal d' = dp_wal d \<and> dp_router d' = dp_router d
     \<and> dp_primary d' = dp_primary d \<and> dp_relay d' = dp_relay d"
  by (auto simp: do_local_def split: option.splits prod.splits)

lemma dispatch_local_write_keeps:
  "dispatch_local_write ev now d c = Done (d', r) \<Longrightarrow> dp_auth d' = dp_auth d \<and> dp_router d' = dp_router d
     \<and> dp_primary d' = dp_primary d \<and> dp_relay d' = dp_relay d"
  by (auto simp: dispatch_local_write_def split: option.splits prod.splits elim!: bind_outcome_DoneE dest!: do_local_keeps)

lemma dispatch_routed_keeps:
  "dispatch_routed ev now c n = Done (n', e) \<Longrightarrow> nd_sess n' = nd_sess n \<and> dp_auth (nd_disp n') = dp_auth (nd_disp n)
     \<and> dp_primary (nd_disp n') = dp_primary (nd_disp n)"
  by (auto simp: dispatch_routed_def Let_def wrote_def split: route.splits prod.splits if_splits option.splits
      elim!: bind_outcome_DoneE dest!: do_local_keeps dispatch_local_write_keeps)

lemma dispatch_keeps:
  "dispatch ev now c n = Done (n', e) \<Longrightarrow> dp_auth (nd_disp n') = dp_auth (nd_disp n) \<and> dp_primary (nd_disp n') = dp_primary (nd_disp n)"
  by (auto simp: dispatch_def handled_by_def wrote_def Let_def split: if_splits prod.splits dest!: dispatch_routed_keeps)

lemma dispatch_session:
  assumes "dispatch ev now c n = Done (n', e)"
  shows "nd_sess n' = nd_sess n \<or> \<not> authed (nd_sess n')
    \<or> (\<exists>w'. handle_auth (dp_auth (nd_disp n)) c (nd_writer n) (nd_sess n) = (w', nd_sess n', e))
    \<or> (\<exists>w'. handle_hello (ev_upper ev) (dp_auth (nd_disp n)) c (nd_writer n) (nd_sess n) = (w', nd_sess n', e))"
  using assms
  by (auto simp: dispatch_def handled_by_def wrote_def Let_def handle_quit_def handle_reset_def handle_ping_def
      handle_echo_def handle_select_def replied_def split: if_splits prod.splits dest!: dispatch_routed_keeps)

context credential_check begin

lemma dispatch_session_ok:
  assumes "session_ok (nd_sess n)" and "dp_auth (nd_disp n) = Some au" and "dispatch ev now c n = Done (n', e)"
  shows "session_ok (nd_sess n')"
proof -
  have "session_ok (nd_sess n')" if "\<not> authed (nd_sess n')" using that by (simp add: session_ok_def)
  with dispatch_session [OF assms(3)] assms(1,2) handle_auth_ok handle_hello_ok show ?thesis by metis
qed

lemma run_commands_session_ok:
  assumes "session_ok (nd_sess n)" and "dp_auth (nd_disp n) = Some au" and "run_commands ev cs n = Done (n', e)"
  shows "session_ok (nd_sess n')"
proof -
  let ?I = "\<lambda>m. session_ok (nd_sess m) \<and> dp_auth (nd_disp m) = Some au"
  have "?I n'"
  proof (rule run_commands_invariant [where I = ?I, OF _ subset_refl _ assms(3)])
    fix now c m m' e
    assume "?I m" and "dispatch ev now c m = Done (m', e)"
    then show "?I m'" using dispatch_session_ok dispatch_keeps by metis
  qed (use assms in simp)
  then show ?thesis by simp
qed

end

text \<open>With a passwd file, a session that is authenticated
  after any number of commands belongs to a user of that file.\<close>

theorem authenticated_user_is_configured:
  assumes "dp_auth (nd_disp n) = Some (static_authenticator bc s)" and "nd_sess n = new_session"
    and "run_commands ev cs n = Done (n', e)" and "authed (nd_sess n')"
  shows "map_of (st_users s) (if user (nd_sess n') = [] then ''default'' else user (nd_sess n')) \<noteq> None"
proof -
  note ok = static.run_commands_session_ok [OF _ assms(1,3), unfolded assms(2), OF static.session_ok_new]
  from ok [unfolded static.session_ok_def canon_user_def default_user_def] assms(4) show ?thesis by blast
qed

text \<open>A node that is not the primary never appends to its log or
  executes a write on its own backend on behalf of a client: a write leaves the node as it
  was, and any other command leaves its log as it was.\<close>

theorem follower_never_logs:
  assumes "\<not> dp_primary (nd_disp n)" and "dispatch ev now c n = Done (n', e)"
  shows "dp_wal (nd_disp n') = dp_wal (nd_disp n)
    \<and> (decide (ev_upper ev) (dp_router (nd_disp n)) (cmd_name (ev_upper ev) c) = RouteWrite \<longrightarrow> nd_disp n' = nd_disp n)"
  using assms
  by (auto simp: dispatch_def dispatch_routed_def handled_by_def wrote_def Let_def
      split: if_splits prod.splits route.splits dest!: do_local_keeps)

text \<open>A command the router denies only writes a reply, on
  one line without control characters if the command name is ASCII.\<close>

theorem denied_command_touches_nothing:
  assumes "decide (ev_upper ev) (dp_router (nd_disp n)) (cmd_name (ev_upper ev) c) = RouteDeny"
    and "is_ascii (cmd_name (ev_upper ev) c)"
  shows "\<exists>msg e. dispatch_routed ev now c n = Done (n\<lparr>nd_writer := write_error msg (nd_writer n)\<rparr>, e) \<and> list_all visible msg"
proof -
  let ?q = "quote (ev_quote ev) (cmd_name (ev_upper ev) c)"
  let ?m = "''ERR command '' @ ?q @ '' is not supported by singleowner''"
  have "list_all visible ''ERR command ''" "list_all visible '' is not supported by singleowner''"
    by (simp_all add: visible_def byte_val_def)
  then have "list_all visible ?m" using quote_visible [OF assms(2)] by simp
  with assms(1) show ?thesis by (auto simp: dispatch_routed_def wrote_def Let_def)
qed

section \<open>A concrete node\<close>

text \<open>A backend and an upstream that record what they are asked to do.\<close>

definition demo_env :: "(bytes list list, unit, command list) env" where
  "demo_env = \<lparr>ev_do = (\<lambda>b as. (b @ [as], Inr (RpStr ''OK''))),
     ev_forward = (\<lambda>f u c. (u @ [c], Inr (RpStr ''OK''))),
     ev_codec = wire, ev_upper = (\<lambda>s. s), ev_quote = (\<lambda>s. s), ev_wal_text = (\<lambda>e. ''disk error'')\<rparr>"

definition demo_node :: "bool \<Rightarrow> authenticator option \<Rightarrow> (bytes list list, unit, command list) node" where
  "demo_node primary au =
     \<lparr>nd_disp = (new_dispatcher (Some []) new_router (Some (demo_disk, demo_wal 1)) primary (Some ()) True False)\<lparr>dp_auth := au\<rparr>,
      nd_up = [], nd_writer = new_writer None, nd_sess = new_session\<rparr>"

definition demo_static :: static where
  "demo_static = \<lparr>st_users = [(''default'', ''pw'')]\<rparr>"

definition demo_auth :: authenticator where
  "demo_auth = static_authenticator (\<lambda>_ _. False) demo_static"

definition demo_set :: command where
  "demo_set = \<lparr>cmd_args = [''SET'', ''k'', ''v'']\<rparr>"

lemma demo_env_simps [simp]:
  "ev_upper demo_env = (\<lambda>s. s)" "ev_codec demo_env = wire"
  "ev_do demo_env b as = (b @ [as], Inr (RpStr ''OK''))"
  "ev_forward demo_env f u c = (u @ [c], Inr (RpStr ''OK''))"
  by (simp_all add: demo_env_def)

lemma demo_node_simps [simp]:
  "dp_auth (nd_disp (demo_node pr au)) = au" "nd_sess (demo_node pr au) = new_session" "nd_up (demo_node pr au) = []"
  "dp_primary (nd_disp (demo_node pr au)) = pr" "dp_router (nd_disp (demo_node pr au)) = new_router"
  "dp_wal (nd_disp (demo_node pr au)) = Some (demo_disk, demo_wal 1)" "dp_backend (nd_disp (demo_node pr au)) = Some []"
  "dp_routes (nd_disp (demo_node pr au)) = []" "dp_forward (nd_disp (demo_node pr au)) = Some ()"
  "dp_forward_writes (nd_disp (demo_node pr au)) = True"
  by (simp_all add: demo_node_def new_dispatcher_def)

lemma new_writer_fine [simp]:
  "wr_err (write_error m (new_writer None)) = None" "wr_err (write_simple_string m (new_writer None)) = None"
  using unlimited_no_error [of "new_writer None"]
  by (simp_all add: write_error_def write_simple_string_def new_writer_def)

lemma demo_node_writer [simp]: "nd_writer (demo_node pr au) = new_writer None"
  by (simp add: demo_node_def)

lemma demo_set_name [simp]: "cmd_name (\<lambda>s. s) demo_set = ''SET''" "cmd_args demo_set = [''SET'', ''k'', ''v'']"
  by (simp_all add: cmd_name_def demo_set_def)

lemma demo_set_route [simp]: "decide (\<lambda>s. s) new_router ''SET'' = RouteWrite"
  by (simp add: decide_def Let_def default_deny_commands_def default_write_commands_def)

theorem no_credentials_no_effect_witness:
  "\<exists>n' e. run_commands demo_env [(0, demo_set), (1, \<lparr>cmd_args = [''AUTH'', ''guess'']\<rparr>)] (demo_node True (Some demo_auth)) = Done (n', e)
     \<and> dp_backend (nd_disp n') = Some [] \<and> \<not> authed (nd_sess n')"
proof -
  let ?n = "demo_node True (Some demo_auth)" and ?a = "\<lparr>cmd_args = [''AUTH'', ''guess'']\<rparr>"
  have req: "auth_required (Some demo_auth)"
    by (simp add: auth_required_def demo_auth_def static_authenticator_def static_required_def demo_static_def)
  have a: "cmd_name (\<lambda>s. s) ?a = ''AUTH''"
    by (simp add: cmd_name_def to_upper_def is_ascii_def upper_char_def byte_val_def)
  obtain w s x where h: "handle_auth (Some demo_auth) ?a (write_error ''NOAUTH Authentication required.'' (new_writer None)) new_session = (w, s, x)"
    by (metis prod_cases3)
  have r: "run_commands demo_env [(0, demo_set), (1, ?a)] ?n = Done (?n\<lparr>nd_writer := w, nd_sess := s\<rparr>, x)"
    using req a h by (cases x) (simp_all add: dispatch_def wrote_def Let_def handled_by_def new_session_def)
  have bad: "au_verify demo_auth u p \<noteq> None" if "p \<noteq> ''pw''" for u p
    using that by (auto simp: demo_auth_def static_authenticator_def static_verify_iff demo_static_def has_prefix_def split: if_splits)
  have "au_verify (the (dp_auth (nd_disp ?n))) u p \<noteq> None"
    if "c \<in> snd ` set [(0, demo_set), (1, ?a)]" "u \<in> presented c" "p \<in> presented c" for c u p
  proof -
    have "p \<noteq> ''pw''" using that by (auto simp: presented_def default_user_def)
    from bad [OF this] show ?thesis by simp
  qed
  from no_credentials_no_effect [OF _ _ this r] req r show ?thesis by (auto simp: new_session_def)
qed

theorem authenticated_user_is_configured_witness:
  "\<exists>n' e. run_commands demo_env [(0, \<lparr>cmd_args = [''AUTH'', ''pw'']\<rparr>)] (demo_node True (Some demo_auth)) = Done (n', e)
     \<and> authed (nd_sess n')
     \<and> map_of (st_users demo_static) (if user (nd_sess n') = [] then ''default'' else user (nd_sess n')) \<noteq> None"
proof -
  let ?n = "demo_node True (Some demo_auth)" and ?a = "\<lparr>cmd_args = [''AUTH'', ''pw'']\<rparr>"
  have a: "cmd_name (\<lambda>s. s) ?a = ''AUTH''"
    by (simp add: cmd_name_def to_upper_def is_ascii_def upper_char_def byte_val_def)
  have req: "auth_required (Some demo_auth)"
    by (simp add: auth_required_def demo_auth_def static_authenticator_def static_required_def demo_static_def)
  have v: "au_verify demo_auth default_user ''pw'' = None"
    by (simp add: demo_auth_def static_authenticator_def static_verify_def demo_static_def default_user_def has_prefix_def)
  obtain n' e where r: "run_commands demo_env [(0, ?a)] ?n = Done (n', e)" "authed (nd_sess n')"
    using req a v by (auto simp: dispatch_def Let_def handled_by_def handle_auth_def cmd_arg_def try_auth_def replied_def split: prod.split)
  from authenticated_user_is_configured [OF _ _ r] r show ?thesis by (auto simp: demo_auth_def)
qed

theorem follower_never_logs_witness:
  "\<exists>n' e. dispatch demo_env 0 demo_set (demo_node False None) = Done (n', e) \<and> nd_up n' = [demo_set]
     \<and> nd_disp n' = nd_disp (demo_node False None)"
proof -
  obtain n' e where d: "dispatch demo_env 0 demo_set (demo_node False None) = Done (n', e)" "nd_up n' = [demo_set]"
    by (simp add: dispatch_def dispatch_routed_def Let_def auth_required_def forward_write_def wrote_def)
  from follower_never_logs [OF _ d(1)] d show ?thesis by simp
qed

theorem denied_command_touches_nothing_witness:
  "\<exists>msg e. dispatch_routed demo_env 0 \<lparr>cmd_args = [''KEYS'']\<rparr> (demo_node True None) =
     Done ((demo_node True None)\<lparr>nd_writer := write_error msg (nd_writer (demo_node True None))\<rparr>, e) \<and> list_all visible msg"
proof (rule denied_command_touches_nothing)
  have "cmd_name (\<lambda>s. s) \<lparr>cmd_args = [''KEYS'']\<rparr> = ''KEYS''" "to_upper (\<lambda>s. s) ''KEYS'' = ''KEYS''"
    by (simp_all add: cmd_name_def to_upper_def is_ascii_def upper_char_def byte_val_def)
  then show "decide (ev_upper demo_env) (dp_router (nd_disp (demo_node True None))) (cmd_name (ev_upper demo_env) \<lparr>cmd_args = [''KEYS'']\<rparr>) = RouteDeny"
    and "is_ascii (cmd_name (ev_upper demo_env) \<lparr>cmd_args = [''KEYS'']\<rparr>)"
    by (simp_all add: decide_def Let_def default_deny_commands_def is_ascii_def byte_val_def)
qed

section \<open>Writes on the primary\<close>

lemma append_entries_appends:
  "appends (wal_append cd) dw (map (\<lambda>a. \<lparr>seq_id = 0, args = a, timestamp_ms = now\<rparr>) as) = Some (dw', ys) \<Longrightarrow>
     append_entries cd now dw as = (dw', None)"
  by (induction as arbitrary: dw ys) (auto split: prod.splits sum.splits)

lemma append_entries_succeed:
  assumes "disk_fine d" and "wal_ready w"
    and "\<And>a n. a \<in> set as \<Longrightarrow> \<exists>b. pb_marshal cd \<lparr>seq_id = n, args = a, timestamp_ms = now\<rparr> = Inr b"
  shows "\<exists>dw'. append_entries cd now (d, w) as = (dw', None)"
proof -
  have "\<exists>b. pb_marshal cd (x\<lparr>seq_id := n\<rparr>) = Inr b"
    if "x \<in> set (map (\<lambda>a. \<lparr>seq_id = 0, args = a, timestamp_ms = now\<rparr>) as)" for x n
    using that assms(3) by auto
  from appends_succeed [OF assms(1,2) this] show ?thesis using append_entries_appends by blast
qed

lemma not_session_command:
  assumes "decide uni new_router name \<noteq> RouteDeny"
  shows "name \<notin> {''AUTH'', ''HELLO'', ''QUIT'', ''RESET'', ''PING'', ''ECHO'', ''SELECT''}"
proof
  assume a: "name \<in> {''AUTH'', ''HELLO'', ''QUIT'', ''RESET'', ''PING'', ''ECHO'', ''SELECT''}"
  then have "to_upper uni name = name"
    by (auto simp: to_upper_def is_ascii_def upper_char_def byte_val_def)
  moreover have "list_all (\<lambda>x. x \<notin> set default_write_commands \<and> x \<notin> set default_read_commands)
      [''AUTH'', ''HELLO'', ''QUIT'', ''RESET'', ''PING'', ''ECHO'', ''SELECT'']"
    by (simp add: default_write_commands_def default_read_commands_def)
  then have "name \<notin> set default_write_commands \<and> name \<notin> set default_read_commands" using a by auto
  ultimately show False using assms by (simp add: decide_def Let_def split: if_splits)
qed

lemma dispatch_primary_write:
  assumes "decide (ev_upper ev) new_router (cmd_name (ev_upper ev) c) = RouteWrite"
    and "dp_router (nd_disp n) = new_router" and "dp_primary (nd_disp n)"
    and "match_route (dp_routes (nd_disp n)) (cmd_args c) = (None, p)"
    and "\<not> auth_required (dp_auth (nd_disp n)) \<or> authed (nd_sess n)"
    and "dp_wal (nd_disp n) = Some (dk, w)" and "codec_ok (ev_codec ev)" and "wal_log (ev_codec ev) (dk, w) es"
    and "disk_fine dk" and "wal_ready w"
    and "normalize_expiry (ev_upper ev) (cmd_args c) now = Done as"
    and "\<And>a n. a \<in> set as \<Longrightarrow> \<exists>b. pb_marshal (ev_codec ev) \<lparr>seq_id = n, args = a, timestamp_ms = now\<rparr> = Inr b"
    and "unat (wl_next w) + length as < 2 ^ 64"
    and "dp_backend (nd_disp n) = Some b" and "ev_do ev b (cmd_args c) = (b', r)"
  shows "\<exists>n' e dw' ys. dispatch ev now c n = Done (n', e)
    \<and> dp_wal (nd_disp n') = Some dw' \<and> wal_log (ev_codec ev) dw' (es @ ys) \<and> map args ys = as
    \<and> dp_backend (nd_disp n') = Some b' \<and> nd_writer n' = write_reply (nd_writer n) r \<and> nd_up n' = nd_up n
    \<and> unat (next_seq dw') = unat (wl_next w) + length as"
proof -
  obtain dw' where app: "append_entries (ev_codec ev) now (dk, w) as = (dw', None)"
    using append_entries_succeed [OF assms(9,10)] assms(12) by blast
  from append_entries_rep [OF assms(7,8) app] assms(13) obtain ys where
    ys: "wal_log (ev_codec ev) dw' (es @ ys)" "map args ys = as" "unat (next_seq dw') = unat (wl_next w) + length as"
    by (auto simp: next_seq_def)
  have name: "cmd_name (ev_upper ev) c \<notin> {''AUTH'', ''HELLO'', ''QUIT'', ''RESET'', ''PING'', ''ECHO'', ''SELECT''}"
    by (rule not_session_command [of "ev_upper ev"]) (simp add: assms(1))
  let ?d = "(nd_disp n)\<lparr>dp_wal := Some dw', dp_backend := Some b'\<rparr>"
  have lw: "dispatch_local_write ev now (nd_disp n) c = Done (?d, r)"
    using assms(6,11,14,15) app by (simp add: dispatch_local_write_def do_local_def)
  let ?n = "n\<lparr>nd_disp := ?d, nd_writer := write_reply (nd_writer n) r\<rparr>"
  have "dispatch ev now c n = Done (?n, map_option ErrWrite (wr_err (write_reply (nd_writer n) r)))"
    using name assms(1-5) lw by (auto simp: dispatch_def dispatch_routed_def Let_def wrote_def)
  moreover have "dp_wal (nd_disp ?n) = Some dw'" "dp_backend (nd_disp ?n) = Some b'"
    "nd_writer ?n = write_reply (nd_writer n) r" "nd_up ?n = nd_up n" by simp_all
  ultimately show ?thesis using ys by blast
qed

text \<open>C12 primary_logs_then_executes. On the primary, a write that no route takes elsewhere is
  appended to the log in its time-independent form, and the command as the client sent it is
  executed once on the backend, whose reply goes to the client.\<close>

theorem primary_logs_then_executes:
  assumes "decide (ev_upper ev) new_router (cmd_name (ev_upper ev) c) = RouteWrite"
    and "dp_router (nd_disp n) = new_router" and "dp_primary (nd_disp n)"
    and "match_route (dp_routes (nd_disp n)) (cmd_args c) = (None, p)"
    and "\<not> auth_required (dp_auth (nd_disp n)) \<or> authed (nd_sess n)"
    and "dp_wal (nd_disp n) = Some (dk, w)" and "codec_ok (ev_codec ev)" and "wal_log (ev_codec ev) (dk, w) es"
    and "disk_fine dk" and "wal_ready w"
    and "normalize_expiry (ev_upper ev) (cmd_args c) now = Done as"
    and "\<And>a n. a \<in> set as \<Longrightarrow> \<exists>b. pb_marshal (ev_codec ev) \<lparr>seq_id = n, args = a, timestamp_ms = now\<rparr> = Inr b"
    and "unat (wl_next w) + length as < 2 ^ 64"
    and "dp_backend (nd_disp n) = Some b" and "ev_do ev b (cmd_args c) = (b', r)"
  shows "\<exists>n' e dw' ys. dispatch ev now c n = Done (n', e)
    \<and> dp_wal (nd_disp n') = Some dw' \<and> wal_log (ev_codec ev) dw' (es @ ys) \<and> map args ys = as
    \<and> dp_backend (nd_disp n') = Some b' \<and> nd_writer n' = write_reply (nd_writer n) r \<and> nd_up n' = nd_up n"
  using dispatch_primary_write [OF assms] by blast

lemma demo_marshal_args: "\<exists>b. pb_marshal wire \<lparr>seq_id = n, args = [''SET'', ''k'', ''v''], timestamp_ms = 7\<rparr> = Inr b"
  using demo_marshal [of n] by (simp add: demo_entry_def)

theorem primary_logs_then_executes_witness:
  "\<exists>n' e dw' ys. dispatch demo_env 7 demo_set (demo_node True None) = Done (n', e)
     \<and> dp_wal (nd_disp n') = Some dw' \<and> wal_log wire dw' ys \<and> map args ys = [[''SET'', ''k'', ''v'']]
     \<and> dp_backend (nd_disp n') = Some [[''SET'', ''k'', ''v'']]"
proof -
  have norm: "normalize_expiry (\<lambda>s. s) [''SET'', ''k'', ''v''] 7 = Done [[''SET'', ''k'', ''v'']]"
    by (simp add: normalize_expiry_def normalize_set_def Let_def numeral_3_eq_3)
  obtain n' e dw' ys where "dispatch demo_env 7 demo_set (demo_node True None) = Done (n', e)"
    "dp_wal (nd_disp n') = Some dw'" "wal_log wire dw' ys" "map args ys = [[''SET'', ''k'', ''v'']]"
    "dp_backend (nd_disp n') = Some [[''SET'', ''k'', ''v'']]"
    using primary_logs_then_executes [of demo_env demo_set "demo_node True None" "[]" demo_disk "demo_wal 1" "[]" 7
        "[[''SET'', ''k'', ''v'']]" "[]" "[[''SET'', ''k'', ''v'']]" "Inr (RpStr ''OK'')"]
      norm wire_ok demo_log(2) [of wire 1] demo_marshal_args
    by (auto simp: match_route_def auth_required_def)
  then show ?thesis by (intro exI conjI)
qed

text \<open>C30 longest_prefix_routes. \<open>matchRoute\<close> returns the forwarder of the longest configured
  prefix of the key, whatever the order of the routes, and none when no non-empty prefix
  fits.\<close>

theorem longest_prefix_routes:
  assumes "2 \<le> length as" and "distinct (map re_prefix routes)" and "r \<in> set routes"
  shows "(match_route routes as = (Some (re_fwd r), re_prefix r)) =
      (re_prefix r \<noteq> [] \<and> prefix (re_prefix r) (as ! 1)
       \<and> (\<forall>q \<in> set routes. prefix (re_prefix q) (as ! 1) \<longrightarrow> length (re_prefix q) \<le> length (re_prefix r)))
    \<and> (match_route routes as = (None, []) \<longleftrightarrow> (\<forall>q \<in> set routes. prefix (re_prefix q) (as ! 1) \<longrightarrow> re_prefix q = []))"
proof -
  have f: "fits (as ! 1) q \<longleftrightarrow> prefix (re_prefix q) (as ! 1) \<and> re_prefix q \<noteq> []" for q
    by (auto simp: fits_def has_prefix_iff)
  have eq: "q = r" if "q \<in> set routes" "re_prefix q = re_prefix r" for q
    using assms(2,3) that by (auto simp: distinct_map inj_on_def)
  from match_route_best [OF assms(1), of routes]
  consider "match_route routes as = (None, [])" "\<forall>q \<in> set routes. \<not> fits (as ! 1) q"
    | q where "q \<in> set routes" "fits (as ! 1) q" "match_route routes as = (Some (re_fwd q), re_prefix q)"
      "\<forall>x \<in> set routes. fits (as ! 1) x \<longrightarrow> length (re_prefix x) \<le> length (re_prefix q)"
    by (auto simp: best_for_def)
  then show ?thesis
  proof cases
    case 1
    then show ?thesis using assms(3) f by auto
  next
    case 2
    have "re_prefix q = re_prefix r" if "prefix (re_prefix r) (as ! 1)" "length (re_prefix q) \<le> length (re_prefix r)"
      "re_prefix r \<noteq> []"
    proof -
      have "fits (as ! 1) r" using that f by blast
      then have "length (re_prefix r) \<le> length (re_prefix q)" using 2(4) assms(3) by blast
      with that have "length (re_prefix q) = length (re_prefix r)" by simp
      with that(1) 2(2) f show ?thesis by (metis prefix_length_prefix prefix_order.antisym order_refl)
    qed
    note same = this
    have "match_route routes as = (Some (re_fwd r), re_prefix r) \<longleftrightarrow> q = r"
      using 2(1,3) eq by auto
    moreover have "q = r \<longleftrightarrow> re_prefix r \<noteq> [] \<and> prefix (re_prefix r) (as ! 1)
       \<and> (\<forall>x \<in> set routes. prefix (re_prefix x) (as ! 1) \<longrightarrow> length (re_prefix x) \<le> length (re_prefix r))"
      (is "_ \<longleftrightarrow> ?R")
    proof
      assume "q = r"
      then show ?R using 2(2,4) f by (metis le0 list.size(3))
    next
      assume R: ?R
      then have "length (re_prefix q) \<le> length (re_prefix r)" using 2(1,2) f by blast
      with R same eq 2(1) show "q = r" by blast
    qed
    moreover have "match_route routes as \<noteq> (None, [])" "\<not> (\<forall>x \<in> set routes. prefix (re_prefix x) (as ! 1) \<longrightarrow> re_prefix x = [])"
      using 2(1-3) f by auto
    ultimately show ?thesis by blast
  qed
qed

theorem longest_prefix_routes_witness:
  "match_route [\<lparr>re_prefix = ''eu:'', re_fwd = True\<rparr>, \<lparr>re_prefix = ''eu:de:'', re_fwd = False\<rparr>] [''SET'', ''eu:de:x''] = (Some False, ''eu:de:'')"
  using longest_prefix_routes [of "[''SET'', ''eu:de:x'']" "[\<lparr>re_prefix = ''eu:'', re_fwd = True\<rparr>, \<lparr>re_prefix = ''eu:de:'', re_fwd = False\<rparr>]"
      "\<lparr>re_prefix = ''eu:de:'', re_fwd = False\<rparr>"] by simp

text \<open>C26 replies_are_framed. Every reply or error of the backend, nested arrays included, is
  written as its RESP2 frame: on any connection the client receives a prefix of the frames
  written, and all of them after a flush without error.\<close>

theorem replies_are_framed:
  fixes rs left defines "w \<equiv> foldl write_reply (new_writer left) rs"
  shows "prefix (wr_sent w) (concat (map result_frame rs))
    \<and> (wr_err (resp_flush w) = None \<longrightarrow> wr_sent (resp_flush w) = concat (map result_frame rs))"
proof -
  have "emits (foldl write_reply w0 rs) (s @ concat (map result_frame rs))" if "emits w0 s" for w0 s
    using that
  proof (induction rs arbitrary: w0 s)
    case (Cons r rs)
    from Cons.IH [OF write_reply_emits [OF Cons.prems, of r]] show ?case by simp
  qed simp
  from this [OF emits_new] have e: "emits w (concat (map result_frame rs))" by (simp add: w_def)
  with flush_delivers [OF e] show ?thesis by (simp add: emits_def)
qed

theorem replies_are_framed_witness:
  "wr_sent (resp_flush (foldl write_reply (new_writer None) [Inr (RpInt 5), Inl GoNil])) =
     concat (map result_frame [Inr (RpInt 5), Inl GoNil])"
proof -
  let ?w = "foldl write_reply (new_writer None) [Inr (RpInt 5), Inl GoNil]"
  have "wr_err (write_reply (new_writer None) (Inr (RpInt 5))) = None \<and> wr_left (write_reply (new_writer None) (Inr (RpInt 5))) = None"
    using unlimited_no_error [of "new_writer None"] by (simp add: write_reply_def write_int_def new_writer_def)
  then have "wr_err ?w = None \<and> wr_left ?w = None"
    using unlimited_no_error [of "write_reply (new_writer None) (Inr (RpInt 5))"]
    by (simp add: write_reply_def [of _ "Inl GoNil"] is_redis_nil_def write_null_bulk_def)
  then have "wr_err (resp_flush ?w) = None" using unlimited_no_error [of ?w] by (simp add: resp_flush_def)
  with replies_are_framed [where rs = "[Inr (RpInt 5), Inl GoNil]" and left = None] show ?thesis by (simp only: simp_thms)
qed

text \<open>A nil reply of the upstream node (an absent value) reaches
  the client of the forwarding node as an error, not as a null reply: the forwarder returns an
  error value of its own that \<open>IsNil\<close> does not recognise.\<close>

theorem forwarded_nil_is_an_error:
  assumes "gf_connected g" and "rpc u \<lparr>fr_args = cmd_args c\<rparr> = (u', Inr \<lparr>fr_value = v, is_nil = True\<rparr>)"
  shows "\<exists>e. grpc_forward dial rpc g u c = (g, u', Inl e) \<and> \<not> is_redis_nil e
    \<and> result_frame (Inl e) = ''-ERR redis: nil'' @ crlf"
proof -
  have "grpc_forward dial rpc g u c = (g, u', Inl redis_nil_lookalike)"
    using assms by (simp add: grpc_forward_def grpc_client_def)
  moreover have "\<not> looks_like_resp_error ''redis: nil''"
    by (simp add: looks_like_resp_error_def byte_val_def)
  ultimately show ?thesis
    by (simp add: redis_nil_lookalike_def is_redis_nil_def result_frame_def error_text_def)
qed

theorem forwarded_nil_is_an_error_witness:
  "\<exists>e. grpc_forward (\<lambda>_. None) (\<lambda>u r. (u, Inr \<lparr>fr_value = [], is_nil = True\<rparr>)) \<lparr>gf_addr = ''a'', gf_connected = True\<rparr> () demo_set =
     (\<lparr>gf_addr = ''a'', gf_connected = True\<rparr>, (), Inl e) \<and> \<not> is_redis_nil e \<and> result_frame (Inl e) = ''-ERR redis: nil'' @ crlf"
  by (rule forwarded_nil_is_an_error) simp_all

text \<open>A write that arrives over the forwarding RPC is
  appended to the log exactly as it came: neither the command whitelist nor the expiry
  normalisation is applied, so a relative expiry enters the log.\<close>

theorem forwarded_write_is_logged_raw:
  assumes "dp_wal d = Some (dk, w)" and "codec_ok (ev_codec ev)" and "wal_log (ev_codec ev) (dk, w) es"
    and "disk_fine dk" and "wal_ready w" and "unat (wl_next w) + 1 < 2 ^ 64"
    and "pb_marshal (ev_codec ev) \<lparr>seq_id = wl_next w, args = as, timestamp_ms = now\<rparr> = Inr b"
  shows "\<exists>d' r dw' e. dispatch_write ev now d as = (d', r) \<and> dp_wal d' = Some dw'
    \<and> wal_log (ev_codec ev) dw' (es @ [e]) \<and> args e = as"
proof -
  let ?e = "\<lparr>seq_id = 0, args = as, timestamp_ms = now\<rparr>"
  obtain dk' w' where app: "wal_append (ev_codec ev) (dk, w) ?e = ((dk', w'), ?e\<lparr>seq_id := wl_next w\<rparr>, Inr (wl_next w))"
    using wal_append_succeeds [OF assms(4,5), of "ev_codec ev" ?e b] assms(7) by auto
  from ordered_log.app_rep [OF wal_ordered_log [OF assms(2)] assms(3) app] assms(6)
  have log: "wal_log (ev_codec ev) (dk', w') (es @ [?e\<lparr>seq_id := wl_next w\<rparr>])" by (simp add: next_seq_def)
  obtain d' r where dw: "dispatch_write ev now d as = (d', r)" by fastforce
  have "dp_wal d' = Some (dk', w')"
    using dw app assms(1) by (auto simp: dispatch_write_def split: option.splits prod.splits)
  moreover have "args (?e\<lparr>seq_id := wl_next w\<rparr>) = as" by simp
  ultimately show ?thesis using dw log by blast
qed

theorem forwarded_write_is_logged_raw_witness:
  "\<exists>d' r dw' e. dispatch_write demo_env 7 (nd_disp (demo_node True None)) [''SET'', ''k'', ''v''] = (d', r)
     \<and> dp_wal d' = Some dw' \<and> wal_log wire dw' [e] \<and> args e = [''SET'', ''k'', ''v'']"
proof -
  obtain b where "pb_marshal wire \<lparr>seq_id = 1, args = [''SET'', ''k'', ''v''], timestamp_ms = 7\<rparr> = Inr b"
    using demo_marshal_args by blast
  then show ?thesis
    using forwarded_write_is_logged_raw [of "nd_disp (demo_node True None)" demo_disk "demo_wal 1" demo_env "[]" "[''SET'', ''k'', ''v'']" 7 b]
      wire_ok demo_log(2) [of wire 1] by simp
qed

end
