(* ===== verification/Snapshot.thy ===== *)
theory Snapshot
  imports Dispatch
begin

text \<open>
  The snapshot of the backend a new follower starts from: \<open>StreamSnapshot\<close> and \<open>scanKey\<close> of
  \<open>internal/proxy/dispatch.go\<close>. The cursor loop over \<open>SCAN\<close> ends when the backend says so,
  hence a partial function. The clock is read between calls of the backend, so it is a
  function of the state those calls thread through.
\<close>

section \<open>Definitions\<close>

text \<open>\<open>v, _ := be.Do(...)\<close>: the value is nil when there was an error.\<close>

definition do_val :: "('b \<Rightarrow> bytes list \<Rightarrow> 'b \<times> (go_error + reply)) \<Rightarrow> 'b \<Rightarrow> bytes list \<Rightarrow> 'b \<times> reply" where
  "do_val bdo b as = (case bdo b as of (b', r) \<Rightarrow> (b', case r of Inl _ \<Rightarrow> RpNil | Inr v \<Rightarrow> v))"

definition elements :: "reply \<Rightarrow> reply list" where
  "elements v = (case v of RpArr xs \<Rightarrow> xs | _ \<Rightarrow> [])"

text \<open>Scores and members swap places; an odd number of elements is out of range.\<close>

fun zset_parts :: "reply list \<Rightarrow> string list outcome" where
  "zset_parts [] = Done []"
| "zset_parts [m] = Panic ''index out of range''"
| "zset_parts (m # s # rest) = bind_outcome (zset_parts rest) (\<lambda>ps. Done (sprint s # sprint m # ps))"

definition scan_string :: "('b \<Rightarrow> bytes list \<Rightarrow> 'b \<times> (go_error + reply)) \<Rightarrow> ('b \<Rightarrow> int) \<Rightarrow> 'b \<Rightarrow> string \<Rightarrow> 'b \<times> bytes list list" where
  "scan_string bdo clk b key =
     (case do_val bdo b [''GET'', key] of
        (b1, v) \<Rightarrow>
          if v = RpNil then (b1, [])
          else (case do_val bdo b1 [''PTTL'', key] of
            (b2, ttl) \<Rightarrow>
              (b2, bargs [''SET'', key, sprint v] #
                (case ttl of
                   RpInt ms \<Rightarrow> if 0 < ms then [bargs [''PEXPIREAT'', key, format_int (wrap64 (clk b2 + ms))]] else []
                 | _ \<Rightarrow> []))))"

definition scan_key :: "('b \<Rightarrow> bytes list \<Rightarrow> 'b \<times> (go_error + reply)) \<Rightarrow> ('b \<Rightarrow> int) \<Rightarrow> 'b \<Rightarrow> string \<Rightarrow>
    ('b \<times> bytes list list) outcome" where
  "scan_key bdo clk b key =
     (case do_val bdo b [''TYPE'', key] of
        (b1, t) \<Rightarrow>
          let typ = sprint t in
          if typ = ''string'' then Done (scan_string bdo clk b1 key)
          else if typ = ''hash'' then
            (case do_val bdo b1 [''HGETALL'', key] of
               (b2, v) \<Rightarrow> Done (b2, if elements v = [] then [] else [bargs ([''HSET'', key] @ map sprint (elements v))]))
          else if typ = ''list'' then
            (case do_val bdo b1 [''LRANGE'', key, ''0'', ''-1''] of
               (b2, v) \<Rightarrow> Done (b2, map (\<lambda>x. bargs [''RPUSH'', key, sprint x]) (rev (elements v))))
          else if typ = ''set'' then
            (case do_val bdo b1 [''SMEMBERS'', key] of
               (b2, v) \<Rightarrow> Done (b2, if elements v = [] then [] else [bargs ([''SADD'', key] @ map sprint (elements v))]))
          else if typ = ''zset'' then
            (case do_val bdo b1 [''ZRANGE'', key, ''0'', ''-1'', ''WITHSCORES''] of
               (b2, v) \<Rightarrow>
                 if elements v = [] then Done (b2, [])
                 else bind_outcome (zset_parts (elements v)) (\<lambda>ps. Done (b2, [bargs ([''ZADD'', key] @ ps)])))
          else Done (b1, []))"

datatype snap_error = SnBackend go_error | SnBadScan | SnBadKeys | SnSend string

definition batch_size :: nat where
  "batch_size = 500"

type_synonym 's sender = "'s \<Rightarrow> bytes list list \<Rightarrow> 's \<times> string option"

fun snap_keys :: "('b \<Rightarrow> bytes list \<Rightarrow> 'b \<times> (go_error + reply)) \<Rightarrow> ('b \<Rightarrow> int) \<Rightarrow> 's sender \<Rightarrow> 'b \<Rightarrow> 's \<Rightarrow> bytes list list \<Rightarrow> string list \<Rightarrow>
    ('b \<times> 's \<times> bytes list list \<times> snap_error option) outcome" where
  "snap_keys bdo clk fn b s batch [] = Done (b, s, batch, None)"
| "snap_keys bdo clk fn b s batch (k # ks) =
     bind_outcome (scan_key bdo clk b k) (\<lambda>(b1, cmds).
       let batch1 = batch @ cmds in
       if batch_size \<le> length batch1 then
         (case fn s batch1 of
            (s1, Some e) \<Rightarrow> Done (b1, s1, batch1, Some (SnSend e))
          | (s1, None) \<Rightarrow> snap_keys bdo clk fn b1 s1 [] ks)
       else snap_keys bdo clk fn b1 s batch1 ks)"

definition cursor_of :: "string \<Rightarrow> nat" where
  "cursor_of s = (case parse_uint s of Inr v \<Rightarrow> v | Inl ErrSyntax \<Rightarrow> 0 | Inl ErrRange \<Rightarrow> max_uint64)"

partial_function (option) snap_shard :: "('b \<Rightarrow> bytes list \<Rightarrow> 'b \<times> (go_error + reply)) \<Rightarrow> ('b \<Rightarrow> int) \<Rightarrow> 's sender \<Rightarrow> nat \<Rightarrow> 'b \<Rightarrow> 's \<Rightarrow>
    bytes list list \<Rightarrow> ('b \<times> 's \<times> bytes list list \<times> snap_error option) outcome option" where
  "snap_shard bdo clk fn cursor b s batch =
     (case bdo b [''SCAN'', format_uint cursor, ''COUNT'', ''1000''] of
        (b1, Inl e) \<Rightarrow> Some (Done (b1, s, batch, Some (SnBackend e)))
      | (b1, Inr v) \<Rightarrow>
          (case v of
             RpArr [c, keys] \<Rightarrow>
               (case keys of
                  RpArr ks \<Rightarrow>
                    (case snap_keys bdo clk fn b1 s batch (map sprint ks) of
                       Panic m \<Rightarrow> Some (Panic m)
                     | Done (b2, s2, batch2, Some e) \<Rightarrow> Some (Done (b2, s2, batch2, Some e))
                     | Done (b2, s2, batch2, None) \<Rightarrow>
                         if cursor_of (sprint c) = 0 then Some (Done (b2, s2, batch2, None))
                         else snap_shard bdo clk fn (cursor_of (sprint c)) b2 s2 batch2)
                | _ \<Rightarrow> Some (Done (b1, s, batch, Some SnBadKeys)))
           | _ \<Rightarrow> Some (Done (b1, s, batch, Some SnBadScan))))"

fun snap_shards :: "('b \<Rightarrow> bytes list \<Rightarrow> 'b \<times> (go_error + reply)) \<Rightarrow> ('b \<Rightarrow> int) \<Rightarrow> 's sender \<Rightarrow> 'b list \<Rightarrow> 's \<Rightarrow> bytes list list \<Rightarrow>
    ('b list \<times> 's \<times> bytes list list \<times> snap_error option) outcome option" where
  "snap_shards bdo clk fn [] s batch = Some (Done ([], s, batch, None))"
| "snap_shards bdo clk fn (b # bs) s batch =
     Option.bind (snap_shard bdo clk fn 0 b s batch) (\<lambda>r.
       case r of
         Panic m \<Rightarrow> Some (Panic m)
       | Done (b1, s1, batch1, Some e) \<Rightarrow> Some (Done (b1 # bs, s1, batch1, Some e))
       | Done (b1, s1, batch1, None) \<Rightarrow>
           map_option (\<lambda>r2. bind_outcome r2 (\<lambda>(bs2, s2, batch2, e). Done (b1 # bs2, s2, batch2, e)))
             (snap_shards bdo clk fn bs s1 batch1))"

text \<open>
  \<open>sh\<close> is what \<open>shards\<close> returns (see \<open>Shards\<close>): the master shards of a cluster, none for a
  standalone server. A dispatcher without a backend dereferences nil.
\<close>

definition stream_snapshot :: "('b, 'f, 'u) env \<Rightarrow> ('b \<Rightarrow> 'b list) \<Rightarrow> ('b \<Rightarrow> int) \<Rightarrow> ('b, 'f) dispatcher \<Rightarrow> 's sender \<Rightarrow> 's \<Rightarrow>
    (('b, 'f) dispatcher \<times> 's \<times> snap_error option) outcome option" where
  "stream_snapshot ev sh clk d fn s =
     (case dp_backend d of
        None \<Rightarrow> Some (Panic ''nil pointer dereference'')
      | Some b \<Rightarrow>
          map_option (\<lambda>r. bind_outcome r (\<lambda>(bs, s1, batch, e).
            let d1 = (if sh b = [] then d\<lparr>dp_backend := Some (hd bs)\<rparr> else d) in
            case e of
              Some x \<Rightarrow> Done (d1, s1, Some x)
            | None \<Rightarrow>
                if batch \<noteq> [] then (case fn s1 batch of (s2, r2) \<Rightarrow> Done (d1, s2, map_option SnSend r2))
                else Done (d1, s1, None)))
            (snap_shards (ev_do ev) clk fn (if sh b = [] then [b] else sh b) s []))"

section \<open>What is sent\<close>

text \<open>A receiver that never fails, and the one that keeps every batch.\<close>

definition accepting :: "('s \<Rightarrow> bytes list list \<Rightarrow> 's) \<Rightarrow> 's sender" where
  "accepting g s batch = (g s batch, None)"

abbreviation collect :: "bytes list list list sender" where
  "collect \<equiv> accepting (\<lambda>s batch. s @ [batch])"

lemma foldl_collect [simp]: "foldl (\<lambda>s batch. s @ [batch]) s out = s @ out"
  by (induction out arbitrary: s) simp_all

text \<open>
  The contract of \<open>SCAN\<close>: the pages of keys a full iteration from a cursor returns, the last
  of them with cursor 0. The backend does not change meanwhile.
\<close>

fun scan_pages :: "('b \<Rightarrow> bytes list \<Rightarrow> 'b \<times> (go_error + reply)) \<Rightarrow> 'b \<Rightarrow> nat \<Rightarrow> string list list \<Rightarrow> bool" where
  "scan_pages bdo b c [] = False"
| "scan_pages bdo b c (ks # pages) =
     (\<exists>nc krs. bdo b [''SCAN'', format_uint c, ''COUNT'', ''1000''] = (b, Inr (RpArr [nc, RpArr krs]))
        \<and> ks = map sprint krs
        \<and> (if cursor_of (sprint nc) = 0 then pages = [] else scan_pages bdo b (cursor_of (sprint nc)) pages))"

text \<open>Every batch is full when it is sent; what is left over is not.\<close>

definition full_batches :: "bytes list list list \<Rightarrow> bool" where
  "full_batches out \<longleftrightarrow> list_all (\<lambda>x. batch_size \<le> length x) out"

text \<open>
  Reading keys one after the other, from a backend that may change in between: \<open>P\<close> holds of its states, and
  the commands of each key are in the relation \<open>R\<close> to it.
\<close>

lemma snap_keys_run:
  assumes "\<And>b k. P b \<Longrightarrow> k \<in> set ks \<Longrightarrow> \<exists>b' c. scan_key bdo clk b k = Done (b', c) \<and> P b' \<and> R k c"
    and "P b" and "length batch < batch_size"
  shows "\<exists>b' out rest cs. snap_keys bdo clk (accepting g) b s batch ks = Done (b', foldl g s out, rest, None) \<and> P b'
    \<and> concat out @ rest = batch @ concat cs \<and> list_all2 R ks cs \<and> full_batches out \<and> length rest < batch_size"
  using assms
proof (induction ks arbitrary: b s batch)
  case Nil
  then show ?case by (intro exI [of _ b] exI [of _ "[]"] exI [of _ batch]) (simp add: full_batches_def)
next
  case (Cons k ks)
  obtain b1 c where k: "scan_key bdo clk b k = Done (b1, c)" "P b1" "R k c" using Cons.prems(1) [OF Cons.prems(2), of k] by auto
  have IH: "length bt < batch_size \<Longrightarrow> \<exists>b' out rest cs. snap_keys bdo clk (accepting g) b1 s bt ks = Done (b', foldl g s out, rest, None) \<and> P b'
      \<and> concat out @ rest = bt @ concat cs \<and> list_all2 R ks cs \<and> full_batches out \<and> length rest < batch_size" for s bt
    using Cons.IH [OF _ k(2)] Cons.prems(1) by simp
  show ?case
  proof (cases "batch_size \<le> length (batch @ c)")
    case True
    from IH [of "[]" "g s (batch @ c)"] obtain b' out rest cs where
      "snap_keys bdo clk (accepting g) b1 (g s (batch @ c)) [] ks = Done (b', foldl g (g s (batch @ c)) out, rest, None)" "P b'"
      "concat out @ rest = concat cs" "list_all2 R ks cs" "full_batches out" "length rest < batch_size" by (auto simp: batch_size_def)
    with k True show ?thesis
      by (intro exI [of _ b'] exI [of _ "(batch @ c) # out"] exI [of _ rest] exI [of _ "c # cs"])
        (simp add: accepting_def [of g s "batch @ c"] full_batches_def)
  next
    case False
    with IH [of "batch @ c" s] obtain b' out rest cs where
      "snap_keys bdo clk (accepting g) b1 s (batch @ c) ks = Done (b', foldl g s out, rest, None)" "P b'"
      "concat out @ rest = (batch @ c) @ concat cs" "list_all2 R ks cs" "full_batches out" "length rest < batch_size" by auto
    with k False show ?thesis
      by (intro exI [of _ b'] exI [of _ out] exI [of _ rest] exI [of _ "c # cs"]) simp
  qed
qed

lemma snap_keys_accepting:
  assumes "\<And>k. k \<in> set ks \<Longrightarrow> scan_key bdo clk b k = Done (b, cmds k)" and "length batch < batch_size"
  shows "\<exists>out rest. snap_keys bdo clk (accepting g) b s batch ks = Done (b, foldl g s out, rest, None)
    \<and> concat out @ rest = batch @ concat (map cmds ks) \<and> full_batches out \<and> length rest < batch_size"
proof -
  obtain out rest cs where "snap_keys bdo clk (accepting g) b s batch ks = Done (b, foldl g s out, rest, None)"
    "concat out @ rest = batch @ concat cs" "list_all2 (\<lambda>k c. c = cmds k) ks cs" "full_batches out" "length rest < batch_size"
    using snap_keys_run [of "\<lambda>x. x = b" ks bdo clk "\<lambda>k c. c = cmds k" b batch g s] assms by auto
  moreover from this(3) have "cs = map cmds ks" by (simp add: list_all2_conv_all_nth list_eq_iff_nth_eq)
  ultimately show ?thesis by blast
qed

lemma snap_shard_accepting:
  assumes "scan_pages bdo b c pages" and "\<And>k. k \<in> set (concat pages) \<Longrightarrow> scan_key bdo clk b k = Done (b, cmds k)"
    and "length batch < batch_size"
  shows "\<exists>out rest. snap_shard bdo clk (accepting g) c b s batch = Some (Done (b, foldl g s out, rest, None))
    \<and> concat out @ rest = batch @ concat (map cmds (concat pages)) \<and> full_batches out \<and> length rest < batch_size"
  using assms
proof (induction pages arbitrary: c s batch)
  case Nil
  then show ?case by simp
next
  case (Cons ks pages)
  obtain nc krs where scan: "bdo b [''SCAN'', format_uint c, ''COUNT'', ''1000''] = (b, Inr (RpArr [nc, RpArr krs]))"
    and ks: "ks = map sprint krs"
    and nxt: "if cursor_of (sprint nc) = 0 then pages = [] else scan_pages bdo b (cursor_of (sprint nc)) pages"
    using Cons.prems(1) by auto
  from snap_keys_accepting [of ks bdo clk b cmds batch g s] Cons.prems(2,3) obtain out rest where
    o: "snap_keys bdo clk (accepting g) b s batch ks = Done (b, foldl g s out, rest, None)"
    "concat out @ rest = batch @ concat (map cmds ks)" "full_batches out" "length rest < batch_size" by auto
  note step = snap_shard.simps [of bdo clk "accepting g" c b s batch]
  show ?case
  proof (cases "cursor_of (sprint nc) = 0")
    case True
    with o nxt scan ks show ?thesis by (intro exI [of _ out] exI [of _ rest]) (simp add: step)
  next
    case False
    with Cons.IH [of "cursor_of (sprint nc)" rest "foldl g s out"] nxt Cons.prems(2) o(4) obtain out2 rest2 where
      o2: "snap_shard bdo clk (accepting g) (cursor_of (sprint nc)) b (foldl g s out) rest = Some (Done (b, foldl g (foldl g s out) out2, rest2, None))"
      "concat out2 @ rest2 = rest @ concat (map cmds (concat pages))" "full_batches out2" "length rest2 < batch_size" by auto
    from o2(2) o(2) have "concat (out @ out2) @ rest2 = batch @ concat (map cmds (concat (ks # pages)))"
      by (metis append_assoc concat.simps(2) concat_append map_append)
    with o o2 scan ks False show ?thesis
      by (intro exI [of _ "out @ out2"] exI [of _ rest2]) (simp add: step full_batches_def)
  qed
qed

text \<open>A shard with the keys it holds, page by page, and the commands that rebuild each.\<close>

definition shard_reads :: "('b \<Rightarrow> bytes list \<Rightarrow> 'b \<times> (go_error + reply)) \<Rightarrow> ('b \<Rightarrow> int) \<Rightarrow> 'b \<Rightarrow> (string \<times> bytes list list) list \<Rightarrow> bool" where
  "shard_reads bdo clk b kcs \<longleftrightarrow>
     (\<exists>pages. scan_pages bdo b 0 pages \<and> concat pages = map fst kcs) \<and> (\<forall>(k, cmds) \<in> set kcs. scan_key bdo clk b k = Done (b, cmds))"

lemma shard_reads_accepting:
  assumes "shard_reads bdo clk b kcs" and "length batch < batch_size"
  shows "\<exists>out rest. snap_shard bdo clk (accepting g) 0 b s batch = Some (Done (b, foldl g s out, rest, None))
    \<and> concat out @ rest = batch @ concat (map snd kcs) \<and> full_batches out \<and> length rest < batch_size"
proof -
  obtain pages where p: "scan_pages bdo b 0 pages" "concat pages = map fst kcs"
    and k: "\<forall>(k, cmds) \<in> set kcs. scan_key bdo clk b k = Done (b, cmds)" using assms(1) by (auto simp: shard_reads_def)
  define cmds where "cmds k = snd (case scan_key bdo clk b k of Done r \<Rightarrow> r | Panic m \<Rightarrow> (b, []))" for k
  have 1: "scan_key bdo clk b x = Done (b, cmds x)" if "x \<in> set (concat pages)" for x
    using that k p(2) by (auto simp: cmds_def)
  have "map cmds (map fst kcs) = map snd kcs" using k by (auto simp: cmds_def)
  with snap_shard_accepting [OF p(1) 1 assms(2), of g s] show ?thesis by (simp only: p(2))
qed

lemma snap_shards_accepting:
  assumes "list_all2 (shard_reads bdo clk) bs kcss" and "length batch < batch_size"
  shows "\<exists>out rest. snap_shards bdo clk (accepting g) bs s batch = Some (Done (bs, foldl g s out, rest, None))
    \<and> concat out @ rest = batch @ concat (map snd (concat kcss)) \<and> full_batches out \<and> length rest < batch_size"
  using assms
proof (induction bs kcss arbitrary: s batch rule: list_all2_induct)
  case Nil
  then show ?case by (intro exI [of _ "[]"] exI [of _ batch]) (simp add: full_batches_def)
next
  case (Cons b bs kcs kcss)
  from shard_reads_accepting [OF Cons.hyps(1) Cons.prems, of g s] obtain out rest where
    o: "snap_shard bdo clk (accepting g) 0 b s batch = Some (Done (b, foldl g s out, rest, None))"
    "concat out @ rest = batch @ concat (map snd kcs)" "full_batches out" "length rest < batch_size" by auto
  from Cons.IH [OF o(4), of "foldl g s out"] obtain out2 rest2 where
    o2: "snap_shards bdo clk (accepting g) bs (foldl g s out) rest = Some (Done (bs, foldl g (foldl g s out) out2, rest2, None))"
    "concat out2 @ rest2 = rest @ concat (map snd (concat kcss))" "full_batches out2" "length rest2 < batch_size" by auto
  from o2(2) o(2) have "concat (out @ out2) @ rest2 = batch @ concat (map snd (concat (kcs # kcss)))"
    by (metis append_assoc concat.simps(2) concat_append map_append)
  with o o2 show ?case
    by (intro exI [of _ "out @ out2"] exI [of _ rest2]) (simp add: full_batches_def)
qed

lemma stream_snapshot_accepting:
  assumes "dp_backend d = Some b" and "bs = (if sh b = [] then [b] else sh b)"
    and "list_all2 (shard_reads (ev_do ev) clk) bs kcss"
  shows "\<exists>out. stream_snapshot ev sh clk d (accepting g) s = Some (Done (d, foldl g s out, None))
    \<and> concat out = concat (map snd (concat kcss))
    \<and> [] \<notin> set out \<and> full_batches (butlast out)"
proof -
  have "length ([] :: bytes list list) < batch_size" by (simp add: batch_size_def)
  from snap_shards_accepting [OF assms(3) this, of g s] obtain out rest where
    o: "snap_shards (ev_do ev) clk (accepting g) bs s [] = Some (Done (bs, foldl g s out, rest, None))"
    "concat out @ rest = concat (map snd (concat kcss))" "full_batches out" "length rest < batch_size" by auto
  have d: "(if sh b = [] then d\<lparr>dp_backend := Some (hd bs)\<rparr> else d) = d" using assms(1,2) by simp
  have "[] \<notin> set out" using o(3) by (auto simp: full_batches_def list_all_iff batch_size_def)
  moreover have "full_batches (butlast out)" using o(3) by (auto simp: full_batches_def list_all_iff dest: in_set_butlastD)
  moreover have "stream_snapshot ev sh clk d (accepting g) s =
      Some (Done (d, foldl g s (if rest = [] then out else out @ [rest]), None))"
    using assms(1) o(1) d unfolding stream_snapshot_def assms(2) by (simp add: accepting_def)
  ultimately show ?thesis using o(2,3)
    by (intro exI [of _ "if rest = [] then out else out @ [rest]"]) auto
qed

section \<open>Properties\<close>

text \<open>C20 snapshot_sends_every_key. When \<open>SCAN\<close> on every shard walks through its keys and ends
  with cursor 0, \<open>StreamSnapshot\<close> returns without error and leaves the backend as it is; the
  batches it hands to its receiver are, one after the other, exactly the commands of every key of every
  shard in the order of the scan. Every batch but the last holds at least 500 commands, and
  none is empty.\<close>

theorem snapshot_sends_every_key:
  assumes "dp_backend d = Some b" and "bs = (if sh b = [] then [b] else sh b)"
    and "list_all2 (shard_reads (ev_do ev) clk) bs kcss"
  shows "\<exists>out. stream_snapshot ev sh clk d (accepting g) s = Some (Done (d, foldl g s out, None))
    \<and> concat out = concat (map snd (concat kcss))
    \<and> [] \<notin> set out \<and> full_batches (butlast out)"
  by (rule stream_snapshot_accepting [of d b bs sh, OF assms])

definition demo_keys :: "unit \<Rightarrow> bytes list \<Rightarrow> unit \<times> (go_error + reply)" where
  "demo_keys u as = (u, Inr (
     if hd as = ''SCAN'' then RpArr [RpStr (format_uint 0), RpArr [RpStr ''k'']]
     else if hd as = ''TYPE'' then RpStr ''string''
     else if hd as = ''GET'' then RpStr ''v''
     else RpInt 1000))"

definition demo_snap_env :: "(unit, unit, unit) env" where
  "demo_snap_env = \<lparr>ev_do = demo_keys, ev_forward = \<lambda>f u c. (u, Inr RpNil), ev_codec = wire, ev_upper = \<lambda>s. s,
     ev_quote = \<lambda>s. s, ev_wal_text = \<lambda>_. []\<rparr>"

lemma demo_shard_reads: "shard_reads demo_keys (\<lambda>_. 5) () [(''k'', [[''SET'', ''k'', ''v''], [''PEXPIREAT'', ''k'', format_int 1005]])]"
proof -
  let ?c = "[[''SET'', ''k'', ''v''], [''PEXPIREAT'', ''k'', format_int 1005]]"
  have c0: "cursor_of (format_uint 0) = 0" by (simp add: cursor_of_def parse_uint_format)
  have "scan_pages demo_keys () 0 [[''k'']]" by (simp add: demo_keys_def c0)
  moreover have "scan_key demo_keys (\<lambda>_. 5) () ''k'' = Done ((), ?c)"
    by (simp add: scan_key_def scan_string_def do_val_def demo_keys_def bargs_def Let_def wrap64_def)
  ultimately show ?thesis
    unfolding shard_reads_def by (intro conjI exI [of _ "[[''k'']]"]) simp_all
qed

theorem snapshot_sends_every_key_witness:
  "\<exists>out. stream_snapshot demo_snap_env (\<lambda>_. []) (\<lambda>_. 5) (new_dispatcher (Some ()) new_router None True None False False) collect []
      = Some (Done (new_dispatcher (Some ()) new_router None True None False False, out, None))
    \<and> concat out = [[''SET'', ''k'', ''v''], [''PEXPIREAT'', ''k'', format_int 1005]]"
proof -
  let ?d = "new_dispatcher (Some ()) new_router None True None False False :: (unit, unit) dispatcher"
  let ?c = "[[''SET'', ''k'', ''v''], [''PEXPIREAT'', ''k'', format_int 1005]]"
  from snapshot_sends_every_key [of ?d "()" "[()]" "\<lambda>_. []" demo_snap_env "\<lambda>_. 5" "[[(''k'', ?c)]]" "\<lambda>s batch. s @ [batch]" "[]"]
    demo_shard_reads show ?thesis by (auto simp: new_dispatcher_def demo_snap_env_def)
qed

section \<open>Replaying commands\<close>

primrec replay :: "('b \<Rightarrow> bytes list \<Rightarrow> 'b \<times> (go_error + reply)) \<Rightarrow> 'b \<Rightarrow> bytes list list \<Rightarrow> 'b" where
  "replay bdo b [] = b"
| "replay bdo b (c # cs) = replay bdo (fst (bdo b c)) cs"

lemma replay_append [simp]: "replay bdo b (cs @ ds) = replay bdo (replay bdo b cs) ds"
  by (induction cs arbitrary: b) simp_all

definition list_reads :: "('b \<Rightarrow> bytes list \<Rightarrow> 'b \<times> (go_error + reply)) \<Rightarrow> 'b \<Rightarrow> string \<Rightarrow> string list \<Rightarrow> bool" where
  "list_reads bdo b k xs \<longleftrightarrow> bdo b [''LRANGE'', k, ''0'', ''-1''] = (b, Inr (RpArr (map RpStr xs)))"

text \<open>C39 snapshot_reverses_lists. A list is snapshot in the wrong direction: by the documented
  behaviour of \<open>RPUSH\<close>, which appends at the end, replaying the commands \<open>scanKey\<close> emits for
  a list on a node without that key leaves the list in reverse order.\<close>

theorem snapshot_reverses_lists:
  assumes "bdo b [''TYPE'', k] = (b, Inr (RpStr ''list''))" and "list_reads bdo b k xs"
    and "\<And>b ys y. list_reads bdo b k ys \<Longrightarrow> list_reads bdo (fst (bdo b [''RPUSH'', k, y])) k (ys @ [y])"
    and "list_reads bdo b0 k []"
  shows "\<exists>cmds. scan_key bdo clk b k = Done (b, cmds) \<and> list_reads bdo (replay bdo b0 cmds) k (rev xs)"
proof -
  have push: "list_reads bdo (replay bdo b' (map (\<lambda>x. [''RPUSH'', k, x]) zs)) k (ys @ zs)" if "list_reads bdo b' k ys" for b' ys zs
    using that
  proof (induction zs arbitrary: b' ys)
    case (Cons z zs)
    from Cons.IH [OF assms(3) [OF Cons.prems]] show ?case by simp
  qed simp
  have "scan_key bdo clk b k = Done (b, map (\<lambda>x. [''RPUSH'', k, x]) (rev xs))"
    using assms(1,2) by (simp add: scan_key_def do_val_def list_reads_def Let_def elements_def bargs_def rev_map)
  with push [OF assms(4), of "rev xs"] show ?thesis by auto
qed

definition demo_list :: "string list \<Rightarrow> bytes list \<Rightarrow> string list \<times> (go_error + reply)" where
  "demo_list l as =
     (if hd as = ''RPUSH'' then (l @ drop 2 as, Inr (RpInt (int (length l + length as - 2))))
      else if hd as = ''LRANGE'' then (l, Inr (RpArr (map RpStr l)))
      else (l, Inr (RpStr ''list'')))"

theorem snapshot_reverses_lists_witness:
  "\<exists>cmds. scan_key demo_list (\<lambda>_. 0) [''a'', ''b''] ''q'' = Done ([''a'', ''b''], cmds)
     \<and> list_reads demo_list (replay demo_list [] cmds) ''q'' [''b'', ''a'']"
  using snapshot_reverses_lists [of demo_list "[''a'', ''b'']" "''q''" "[''a'', ''b'']" "[]" "\<lambda>_. 0"]
  by (simp add: demo_list_def list_reads_def)

end
