(* ===== verification/Repl_Server.thy ===== *)
theory Repl_Server
  imports Snapshot
begin

text \<open>
  The replication server, \<open>internal/sync/server.go\<close>: the RPCs \<open>Subscribe\<close>, \<open>Ack\<close> and
  \<open>Forward\<close>. \<open>main\<close> gives the server its dispatcher and the dispatcher's own log (or
  neither, on a load balancer), one pointer in two places, so the log is read through the
  dispatcher here. Sending on the stream of a subscriber and subscribing to an upstream node
  are calls of the RPC library and arguments. \<open>Subscribe\<close> never returns while the connection
  is up: it is split into what happens before the loop, one round of the inner loop, the
  inner loop, and the wait for the notification channel, between which other goroutines run.
\<close>

section \<open>Definitions\<close>

record ('b, 'f) sync_server =
  sv_writer :: "('b, 'f) dispatcher option"
  sv_max_batch :: int
  sv_upstream :: "string list"
  sv_watermarks :: "string \<rightharpoonup> u64"

definition default_max_batch :: int where
  "default_max_batch = 256"

definition new_server :: "('b, 'f) dispatcher option \<Rightarrow> int \<Rightarrow> ('b, 'f) sync_server" where
  "new_server wr maxBatch =
     \<lparr>sv_writer = wr, sv_max_batch = (if maxBatch \<le> 0 then default_max_batch else maxBatch),
      sv_upstream = [], sv_watermarks = (\<lambda>_. None)\<rparr>"

definition set_upstream :: "string list \<Rightarrow> ('b, 'f) sync_server \<Rightarrow> ('b, 'f) sync_server" where
  "set_upstream addrs sv = sv\<lparr>sv_upstream := addrs\<rparr>"

definition sv_wal :: "('b, 'f) sync_server \<Rightarrow> (disk \<times> wal) option" where
  "sv_wal sv = Option.bind (sv_writer sv) dp_wal"

definition sv_update_wal :: "(wal \<Rightarrow> wal) \<Rightarrow> ('b, 'f) sync_server \<Rightarrow> ('b, 'f) sync_server" where
  "sv_update_wal f sv =
     sv\<lparr>sv_writer := map_option (\<lambda>d. d\<lparr>dp_wal := map_option (apsnd f) (dp_wal d)\<rparr>) (sv_writer sv)\<rparr>"

text \<open>A key that is absent from a Go map reads as 0.\<close>

definition acked :: "('b, 'f) sync_server \<Rightarrow> string \<Rightarrow> u64" where
  "acked sv who = (case sv_watermarks sv who of None \<Rightarrow> 0 | Some x \<Rightarrow> x)"

text \<open>\<open>Ack\<close> returns the lag it records as a metric. Without a log \<open>NextSeq\<close> dereferences nil.\<close>

definition ack :: "('b, 'f) sync_server \<Rightarrow> ack_request \<Rightarrow> (('b, 'f) sync_server \<times> u64) outcome" where
  "ack sv req =
     (let sv1 = (if acked sv (ar_follower_id req) < applied_seq req
                 then sv\<lparr>sv_watermarks := (sv_watermarks sv)(ar_follower_id req \<mapsto> applied_seq req)\<rparr> else sv)
      in case sv_wal sv1 of
           None \<Rightarrow> Panic ''nil pointer dereference''
         | Some dw \<Rightarrow> Done (sv1, next_seq dw - applied_seq req))"

definition sv_forward :: "('b, 'f, 'u) env \<Rightarrow> int \<Rightarrow> ('b, 'f) sync_server \<Rightarrow> forward_request \<Rightarrow>
    (('b, 'f) sync_server \<times> forward_reply) outcome" where
  "sv_forward ev now sv req =
     (case sv_writer sv of
        None \<Rightarrow> Panic ''nil pointer dereference''
      | Some d \<Rightarrow>
          (case dispatch_write ev now d (fr_args req) of
             (d', Inl e) \<Rightarrow>
               Done (sv\<lparr>sv_writer := Some d'\<rparr>,
                 if is_redis_nil e then \<lparr>fr_value = [], is_nil = True\<rparr>
                 else \<lparr>fr_value = ''-'' @ error_text e, is_nil = False\<rparr>)
           | (d', Inr v) \<Rightarrow>
               Done (sv\<lparr>sv_writer := Some d'\<rparr>, \<lparr>fr_value = sprint v, is_nil = False\<rparr>)))"

section \<open>Subscribing\<close>

datatype sub_error = SubWal wal_error | SubSnap snap_error | SubSend string | SubNoUpstream | SubUpstream string

type_synonym 's batch_sender = "'s \<Rightarrow> sync_batch \<Rightarrow> 's \<times> string option"

text \<open>
  What an upstream node answers to \<open>Subscribe\<close>: an error, or the batches it sends and how
  the stream ends (\<open>None\<close> is the end of the stream).
\<close>

type_synonym upstream = "string \<Rightarrow> subscribe_request \<Rightarrow> string + sync_batch list \<times> string option"

fun relay_batches :: "'s batch_sender \<Rightarrow> 's \<Rightarrow> sync_batch list \<Rightarrow> string option \<Rightarrow> 's \<times> sub_error option" where
  "relay_batches send s [] fin = (s, map_option SubUpstream fin)"
| "relay_batches send s (b # bs) fin =
     (case send s b of
        (s', Some e) \<Rightarrow> (s', Some (SubSend e))
      | (s', None) \<Rightarrow> relay_batches send s' bs fin)"

definition proxy_full_sync :: "upstream \<Rightarrow> 's batch_sender \<Rightarrow> ('b, 'f) sync_server \<Rightarrow> 's \<Rightarrow> 's \<times> sub_error option" where
  "proxy_full_sync up send sv s =
     (case sv_upstream sv of
        [] \<Rightarrow> (s, Some SubNoUpstream)
      | addr # _ \<Rightarrow>
          (case up addr \<lparr>follower_region = [], sr_follower_id = [], from_seq = 0\<rparr> of
             Inl e \<Rightarrow> (s, Some (SubUpstream e))
           | Inr (bs, fin) \<Rightarrow> relay_batches send s bs fin))"

fun number_cmds :: "u64 \<Rightarrow> bytes list list \<Rightarrow> walentry list \<times> u64" where
  "number_cmds seq [] = ([], seq)"
| "number_cmds seq (c # cs) =
     (case number_cmds (seq + 1) cs of (es, seq') \<Rightarrow> (\<lparr>seq_id = seq, args = c, timestamp_ms = 0\<rparr> # es, seq'))"

definition send_snapshot :: "'s batch_sender \<Rightarrow> (u64 \<times> 's) sender" where
  "send_snapshot send st cmds =
     (case st of (seq, s) \<Rightarrow>
        (case number_cmds seq cmds of
           (es, seq') \<Rightarrow>
             (case send s \<lparr>entries = es, up_to_seq = seq' - 1\<rparr> of (s', r) \<Rightarrow> ((seq', s'), r))))"

definition full_sync :: "('b, 'f, 'u) env \<Rightarrow> ('b \<Rightarrow> 'b list) \<Rightarrow> ('b \<Rightarrow> int) \<Rightarrow> upstream \<Rightarrow> 's batch_sender \<Rightarrow>
    ('b, 'f) sync_server \<Rightarrow> 's \<Rightarrow> (('b, 'f) sync_server \<times> 's \<times> sub_error option) outcome option" where
  "full_sync ev sh clk up send sv s =
     (case sv_writer sv of
        None \<Rightarrow> (case proxy_full_sync up send sv s of (s', r) \<Rightarrow> Some (Done (sv, s', r)))
      | Some _ \<Rightarrow>
          let sv1 = sv_update_wal (\<lambda>w. fst (start_snapshot w)) sv in
          map_option (\<lambda>r. bind_outcome r (\<lambda>(d', st, err).
            let sv2 = sv1\<lparr>sv_writer := Some d'\<rparr> in
            case err of
              Some e \<Rightarrow> Done (sv_update_wal abort_snapshot sv2, snd st, Some (SubSnap e))
            | None \<Rightarrow> Done (sv2, snd st, None)))
            (stream_snapshot ev sh clk (the (sv_writer sv1)) (send_snapshot send) (1, s)))"

text \<open>
  Up to the loop: the result is the end of the call, or the cursor and the notification
  channel the loop works with.
\<close>

datatype sub_phase = Ended "sub_error option" | Streaming u64 nat

definition subscribe :: "('b, 'f, 'u) env \<Rightarrow> ('b \<Rightarrow> 'b list) \<Rightarrow> ('b \<Rightarrow> int) \<Rightarrow> upstream \<Rightarrow> 's batch_sender \<Rightarrow>
    ('b, 'f) sync_server \<Rightarrow> subscribe_request \<Rightarrow> 's \<Rightarrow> (('b, 'f) sync_server \<times> 's \<times> sub_phase) outcome option" where
  "subscribe ev sh clk up send sv req s =
     (case sv_wal sv of
        None \<Rightarrow> (case proxy_full_sync up send sv s of (s', r) \<Rightarrow> Some (Done (sv, s', Ended r)))
      | Some dw \<Rightarrow>
          let ch = snd (wal_notify (snd dw)); sv1 = sv_update_wal (\<lambda>w. fst (wal_notify w)) sv;
              from = from_seq req; mn = min_seq dw
          in if from = 0 \<or> (0 < mn \<and> from < mn) then
               map_option (\<lambda>r. bind_outcome r (\<lambda>(sv2, s', err).
                 case err of
                   Some e \<Rightarrow> Done (sv2, s', Ended (Some e))
                 | None \<Rightarrow>
                     let mn' = min_seq (the (sv_wal sv2)) in
                     Done (sv2, s', Streaming (if mn' = 0 then 1 else mn') ch)))
                 (full_sync ev sh clk up send sv1 s)
             else Some (Done (sv1, s, Streaming from ch)))"

text \<open>One round of the inner loop: \<open>None\<close> when there is nothing to send, else the next cursor.\<close>

definition sub_round :: "codec \<Rightarrow> 's batch_sender \<Rightarrow> int \<Rightarrow> disk \<times> wal \<Rightarrow> u64 \<Rightarrow> 's \<Rightarrow>
    ('s \<times> (sub_error + u64 option)) outcome" where
  "sub_round cd send maxBatch dw from s =
     bind_outcome (read_from cd dw from maxBatch) (\<lambda>r.
       case r of
         Inl e \<Rightarrow> Done (s, Inl (SubWal e))
       | Inr es \<Rightarrow>
           if es = [] then Done (s, Inr None)
           else let upTo = seq_id (last es) in
             (case send s \<lparr>entries = es, up_to_seq = upTo\<rparr> of
                (s', Some e) \<Rightarrow> Done (s', Inl (SubSend e))
              | (s', None) \<Rightarrow> Done (s', Inr (Some (upTo + 1)))))"

partial_function (option) sub_drain :: "codec \<Rightarrow> 's batch_sender \<Rightarrow> int \<Rightarrow> disk \<times> wal \<Rightarrow> u64 \<Rightarrow> 's \<Rightarrow>
    ('s \<times> (sub_error + u64)) outcome option" where
  "sub_drain cd send maxBatch dw from s =
     (case sub_round cd send maxBatch dw from s of
        Panic m \<Rightarrow> Some (Panic m)
      | Done (s', Inl e) \<Rightarrow> Some (Done (s', Inl e))
      | Done (s', Inr None) \<Rightarrow> Some (Done (s', Inr from))
      | Done (s', Inr (Some from')) \<Rightarrow> sub_drain cd send maxBatch dw from' s')"

text \<open>Receiving from the channel: possible when it holds a value, which it takes out.\<close>

definition sub_wait :: "wal \<Rightarrow> nat \<Rightarrow> wal option" where
  "sub_wait w ch = (if wl_notify w ! ch then Some (w\<lparr>wl_notify := (wl_notify w)[ch := False]\<rparr>) else None)"

section \<open>Sending the log\<close>

text \<open>A stream that takes every batch.\<close>

definition collect_batch :: "sync_batch list batch_sender" where
  "collect_batch s b = (s @ [b], None)"

definition batch_of :: "walentry list \<Rightarrow> sync_batch" where
  "batch_of es = \<lparr>entries = es, up_to_seq = seq_id (last es)\<rparr>"

lemma batch_of_simps [simp]: "entries (batch_of es) = es" "up_to_seq (batch_of es) = seq_id (last es)"
  by (simp_all add: batch_of_def)

text \<open>The fields a subscription changes are not part of the log.\<close>

lemma wal_log_notify [simp]: "wal_log cd (d, w\<lparr>wl_notify := x\<rparr>) es = wal_log cd (d, w) es"
  by (simp add: wal_log_def wal_rep_def segs_rep_def)

lemma wal_log_snapshot [simp]: "wal_log cd (d, w\<lparr>wl_snapshot := x\<rparr>) es = wal_log cd (d, w) es"
  by (simp add: wal_log_def wal_rep_def segs_rep_def)

lemma sv_wal_update: "sv_wal (sv_update_wal f sv) = map_option (apsnd f) (sv_wal sv)"
  by (cases "sv_writer sv") (simp_all add: sv_wal_def sv_update_wal_def)

lemma sub_round_log:
  assumes "codec_ok cd" and "wal_log cd dw es" and "0 < k"
  shows "sub_round cd collect_batch (int k) dw c s =
    (let b = take k (wanted c es) in
     if b = [] then Done (s, Inr None) else Done (s @ [batch_of b], Inr (Some (seq_id (last b) + 1))))"
  using ordered_log.rd_rep [OF wal_ordered_log [OF assms(1)] assms(2,3), of c]
  by (simp add: sub_round_def Let_def collect_batch_def batch_of_def)

definition batches_of :: "nat \<Rightarrow> walentry list \<Rightarrow> sync_batch list \<Rightarrow> bool" where
  "batches_of k es bs \<longleftrightarrow> concat (map entries bs) = es
     \<and> list_all (\<lambda>b. entries b \<noteq> [] \<and> length (entries b) \<le> k \<and> up_to_seq b = seq_id (last (entries b))) bs"

lemma take_drop_min [simp]: "take k xs @ drop (min (length xs) k) xs = xs"
  by (simp add: min_def)

lemma sub_drain_log:
  assumes "codec_ok cd" and "wal_log cd dw es" and "0 < k"
  shows "\<exists>bs. sub_drain cd collect_batch (int k) dw c s =
      Some (Done (s @ bs, Inr (if wanted c es = [] then c else next_seq dw))) \<and> batches_of k (wanted c es) bs"
proof (induction "length (wanted c es)" arbitrary: c s rule: less_induct)
  case less
  let ?b = "take k (wanted c es)" and ?c = "seq_id (last (take k (wanted c es))) + 1"
  note round = sub_round_log [OF assms(1-3)]
  show ?case
  proof (cases "wanted c es = []")
    case True
    then have "sub_drain cd collect_batch (int k) dw c s = Some (Done (s @ [], Inr c))"
      by (subst sub_drain.simps) (simp add: round Let_def)
    then show ?thesis using True by (intro exI [of _ "[]"]) (simp add: batches_of_def)
  next
    case False
    with assms(3) have b: "?b \<noteq> []" by simp
    note n = ordered_log.next_cursor [OF wal_ordered_log [OF assms(1)] assms(2) refl b]
    have "length (wanted ?c es) < length (wanted c es)" using n(1) b by simp
    moreover have c: "(if wanted ?c es = [] then ?c else next_seq dw) = next_seq dw" using n(1,3) by simp
    ultimately obtain bs where bs:
      "sub_drain cd collect_batch (int k) dw ?c (s @ [batch_of ?b]) = Some (Done ((s @ [batch_of ?b]) @ bs, Inr (next_seq dw)))"
      "batches_of k (wanted ?c es) bs" using less.hyps [of ?c "s @ [batch_of ?b]"] unfolding c by blast
    have "sub_drain cd collect_batch (int k) dw c s = Some (Done (s @ batch_of ?b # bs, Inr (next_seq dw)))"
      using bs(1) b by (subst sub_drain.simps) (simp add: round Let_def)
    moreover have "batches_of k (wanted c es) (batch_of ?b # bs)"
      using bs(2) b unfolding n(1) by (auto simp: batches_of_def)
    ultimately show ?thesis using False by (intro exI [of _ "batch_of ?b # bs"]) simp
  qed
qed

section \<open>A subscription and the appends it runs beside\<close>

text \<open>
  The goroutine of a subscription between its lock-protected reads, and the appends of the
  rest of the node: it is either about to read from its cursor, or blocked on its channel.
\<close>

record sub_state =
  ss_log :: "disk \<times> wal"
  ss_cursor :: u64
  ss_waiting :: bool
  ss_sent :: "sync_batch list"

inductive sub_step :: "codec \<Rightarrow> int \<Rightarrow> nat \<Rightarrow> sub_state \<Rightarrow> sub_state \<Rightarrow> bool" for cd k ch where
  appended: "wal_append cd (ss_log s) e = (dw, e', Inr n) \<Longrightarrow> unat (next_seq (ss_log s)) + 1 < 2 ^ 64 \<Longrightarrow>
    sub_step cd k ch s (s\<lparr>ss_log := dw\<rparr>)"
| sent: "\<not> ss_waiting s \<Longrightarrow> sub_round cd collect_batch k (ss_log s) (ss_cursor s) (ss_sent s) = Done (out, Inr (Some c)) \<Longrightarrow>
    sub_step cd k ch s (s\<lparr>ss_sent := out, ss_cursor := c\<rparr>)"
| blocked: "\<not> ss_waiting s \<Longrightarrow> sub_round cd collect_batch k (ss_log s) (ss_cursor s) (ss_sent s) = Done (out, Inr None) \<Longrightarrow>
    sub_step cd k ch s (s\<lparr>ss_waiting := True\<rparr>)"
| woken: "ss_waiting s \<Longrightarrow> sub_wait (snd (ss_log s)) ch = Some w \<Longrightarrow>
    sub_step cd k ch s (s\<lparr>ss_waiting := False, ss_log := (fst (ss_log s), w)\<rparr>)"

inductive_cases sub_stepE: "sub_step cd k ch s s'"

definition sub_inv :: "codec \<Rightarrow> nat \<Rightarrow> u64 \<Rightarrow> sub_state \<Rightarrow> bool" where
  "sub_inv cd ch c0 s \<longleftrightarrow>
     (\<exists>es. wal_log cd (ss_log s) es \<and> ch < length (wl_notify (snd (ss_log s)))
        \<and> ss_cursor s \<le> next_seq (ss_log s) \<and> c0 \<le> next_seq (ss_log s)
        \<and> wanted c0 es = concat (map entries (ss_sent s)) @ wanted (ss_cursor s) es
        \<and> (ss_waiting s \<and> \<not> wl_notify (snd (ss_log s)) ! ch \<longrightarrow> wanted (ss_cursor s) es = []))"

lemma roll_locked_notify: "roll_locked d w = (d', w', r) \<Longrightarrow> wl_notify w' = wl_notify w"
  by (auto simp: roll_locked_def seal_active_def Let_def split: option.splits prod.splits)

lemma wal_append_notify:
  "wal_append cd dw e = (dw', e', Inr n) \<Longrightarrow> wl_notify (snd dw') = map (\<lambda>_. True) (wl_notify (snd dw))"
  by (auto simp: wal_append_def append_open_def finish_append_def notify_all_def Let_def
      split: option.splits prod.splits if_splits dest!: roll_locked_notify)

lemma sub_step_inv:
  assumes "codec_ok cd" and "0 < k" and "sub_step cd (int k) ch s s'" and "sub_inv cd ch c0 s"
  shows "sub_inv cd ch c0 s'"
proof -
  from assms(4) obtain es where es: "wal_log cd (ss_log s) es" "ch < length (wl_notify (snd (ss_log s)))"
    "ss_cursor s \<le> next_seq (ss_log s)" "c0 \<le> next_seq (ss_log s)"
    "wanted c0 es = concat (map entries (ss_sent s)) @ wanted (ss_cursor s) es"
    "ss_waiting s \<and> \<not> wl_notify (snd (ss_log s)) ! ch \<longrightarrow> wanted (ss_cursor s) es = []"
    unfolding sub_inv_def by blast
  note log = wal_ordered_log [OF assms(1)]
  note round = sub_round_log [OF assms(1) es(1) assms(2), of "ss_cursor s" "ss_sent s"]
  from assms(3) show ?thesis
  proof cases
    case (appended e dw e' n)
    note a = ordered_log.app_rep [OF log es(1) appended(2,3)]
    have up: "next_seq (ss_log s) \<le> next_seq dw"
      using a unat_Suc [of "next_seq (ss_log s)"] appended(3) by (simp add: word_le_nat_alt)
    have "seq_id e' = next_seq (ss_log s)" using a by simp
    then have "wanted c0 (es @ [e']) = concat (map entries (ss_sent s)) @ wanted (ss_cursor s) (es @ [e'])"
      using es(3-5) by simp
    moreover have "ss_cursor s \<le> next_seq dw" "c0 \<le> next_seq dw" using up es(3,4) by (auto intro: order_trans)
    moreover have "wal_log cd dw (es @ [e'])" using a by blast
    ultimately show ?thesis using appended(1) es(2) wal_append_notify [OF appended(2)] unfolding sub_inv_def
      by (intro exI [of _ "es @ [e']"]) (simp del: wanted_simps)
  next
    case (sent out c)
    let ?b = "take k (wanted (ss_cursor s) es)"
    from sent(3) round have b: "?b \<noteq> []" "out = ss_sent s @ [batch_of ?b]" "c = seq_id (last ?b) + 1"
      by (auto simp: Let_def split: if_splits)
    note n = ordered_log.next_cursor [OF log es(1) refl b(1), folded b(3)]
    have w: "wanted (ss_cursor s) es = ?b @ wanted c es" unfolding n(1) by (simp add: min_def)
    have "wanted c0 es = concat (map entries out) @ wanted c es"
      unfolding b(2) using es(5) by (subst (asm) w) simp
    then show ?thesis using sent(1,2) es(1,2,4) n(2) unfolding sub_inv_def
      by (intro exI [of _ es]) (simp add: word_le_nat_alt)
  next
    case (blocked out)
    with round have "wanted (ss_cursor s) es = []" using assms(2) by (auto simp: Let_def split: if_splits)
    with blocked(1) es show ?thesis unfolding sub_inv_def by (intro exI [of _ es]) simp
  next
    case (woken w)
    obtain d w0 where dw: "ss_log s = (d, w0)" by fastforce
    with woken have "w = w0\<lparr>wl_notify := (wl_notify w0)[ch := False]\<rparr>" by (auto simp: sub_wait_def split: if_splits)
    with es dw woken(1) show ?thesis unfolding sub_inv_def
      by (intro exI [of _ es]) (simp add: next_seq_def)
  qed
qed

lemma sub_steps_inv:
  assumes "codec_ok cd" and "0 < k" and "(sub_step cd (int k) ch)\<^sup>*\<^sup>* s s'" and "sub_inv cd ch c0 s"
  shows "sub_inv cd ch c0 s'"
  using assms(3,4) by (induction rule: rtranclp_induct) (auto intro: sub_step_inv [OF assms(1,2)])

section \<open>Properties\<close>

text \<open>The state a subscription to a node with a log starts from.\<close>

definition subscribed :: "('b, 'f) sync_server \<Rightarrow> ('b, 'f) sync_server" where
  "subscribed sv = sv_update_wal (\<lambda>w. fst (wal_notify w)) sv"

lemma subscribe_starts:
  assumes "sv_wal sv = Some (d, w)" and "from_seq req \<noteq> 0" and "min_seq (d, w) \<le> from_seq req"
  shows "subscribe ev sh clk up send sv req s = Some (Done (subscribed sv, s, Streaming (from_seq req) (length (wl_notify w))))"
    and "sv_wal (subscribed sv) = Some (d, w\<lparr>wl_notify := wl_notify w @ [False]\<rparr>)"
  using assms by (auto simp: subscribe_def subscribed_def Let_def wal_notify_def sv_wal_update)

text \<open>C13 subscribe_sends_the_log. A subscriber whose position the log still covers is not sent a
  snapshot: \<open>Subscribe\<close> goes straight to streaming, and its inner loop returns after sending
  every entry from that position to the end of the log, once each and in order, in non-empty
  batches of at most the batch size, each labelled with the number of its last entry. The
  loop then waits with its cursor at the next number to be assigned (at the position asked
  for, if there was nothing to send).\<close>

theorem subscribe_sends_the_log:
  assumes "codec_ok cd" and "sv_wal sv = Some (d, w)" and "wal_log cd (d, w) es" and "sv_max_batch sv = int k" and "0 < k"
    and "from_seq req \<noteq> 0" and "min_seq (d, w) \<le> from_seq req"
  shows "\<exists>sv' w' ch bs. subscribe ev sh clk up collect_batch sv req [] = Some (Done (sv', [], Streaming (from_seq req) ch))
    \<and> sv_wal sv' = Some (d, w') \<and> wal_log cd (d, w') es
    \<and> sub_drain cd collect_batch (sv_max_batch sv) (d, w') (from_seq req) [] =
        Some (Done (bs, Inr (if wanted (from_seq req) es = [] then from_seq req else next_seq (d, w))))
    \<and> batches_of k (wanted (from_seq req) es) bs"
proof -
  let ?w = "w\<lparr>wl_notify := wl_notify w @ [False]\<rparr>"
  note s = subscribe_starts [OF assms(2,6,7)]
  have log: "wal_log cd (d, ?w) es" and nx: "next_seq (d, ?w) = next_seq (d, w)"
    using assms(3) by (simp_all add: next_seq_def)
  from sub_drain_log [OF assms(1) log assms(5), of "from_seq req" "[]", unfolded nx append_Nil] obtain bs where
    "sub_drain cd collect_batch (sv_max_batch sv) (d, ?w) (from_seq req) [] =
        Some (Done (bs, Inr (if wanted (from_seq req) es = [] then from_seq req else next_seq (d, w))))"
    "batches_of k (wanted (from_seq req) es) bs" unfolding assms(4) by blast
  with s(1,2) log show ?thesis by (intro exI conjI)
qed



text \<open>A primary with one entry in its log, and a follower that asks for it.\<close>

definition demo_server :: "disk \<times> wal \<Rightarrow> (unit, unit) sync_server" where
  "demo_server dw = new_server (Some (new_dispatcher None new_router (Some dw) True None False False)) 0"

definition demo_req :: "u64 \<Rightarrow> subscribe_request" where
  "demo_req n = \<lparr>follower_region = ''r'', sr_follower_id = ''f'', from_seq = n\<rparr>"

lemma demo_server_simps [simp]:
  "sv_wal (demo_server dw) = Some dw" "sv_max_batch (demo_server dw) = 256" "from_seq (demo_req n) = n"
  by (simp_all add: demo_server_def demo_req_def new_server_def new_dispatcher_def sv_wal_def default_max_batch_def)

lemma demo_one_entry:
  "\<exists>d w. wal_log wire (d, w) [demo_entry\<lparr>seq_id := 1\<rparr>] \<and> next_seq (d, w) = 2 \<and> min_seq (d, w) = 1"
proof -
  obtain d w e where w: "wal_log wire (d, w) [e]" "next_seq (d, w) = 2" "e = demo_entry\<lparr>seq_id := 1\<rparr>"
    using demo_append by blast
  then show ?thesis using wire.rep_min [OF w(1)] by (intro exI [of _ d] exI [of _ w]) simp
qed

theorem subscribe_sends_the_log_witness:
  "\<exists>d w sv' ch bs. subscribe demo_snap_env (\<lambda>_. []) (\<lambda>_. 0) (\<lambda>_ _. Inl []) collect_batch (demo_server (d, w)) (demo_req 1) []
      = Some (Done (sv', [], Streaming 1 ch))
    \<and> concat (map entries bs) = [demo_entry\<lparr>seq_id := 1\<rparr>]
    \<and> sub_drain wire collect_batch 256 (the (sv_wal sv')) 1 [] = Some (Done (bs, Inr 2))"
proof -
  obtain d w where w: "wal_log wire (d, w) [demo_entry\<lparr>seq_id := 1\<rparr>]" "next_seq (d, w) = 2" "min_seq (d, w) = 1"
    using demo_one_entry by blast
  obtain sv' w' ch bs where o:
    "subscribe demo_snap_env (\<lambda>_. []) (\<lambda>_. 0) (\<lambda>_ _. Inl []) collect_batch (demo_server (d, w)) (demo_req 1) []
      = Some (Done (sv', [], Streaming 1 ch))" "sv_wal sv' = Some (d, w')"
    "sub_drain wire collect_batch 256 (d, w') 1 [] = Some (Done (bs, Inr 2))"
    "batches_of 256 [demo_entry\<lparr>seq_id := 1\<rparr>] bs"
    using subscribe_sends_the_log [of wire "demo_server (d, w)" d w "[demo_entry\<lparr>seq_id := 1\<rparr>]" 256 "demo_req 1" demo_snap_env "\<lambda>_. []" "\<lambda>_. 0" "\<lambda>_ _. Inl []"]
      w wire_ok by auto
  have "concat (map entries bs) = [demo_entry\<lparr>seq_id := 1\<rparr>]" using o(4) by (simp add: batches_of_def)
  moreover have "sub_drain wire collect_batch 256 (the (sv_wal sv')) 1 [] = Some (Done (bs, Inr 2))" using o(2,3) by simp
  ultimately show ?thesis using o(1) by (intro exI conjI)
qed


section \<open>Forwarded writes\<close>

text \<open>
  The RPC between a forwarder and the server of the upstream node. A panic ends the upstream
  process, and the call fails.
\<close>

definition forward_rpc :: "('b, 'f, 'u) env \<Rightarrow> int \<Rightarrow> ('b, 'f) sync_server \<Rightarrow> forward_request \<Rightarrow>
    ('b, 'f) sync_server \<times> (string + forward_reply)" where
  "forward_rpc ev now sv req =
     (case sv_forward ev now sv req of
        Done (sv', r) \<Rightarrow> (sv', Inr r)
      | Panic m \<Rightarrow> (sv, Inl ''connection lost''))"

text \<open>What is left of a result after the trip through a string-valued reply.\<close>

definition flattened :: "go_error + reply \<Rightarrow> go_error + reply" where
  "flattened r =
     (case r of
        Inl e \<Rightarrow> Inl (if is_redis_nil e then redis_nil_lookalike else e)
      | Inr v \<Rightarrow> if sprint v \<noteq> [] \<and> hd (sprint v) = CHR ''-'' then Inl (GoErr (tl (sprint v))) else Inr (RpStr (sprint v)))"

lemma flattened_id_iff:
  "flattened r = r \<longleftrightarrow> (\<exists>m. r = Inl (GoErr m)) \<or> (\<exists>s. r = Inr (RpStr s) \<and> \<not> (s \<noteq> [] \<and> hd s = CHR ''-''))"
proof (cases r)
  case (Inl e)
  then show ?thesis by (cases e) (simp_all add: flattened_def is_redis_nil_def redis_nil_lookalike_def)
next
  case (Inr v)
  then show ?thesis by (cases v) (auto simp: flattened_def)
qed

lemma grpc_forward_served:
  assumes "gf_connected g" and "sv_writer sv = Some d" and "dispatch_write ev now d (cmd_args c) = (d', r)"
  shows "grpc_forward dial (forward_rpc ev now) g sv c = (g, sv\<lparr>sv_writer := Some d'\<rparr>, flattened r)"
  using assms
  by (auto simp: grpc_forward_def grpc_client_def forward_rpc_def sv_forward_def flattened_def is_redis_nil_def
      error_text_def split: sum.splits go_error.splits)


definition counter_env :: "(int, unit, unit) env" where
  "counter_env = \<lparr>ev_do = \<lambda>n as. (n + 1, Inr (RpInt (n + 1))), ev_forward = \<lambda>f u c. (u, Inr RpNil), ev_codec = wire,
     ev_upper = \<lambda>s. s, ev_quote = \<lambda>s. s, ev_wal_text = \<lambda>_. []\<rparr>"


section \<open>Acknowledgements\<close>

text \<open>\<open>Ack\<close> keeps, for every follower, the highest position it has
  reported and leaves the others alone; but on a node without a log, as \<open>main\<close> builds the
  load balancer, the first \<open>Ack\<close> and the first \<open>Forward\<close> dereference nil and end the
  process.\<close>

theorem acks_are_monotone:
  shows "(case sv_wal sv of
      Some dw \<Rightarrow> \<exists>sv' lag. ack sv req = Done (sv', lag) \<and> sv_writer sv' = sv_writer sv
        \<and> (\<forall>who. acked sv' who = (if who = ar_follower_id req then max (acked sv who) (applied_seq req) else acked sv who))
    | None \<Rightarrow> ack sv req = Panic ''nil pointer dereference'')
    \<and> sv_wal (set_upstream addrs (new_server None 0)) = None
    \<and> sv_forward ev now (set_upstream addrs (new_server None 0)) freq = Panic ''nil pointer dereference''"
  by (auto simp: ack_def Let_def sv_wal_def acked_def set_upstream_def new_server_def sv_forward_def max_def
      split: option.splits)

end
