(* ===== verification/Watermark.thy ===== *)
theory Watermark
  imports Wal_Recovery
begin

text \<open>
  The follower's only durable replication state, \<open>internal/sync/watermark.go\<close>: the
  sequence number of the last applied entry in a small file that is replaced by writing a
  temporary file and renaming it.
\<close>

section \<open>Definitions\<close>

record watermark =
  wm_path :: fpath
  wm_applied :: u64

datatype wm_error = EPathRequired | EWmIO io_error | ECorrupt num_error

definition open_watermark :: "disk \<Rightarrow> fpath \<Rightarrow> wm_error + watermark" where
  "open_watermark d path =
     (if path = ([], []) then Inl EPathRequired
      else if faulty d FMkdir then Inl (EWmIO (EFault FMkdir))
      else case file_open d path of
        Inl ENotExist \<Rightarrow> Inr \<lparr>wm_path = path, wm_applied = 0\<rparr>
      | Inl e \<Rightarrow> Inl (EWmIO e)
      | Inr b \<Rightarrow>
          let s = trim_space b in
          if s = [] then Inr \<lparr>wm_path = path, wm_applied = 0\<rparr>
          else case parse_uint s of
            Inl e \<Rightarrow> Inl (ECorrupt e)
          | Inr v \<Rightarrow> Inr \<lparr>wm_path = path, wm_applied = of_nat v\<rparr>)"

definition wm_next_seq :: "watermark \<Rightarrow> u64" where
  "wm_next_seq w = wm_applied w + 1"

definition write_atomic :: "disk \<Rightarrow> watermark \<Rightarrow> u64 \<Rightarrow> disk \<times> io_error option" where
  "write_atomic d w seq =
     (let tmp = (fst (wm_path w), snd (wm_path w) @ ''.tmp'') in
      case file_create d tmp True of
        (d1, Some e) \<Rightarrow> (d1, Some e)
      | (d1, None) \<Rightarrow>
          (case file_write d1 tmp (format_uint (unat seq)) of
             (d2, Some e) \<Rightarrow> (d2, Some e)
           | (d2, None) \<Rightarrow>
               (case file_sync d2 tmp of
                  (d3, Some e) \<Rightarrow> (d3, Some e)
                | (d3, None) \<Rightarrow>
                    (case file_close d3 of
                       Some e \<Rightarrow> (d3, Some e)
                     | None \<Rightarrow> file_rename d3 tmp (wm_path w)))))"

definition wm_set :: "disk \<Rightarrow> watermark \<Rightarrow> u64 \<Rightarrow> disk \<times> watermark \<times> io_error option" where
  "wm_set d w seq =
     (if seq \<le> wm_applied w then (d, w, None)
      else case write_atomic d w seq of
        (d', Some e) \<Rightarrow> (d', w, Some e)
      | (d', None) \<Rightarrow> (d', w\<lparr>wm_applied := seq\<rparr>, None))"

section \<open>The file holds what was set\<close>

definition wm_value :: "bytes option \<Rightarrow> num_error + u64" where
  "wm_value c = (case c of None \<Rightarrow> Inr 0 | Some b \<Rightarrow>
     let s = trim_space b in if s = [] then Inr 0
     else case parse_uint s of Inl e \<Rightarrow> Inl e | Inr v \<Rightarrow> Inr (of_nat v))"

definition wm_rep :: "disk \<Rightarrow> watermark \<Rightarrow> bool" where
  "wm_rep d w \<longleftrightarrow> wm_value (disk_bytes d (wm_path w)) = Inr (wm_applied w) \<and> synced d (wm_path w)"

lemma wm_value_format: "wm_value (Some (format_uint (unat (s :: u64)))) = Inr s"
proof -
  have "unat s \<le> max_uint64" using unat_u64_less [of s] by (simp add: max_uint64_def)
  then show ?thesis by (simp add: wm_value_def Let_def parse_uint_format)
qed

lemma open_watermark_value:
  assumes "path \<noteq> ([], [])" and "dk_faults d = []" and "wm_value (disk_bytes d path) = Inr v"
  shows "open_watermark d path = Inr \<lparr>wm_path = path, wm_applied = v\<rparr>"
  using assms
  by (cases "disk_file d path")
    (auto simp: open_watermark_def faulty_def file_open_def disk_bytes_def wm_value_def Let_def split: sum.splits if_splits)

lemma tmp_neq [simp]: "(fst p, snd p @ ''.tmp'') \<noteq> (p :: fpath)" "p \<noteq> (fst p, snd p @ ''.tmp'')"
  by (cases p; simp)+

text \<open>
  The bytes of the real file change only in the final rename, and then to the number, all
  of it synced.
\<close>

lemma file_create_other:
  "file_create d p b = (d', r) \<Longrightarrow> q \<noteq> p \<Longrightarrow> disk_file d' q = disk_file d q"
  by (auto simp: file_create_def split: if_splits option.splits)

lemma file_create_trunc:
  "file_create d p True = (d', None) \<Longrightarrow> disk_file d' p = Some \<lparr>fd_bytes = [], fd_synced = 0\<rparr>"
  by (auto simp: file_create_def split: if_splits option.splits)

lemma file_rename_file:
  "file_rename d p q = (d', r) \<Longrightarrow> p \<noteq> q \<Longrightarrow>
     disk_file d' q = (if r = None then disk_file d p else disk_file d q)"
  by (auto simp: file_rename_def split: if_splits option.splits)

lemma write_atomic_file:
  assumes "write_atomic d w seq = (d', r)"
  shows "disk_file d' (wm_path w) =
    (if r = None then Some \<lparr>fd_bytes = format_uint (unat seq), fd_synced = length (format_uint (unat seq))\<rparr>
     else disk_file d (wm_path w))"
proof -
  let ?tmp = "(fst (wm_path w), snd (wm_path w) @ ''.tmp'')" and ?s = "format_uint (unat seq)"
  obtain d1 r1 where 1: "file_create d ?tmp True = (d1, r1)" by fastforce
  obtain d2 r2 where 2: "file_write d1 ?tmp ?s = (d2, r2)" by fastforce
  obtain d3 r3 where 3: "file_sync d2 ?tmp = (d3, r3)" by fastforce
  note other = file_create_other [OF 1] file_write_other [OF 2] file_sync_other [OF 3]
  have tmp: "disk_file d3 ?tmp = Some \<lparr>fd_bytes = ?s, fd_synced = length ?s\<rparr>" if "r1 = None" "r2 = None" "r3 = None"
    using file_create_trunc 1 2 3 that file_write_ok file_sync_ok by fastforce
  obtain d4 r4 where 4: "file_rename d3 ?tmp (wm_path w) = (d4, r4)" by fastforce
  from assms 1 2 3 4 show ?thesis
    using other [of "wm_path w"] tmp file_rename_file [OF 4]
    by (auto simp: write_atomic_def Let_def split: option.splits if_splits)
qed

lemma wm_set_rep:
  assumes "wm_rep d w" and "wm_set d w seq = (d', w', r)"
  shows "wm_rep d' w'" and "wm_path w' = wm_path w"
    and "wm_applied w' = (if r = None then max (wm_applied w) seq else wm_applied w)"
proof -
  show "wm_path w' = wm_path w" using assms(2) by (auto simp: wm_set_def split: if_splits prod.splits option.splits)
  show "wm_applied w' = (if r = None then max (wm_applied w) seq else wm_applied w)"
    using assms(2) by (auto simp: wm_set_def max_def split: if_splits prod.splits option.splits)
  show "wm_rep d' w'"
  proof (cases "seq \<le> wm_applied w")
    case True
    with assms show ?thesis by (simp add: wm_set_def)
  next
    case False
    obtain d1 r1 where wa: "write_atomic d w seq = (d1, r1)" by fastforce
    with False assms(2) have s: "d' = d1" "r = r1" "w' = (if r1 = None then w\<lparr>wm_applied := seq\<rparr> else w)"
      by (auto simp: wm_set_def split: option.splits)
    from write_atomic_file [OF wa] assms(1) show ?thesis
      by (auto simp: s wm_rep_def disk_bytes_def synced_def wm_value_format)
  qed
qed

lemma crash_wm_rep: "wm_rep d w \<Longrightarrow> crashes_to d d' \<Longrightarrow> wm_value (disk_bytes d' (wm_path w)) = Inr (wm_applied w)"
  by (simp add: wm_rep_def crash_synced)

section \<open>Properties\<close>



end
