(* ===== verification/Follower.thy ===== *)
theory Follower
  imports Repl_Server Watermark
begin

text \<open>
  The consumer side of replication, \<open>internal/sync/follower.go\<close>. A follower holds the state
  of the applier it hands entries to (the dispatcher, in the program) and its watermark with the disk the watermark file is on.
  The RPC library is the argument \<open>upstream\<close> (what a node answers to \<open>Subscribe\<close>, see
  \<open>Repl_Server\<close>), the choice of \<open>rand.Intn\<close> an argument \<open>pick\<close>. \<open>Run\<close> goes round until it
  is cancelled; the model runs over the list of its attempts.
\<close>

section \<open>Definitions\<close>

text \<open>Durations are nanoseconds, as in Go.\<close>

definition min_backoff :: int where
  "min_backoff = 200 * 1000000"

definition max_backoff :: int where
  "max_backoff = 5 * 1000000000"

record 's follower =
  fc_owner_addrs :: "string list"
  fc_region :: string
  fc_id :: string
  fc_applier :: 's
  fc_disk :: disk
  fc_watermark :: watermark
  fc_ack_interval :: int

definition new_follower :: "'s follower \<Rightarrow> 's follower" where
  "new_follower cfg =
     (if fc_ack_interval cfg = 0 then cfg\<lparr>fc_ack_interval := 30 * 1000000000\<rparr> else cfg)"

text \<open>The interface \<open>Applier\<close>: its method \<open>Apply\<close>, which may renumber the entry it is given.\<close>

type_synonym 's applier_fn = "'s \<Rightarrow> walentry \<Rightarrow> ('s \<times> walentry \<times> go_error option) outcome"

datatype follow_error = FlApply go_error | FlWatermark io_error | FlStream string | FlConnect string

text \<open>The loop of \<open>applyBatch\<close>.\<close>

fun apply_entries :: "'s applier_fn \<Rightarrow> 's \<Rightarrow> u64 \<Rightarrow> walentry list \<Rightarrow> ('s \<times> go_error option) outcome" where
  "apply_entries app d want [] = Done (d, None)"
| "apply_entries app d want (e # es) =
     (if seq_id e < want then apply_entries app d want es
      else bind_outcome (app d e) (\<lambda>(d', e', r).
        case r of
          Some x \<Rightarrow> Done (d', Some x)
        | None \<Rightarrow> apply_entries app d' (seq_id e' + 1) es))"

definition apply_batch :: "'s applier_fn \<Rightarrow> 's follower \<Rightarrow> sync_batch \<Rightarrow>
    ('s follower \<times> follow_error option) outcome" where
  "apply_batch app fl batch =
     bind_outcome (apply_entries app (fc_applier fl) (wm_next_seq (fc_watermark fl)) (entries batch)) (\<lambda>(d', r).
       let fl1 = fl\<lparr>fc_applier := d'\<rparr> in
       case r of
         Some x \<Rightarrow> Done (fl1, Some (FlApply x))
       | None \<Rightarrow>
           if 0 < up_to_seq batch then
             (case wm_set (fc_disk fl1) (fc_watermark fl1) (up_to_seq batch) of
                (dk, w, e) \<Rightarrow> Done (fl1\<lparr>fc_disk := dk, fc_watermark := w\<rparr>, map_option FlWatermark e))
           else Done (fl1, None))"

fun run_batches :: "'s applier_fn \<Rightarrow> 's follower \<Rightarrow> sync_batch list \<Rightarrow> string option \<Rightarrow>
    ('s follower \<times> follow_error option) outcome" where
  "run_batches app fl [] fin = Done (fl, map_option FlStream fin)"
| "run_batches app fl (b # bs) fin =
     bind_outcome (apply_batch app fl b) (\<lambda>(fl', r).
       case r of
         Some x \<Rightarrow> Done (fl', Some x)
       | None \<Rightarrow> run_batches app fl' bs fin)"

definition subscribe_req :: "'s follower \<Rightarrow> subscribe_request" where
  "subscribe_req fl =
     \<lparr>follower_region = fc_region fl, sr_follower_id = fc_id fl, from_seq = wm_next_seq (fc_watermark fl)\<rparr>"

text \<open>\<open>runOnce\<close>: whether the stream opened, and the error.\<close>

definition run_once :: "'s applier_fn \<Rightarrow> upstream \<Rightarrow> (nat \<Rightarrow> nat) \<Rightarrow> 's follower \<Rightarrow>
    ('s follower \<times> bool \<times> follow_error option) outcome" where
  "run_once app up pick fl =
     (let addrs = fc_owner_addrs fl in
      if addrs = [] then Done (fl, False, None)
      else case up (addrs ! pick (length addrs)) (subscribe_req fl) of
        Inl e \<Rightarrow> Done (fl, False, Some (FlConnect e))
      | Inr (bs, fin) \<Rightarrow> bind_outcome (run_batches app fl bs fin) (\<lambda>(fl', r). Done (fl', True, r)))"

definition ack_tick :: "'s follower \<Rightarrow> ack_request" where
  "ack_tick fl = \<lparr>ar_follower_id = fc_id fl, applied_seq = wm_applied (fc_watermark fl)\<rparr>"

definition wait_time :: "bool \<Rightarrow> int \<Rightarrow> int" where
  "wait_time connected backoff = (if connected then min_backoff else backoff)"

definition next_backoff :: "bool \<Rightarrow> int \<Rightarrow> int" where
  "next_backoff connected backoff =
     (let b = wait_time connected backoff in
      if connected then b else let b2 = wrap64 (b * 2) in if max_backoff < b2 then max_backoff else b2)"

text \<open>\<open>Run\<close>: the follower after the attempts, and how long it waited after each.\<close>

fun follower_run :: "'s applier_fn \<Rightarrow> int \<Rightarrow> (upstream \<times> (nat \<Rightarrow> nat)) list \<Rightarrow> 's follower \<Rightarrow>
    ('s follower \<times> int list) outcome" where
  "follower_run app backoff [] fl = Done (fl, [])"
| "follower_run app backoff ((up, pick) # rest) fl =
     bind_outcome (run_once app up pick fl) (\<lambda>(fl', connected, err).
       bind_outcome (follower_run app (next_backoff connected backoff) rest fl') (\<lambda>(fl2, waits).
         Done (fl2, wait_time connected backoff # waits)))"

section \<open>The applier interface\<close>

text \<open>
  What the follower relies on: on a node that is no relay and has a backend, \<open>Apply\<close> leaves
  the entry alone and executes its command once on the backend.
\<close>

locale applier =
  fixes app :: "'s applier_fn"
    and bdo :: "'b \<Rightarrow> bytes list \<Rightarrow> 'b \<times> (go_error + reply)"
    and plain :: "'s \<Rightarrow> bool"
    and store :: "'s \<Rightarrow> 'b"
  assumes app_plain: "plain s \<Longrightarrow> \<exists>s' r. app s e = Done (s', e, r) \<and> plain s'
      \<and> store s' = fst (bdo (store s) (args e)) \<and> (r = None \<longleftrightarrow> \<not> isl (snd (bdo (store s) (args e))))"
begin

lemma apply_entries_plain:
  assumes "plain s" and "sorted_wrt (\<lambda>x y. seq_id x < seq_id y) xs" and "\<forall>x \<in> set xs. unat (seq_id x) + 1 < 2 ^ 64"
  shows "\<exists>s' r h. apply_entries app s want xs = Done (s', r) \<and> plain s' \<and> store s' = replay bdo (store s) (map args h)
    \<and> prefix h (wanted want xs) \<and> (r = None \<longrightarrow> h = wanted want xs)"
  using assms
proof (induction xs arbitrary: s want)
  case Nil
  then show ?case by auto
next
  case (Cons e xs)
  have later: "wanted (seq_id e + 1) xs = xs" "seq_id e \<ge> want \<Longrightarrow> wanted want xs = xs"
  proof -
    have "seq_id e + 1 \<le> seq_id x" "seq_id e \<le> seq_id x" if "x \<in> set xs" for x
    proof -
      have "seq_id e < seq_id x" using Cons.prems(2) that by simp
      then show "seq_id e + 1 \<le> seq_id x" "seq_id e \<le> seq_id x"
        using unat_Suc [of "seq_id e"] Cons.prems(3) by (simp_all add: word_le_nat_alt word_less_nat_alt)
    qed
    then show "wanted (seq_id e + 1) xs = xs" "seq_id e \<ge> want \<Longrightarrow> wanted want xs = xs"
      by (auto simp: wanted_def filter_id_conv intro: order_trans)
  qed
  show ?case
  proof (cases "seq_id e < want")
    case True
    with Cons.IH [OF Cons.prems(1), of want] Cons.prems(2,3) show ?thesis by (auto simp: leD)
  next
    case False
    then have w: "wanted want (e # xs) = e # xs" using later by simp
    obtain s1 r1 where a: "app s e = Done (s1, e, r1)" "plain s1" "store s1 = fst (bdo (store s) (args e))"
      using app_plain [OF Cons.prems(1)] by blast
    show ?thesis
    proof (cases r1)
      case None
      with Cons.IH [OF a(2), of "seq_id e + 1"] Cons.prems(2,3) obtain s' r h where
        "apply_entries app s1 (seq_id e + 1) xs = Done (s', r)" "plain s'" "store s' = replay bdo (store s1) (map args h)"
        "prefix h xs" "r = None \<longrightarrow> h = xs" by (auto simp: later(1))
      then show ?thesis using a False None unfolding w
        by (intro exI [of _ s'] exI [of _ r] exI [of _ "e # h"]) simp
    next
      case (Some x)
      then show ?thesis using a False unfolding w
        by (intro exI [of _ s1] exI [of _ r1] exI [of _ "[e]"]) simp
    qed
  qed
qed

end

definition plain_node :: "('b, 'f) dispatcher \<Rightarrow> bool" where
  "plain_node d \<longleftrightarrow> \<not> dp_relay d \<and> dp_backend d \<noteq> None"

definition node_store :: "('b, 'f) dispatcher \<Rightarrow> 'b" where
  "node_store d = the (dp_backend d)"

interpretation node: applier "apply_entry ev" "ev_do ev" plain_node node_store
  for ev :: "('b, 'f, 'u) env"
  by unfold_locales
    (auto simp: plain_node_def node_store_def apply_entry_def exec_args_def split: prod.splits sum.splits)


section \<open>Histories of executed entries\<close>

text \<open>
  The entries a follower has executed, oldest first. It is without gaps when every entry
  comes at most one behind the highest one before it: an entry may be executed again, but
  never before all its predecessors have been executed.
\<close>

fun gapless :: "nat \<Rightarrow> walentry list \<Rightarrow> bool" where
  "gapless m [] = True"
| "gapless m (e # h) = (unat (seq_id e) \<le> Suc m \<and> gapless (max m (unat (seq_id e))) h)"

fun highest :: "nat \<Rightarrow> walentry list \<Rightarrow> nat" where
  "highest m [] = m"
| "highest m (e # h) = highest (max m (unat (seq_id e))) h"

lemma gapless_append [simp]: "gapless m (h @ h') = (gapless m h \<and> gapless (highest m h) h')"
  by (induction h arbitrary: m) simp_all

lemma highest_append [simp]: "highest m (h @ h') = highest (highest m h) h'"
  by (induction h arbitrary: m) simp_all

lemma highest_ge: "m \<le> highest m h"
  by (induction h arbitrary: m) (auto intro: order_trans [OF max.cobounded1])

lemma gapless_segment:
  "seqs h = [Suc a..<Suc a + length h] \<Longrightarrow> a \<le> m \<Longrightarrow> gapless m h \<and> highest m h = max m (a + length h)"
proof (induction h arbitrary: a m)
  case (Cons e h)
  then have e: "unat (seq_id e) = Suc a" "seqs h = [Suc (Suc a)..<Suc (Suc a) + length h]"
    by (simp_all add: upt_conv_Cons del: upt_Suc)
  from Cons.IH [OF e(2), of "max m (Suc a)"] Cons.prems(2) e(1) show ?case by (simp add: max_def)
qed simp

lemma gapless_covers: "gapless m h \<Longrightarrow> m < n \<Longrightarrow> n \<le> highest m h \<Longrightarrow> n \<in> set (seqs h)"
proof (induction h arbitrary: m)
  case (Cons e h)
  show ?case
  proof (cases "n = unat (seq_id e)")
    case False
    then have "max m (unat (seq_id e)) < n" using Cons.prems(1,2) by auto
    with Cons.IH [of "max m (unat (seq_id e))"] Cons.prems show ?thesis by simp
  qed simp
qed simp

text \<open>The log of a primary that has never lost a segment: numbered from 1.\<close>

definition from_one :: "walentry list \<Rightarrow> bool" where
  "from_one es \<longleftrightarrow> seqs es = [1..<Suc (length es)] \<and> Suc (length es) < 2 ^ 64"

lemma from_one_nth: "from_one es \<Longrightarrow> i < length es \<Longrightarrow> unat (seq_id (es ! i)) = Suc i"
proof -
  assume "from_one es" "i < length es"
  then have "seqs es ! i = Suc i" by (simp add: from_one_def del: upt_Suc)
  then show ?thesis using \<open>i < length es\<close> by (simp add: seqs_def)
qed

lemma from_one_inj:
  assumes "from_one es" and "x \<in> set es" and "y \<in> set es" and "seq_id x = seq_id y"
  shows "x = y"
  using assms by (metis from_one_nth in_set_conv_nth nat.inject)

lemma from_one_wanted:
  assumes "from_one es" and "0 < c"
  shows "wanted c es = drop (unat c - 1) es"
proof -
  have "wanted c xs = drop (unat c - Suc n) xs" if "seqs xs = [Suc n..<Suc n + length xs]" for xs n
    using that
  proof (induction xs arbitrary: n)
    case (Cons x xs)
    then have x: "unat (seq_id x) = Suc n" "seqs xs = [Suc (Suc n)..<Suc (Suc n) + length xs]"
      by (simp_all add: upt_conv_Cons del: upt_Suc)
    show ?case
    proof (cases "c \<le> seq_id x")
      case True
      then have "unat c \<le> Suc n" by (simp add: word_le_nat_alt x)
      with True Cons.IH [OF x(2)] show ?thesis by simp
    next
      case False
      then have "unat c - Suc n = Suc (unat c - Suc (Suc n))" by (simp add: word_le_nat_alt x)
      with False Cons.IH [OF x(2)] show ?thesis by simp
    qed
  qed simp
  from this [of es 0] assms(1) show ?thesis by (simp add: from_one_def)
qed

lemma from_one_sorted:
  assumes "from_one es"
  shows "sorted_wrt (\<lambda>x y. seq_id x < seq_id y) es" and "\<forall>x \<in> set es. unat (seq_id x) + 1 < 2 ^ 64"
proof -
  have "sorted_wrt (<) (map (\<lambda>e. unat (seq_id e)) es)" using assms by (simp add: from_one_def seqs_def del: upt_Suc)
  then show "sorted_wrt (\<lambda>x y. seq_id x < seq_id y) es" by (simp add: sorted_wrt_map word_less_nat_alt)
  have "unat (seq_id x) \<in> set (seqs es)" if "x \<in> set es" for x using that by (simp add: seqs_def)
  with assms show "\<forall>x \<in> set es. unat (seq_id x) + 1 < 2 ^ 64" by (fastforce simp: from_one_def simp del: upt_Suc)
qed

lemma from_one_take_drop_seqs:
  assumes "from_one es" and "h = take n (drop a es)"
  shows "seqs h = [Suc a..<Suc a + length h]"
proof (cases "a \<le> length es")
  case True
  have "seqs h = take n (drop a (seqs es))" by (simp add: assms(2) seqs_def take_map drop_map)
  also have "\<dots> = take n [1 + a..<Suc (length es)]"
    using assms(1) by (simp add: from_one_def drop_upt del: upt_Suc)
  also have "\<dots> = [Suc a..<Suc a + length h]"
    using True by (cases "n \<le> length es - a") (simp_all add: assms(2) min_def take_upt take_all del: upt_Suc)
  finally show ?thesis .
qed (simp add: assms(2))


section \<open>A primary's log and a follower\<close>

text \<open>
  The follower, the log it replicates, and the cursor of the open stream, if there is one.
  The log grows at its end; a stream opens at the position after the watermark; a batch is
  delivered and applied, with success or any error; the stream breaks; the follower process
  is restarted, after a crash of the machine that leaves of the watermark file what was
  forced to stable storage.
\<close>

record 's repl =
  rp_log :: "walentry list"
  rp_fl :: "'s follower"
  rp_cursor :: "u64 option"

inductive repl_step :: "'s applier_fn \<Rightarrow> 's repl \<Rightarrow> 's repl \<Rightarrow> bool" for app where
  logged: "seq_id e = of_nat (Suc (length (rp_log s))) \<Longrightarrow> Suc (Suc (length (rp_log s))) < 2 ^ 64 \<Longrightarrow>
    repl_step app s (s\<lparr>rp_log := rp_log s @ [e]\<rparr>)"
| opened: "repl_step app s (s\<lparr>rp_cursor := Some (from_seq (subscribe_req (rp_fl s)))\<rparr>)"
| delivered: "rp_cursor s = Some c \<Longrightarrow> b = take k (wanted c (rp_log s)) \<Longrightarrow> b \<noteq> [] \<Longrightarrow>
    apply_batch app (rp_fl s) (batch_of b) = Done (fl, None) \<Longrightarrow>
    repl_step app s (s\<lparr>rp_fl := fl, rp_cursor := Some (seq_id (last b) + 1)\<rparr>)"
| failed: "rp_cursor s = Some c \<Longrightarrow> b = take k (wanted c (rp_log s)) \<Longrightarrow> b \<noteq> [] \<Longrightarrow>
    apply_batch app (rp_fl s) (batch_of b) = Done (fl, Some x) \<Longrightarrow>
    repl_step app s (s\<lparr>rp_fl := fl, rp_cursor := None\<rparr>)"
| dropped: "repl_step app s (s\<lparr>rp_cursor := None\<rparr>)"
| restarted: "crashes_to (fc_disk (rp_fl s)) dk \<Longrightarrow> synced dk (wm_path (fc_watermark (rp_fl s))) \<Longrightarrow>
    open_watermark dk (wm_path (fc_watermark (rp_fl s))) = Inr w \<Longrightarrow>
    repl_step app s (s\<lparr>rp_fl := (rp_fl s)\<lparr>fc_disk := dk, fc_watermark := w\<rparr>, rp_cursor := None\<rparr>)"

lemma open_watermark_rep:
  "open_watermark d p = Inr w \<Longrightarrow> wm_value (disk_bytes d p) = Inr (wm_applied w) \<and> wm_path w = p"
  by (auto simp: open_watermark_def wm_value_def disk_bytes_def file_open_def Let_def
      split: if_splits option.splits sum.splits io_error.splits)

text \<open>A backend that has executed the log up to a position: some of it again, nothing skipped.\<close>

definition executed_log :: "('b \<Rightarrow> bytes list \<Rightarrow> 'b \<times> (go_error + reply)) \<Rightarrow> 'b \<Rightarrow> walentry list \<Rightarrow> 'b \<Rightarrow> u64 \<Rightarrow> bool" where
  "executed_log bdo b0 es b pos \<longleftrightarrow>
     (\<exists>h. b = replay bdo b0 (map args h) \<and> set h \<subseteq> set es \<and> gapless 0 h \<and> unat pos \<le> highest 0 h)"

lemma executed_log_mono: "executed_log bdo b0 es b pos \<Longrightarrow> set es \<subseteq> set es' \<Longrightarrow> executed_log bdo b0 es' b pos"
  unfolding executed_log_def by blast

lemma wm_set_fine:
  assumes "disk_fine d"
  shows "\<exists>d' w'. wm_set d w seq = (d', w', None) \<and> disk_fine d'"
proof -
  let ?tmp = "(fst (wm_path w), snd (wm_path w) @ ''.tmp'')" and ?s = "format_uint (unat seq)"
  let ?d1 = "disk_put d ?tmp \<lparr>fd_bytes = [], fd_synced = 0\<rparr>"
  let ?d2 = "file_append ?d1 ?tmp ?s" let ?f = "\<lparr>fd_bytes = ?s, fd_synced = length ?s\<rparr>"
  have 1: "file_create d ?tmp True = (?d1, None)" using assms by (simp add: file_create_def split: option.splits)
  have sp: "dk_space ?d1 = None" using assms by (simp add: disk_fine_def)
  then have 2: "file_write ?d1 ?tmp ?s = (?d2, None)" by (simp add: file_write_def)
  have 3: "file_sync ?d2 ?tmp = (disk_put ?d2 ?tmp ?f, None)"
    using assms by (simp add: file_sync_def file_append_file)
  have 4: "file_rename (disk_put ?d2 ?tmp ?f) ?tmp (wm_path w) = (disk_put (disk_del (disk_put ?d2 ?tmp ?f) ?tmp) (wm_path w) ?f, None)"
    using assms by (simp add: file_rename_def)
  have "disk_fine (disk_del x p) = disk_fine x" for x p by (simp add: disk_del_def disk_fine_def)
  then show ?thesis using 1 2 3 4 assms by (auto simp: wm_set_def write_atomic_def Let_def file_close_def)
qed

context applier
begin

text \<open>One batch from the position after the watermark, whatever comes of it.\<close>

lemma apply_batch_plain:
  assumes "plain (fc_applier fl)" and "from_one es" and "unat (wm_applied (fc_watermark fl)) \<le> length es"
    and "b = take k (wanted (wm_next_seq (fc_watermark fl)) es)" and "b \<noteq> []"
    and "wm_rep (fc_disk fl) (fc_watermark fl)"
  defines "a \<equiv> unat (wm_applied (fc_watermark fl))"
  shows "\<exists>fl' r n. apply_batch app fl (batch_of b) = Done (fl', r) \<and> plain (fc_applier fl')
    \<and> store (fc_applier fl') = replay bdo (store (fc_applier fl)) (map args (take n b))
    \<and> wm_rep (fc_disk fl') (fc_watermark fl')
    \<and> (r = None \<longrightarrow> length b \<le> n \<and> wm_applied (fc_watermark fl') = seq_id (last b))
    \<and> (r \<noteq> None \<longrightarrow> fc_watermark fl' = fc_watermark fl)"
proof -
  let ?w = "fc_watermark fl" and ?c = "wm_next_seq (fc_watermark fl)"
  have c: "unat ?c = Suc a" using assms(2,3) unat_Suc [of "wm_applied ?w"] by (simp add: a_def wm_next_seq_def from_one_def)
  then have "0 < ?c" by (metis word_gt_0 unsigned_0 nat.distinct(1))
  then have b: "b = take k (drop a es)" using assms(4) from_one_wanted [OF assms(2)] c by simp
  have sub: "set b \<subseteq> set es" by (auto simp: b dest: in_set_takeD in_set_dropD)
  have "sorted_wrt (\<lambda>x y. seq_id x < seq_id y) b"
    unfolding b by (intro sorted_wrt_take sorted_wrt_drop from_one_sorted(1) assms(2))
  moreover have "\<forall>x \<in> set b. unat (seq_id x) + 1 < 2 ^ 64" using from_one_sorted(2) [OF assms(2)] sub by blast
  ultimately obtain s' r h where ap: "apply_entries app (fc_applier fl) ?c b = Done (s', r)" "plain s'"
    "store s' = replay bdo (store (fc_applier fl)) (map args h)" "prefix h (wanted ?c b)" "r = None \<longrightarrow> h = wanted ?c b"
    using apply_entries_plain [OF assms(1)] by blast
  have w: "wanted ?c b = b" unfolding assms(4) by (auto simp: wanted_def filter_id_conv dest: in_set_takeD)
  then obtain n where n: "h = take n b" "r = None \<longrightarrow> length b \<le> n"
    using ap(4,5) by (metis prefix_def append_eq_conv_conj order_refl)
  have seq: "seqs b = [Suc a..<Suc a + length b]" by (rule from_one_take_drop_seqs [OF assms(2) b])
  have "unat (seq_id (last b)) = last (seqs b)" using assms(5) by (simp add: seqs_def last_map)
  also have "\<dots> = a + length b" using seq assms(5) by (simp add: last_conv_nth del: upt_Suc)
  finally have last: "wm_applied ?w < seq_id (last b)" "0 < seq_id (last b)"
    using assms(5) by (auto simp: word_less_nat_alt a_def)
  show ?thesis
  proof (cases r)
    case (Some x)
    then have "apply_batch app fl (batch_of b) = Done (fl\<lparr>fc_applier := s'\<rparr>, Some (FlApply x))"
      using ap(1) by (simp add: apply_batch_def Let_def)
    then show ?thesis using ap(2,3) n(1) assms(6) by (intro exI [of _ "fl\<lparr>fc_applier := s'\<rparr>"] exI [of _ "Some (FlApply x)"] exI [of _ n]) simp
  next
    case None
    obtain dk w' e where set: "wm_set (fc_disk fl) ?w (seq_id (last b)) = (dk, w', e)" by (metis prod_cases3)
    note rep = wm_set_rep [OF assms(6) set]
    have unch: "e \<noteq> None \<Longrightarrow> w' = ?w" using set last by (auto simp: wm_set_def split: if_splits prod.splits option.splits)
    let ?fl = "fl\<lparr>fc_applier := s', fc_disk := dk, fc_watermark := w'\<rparr>"
    have "apply_batch app fl (batch_of b) = Done (?fl, map_option FlWatermark e)"
      using ap(1) None set last(2) by (simp add: apply_batch_def Let_def)
    moreover have "e = None \<Longrightarrow> wm_applied w' = seq_id (last b)" using rep(3) last(1) by (simp add: max_absorb2)
    ultimately show ?thesis using ap(2,3) n None rep(1) unch
      by (intro exI [of _ ?fl] exI [of _ "map_option FlWatermark e"] exI [of _ n]) auto
  qed
qed


definition repl_inv :: "'b \<Rightarrow> 's repl \<Rightarrow> bool" where
  "repl_inv b0 s \<longleftrightarrow>
     (let fl = rp_fl s; w = fc_watermark fl in
      from_one (rp_log s) \<and> plain (fc_applier fl) \<and> wm_rep (fc_disk fl) w
      \<and> unat (wm_applied w) \<le> length (rp_log s)
      \<and> (\<forall>c. rp_cursor s = Some c \<longrightarrow> c = wm_next_seq w)
      \<and> executed_log bdo b0 (rp_log s) (store (fc_applier fl)) (wm_applied w))"

lemma repl_inv_batch:
  assumes inv: "repl_inv b0 s" and c: "rp_cursor s = Some c" and b: "b = take k (wanted c (rp_log s))" "b \<noteq> []"
    and app: "apply_batch app (rp_fl s) (batch_of b) = Done (fl, r)"
  shows "repl_inv b0 (s\<lparr>rp_fl := fl, rp_cursor := if r = None then Some (seq_id (last b) + 1) else None\<rparr>)"
proof -
  let ?w = "fc_watermark (rp_fl s)" let ?a = "unat (wm_applied ?w)"
  from inv have i: "from_one (rp_log s)" "plain (fc_applier (rp_fl s))" "wm_rep (fc_disk (rp_fl s)) ?w"
    "?a \<le> length (rp_log s)" and cw: "c = wm_next_seq ?w" using c by (auto simp: repl_inv_def Let_def)
  from inv obtain h where h: "store (fc_applier (rp_fl s)) = replay bdo b0 (map args h)" "set h \<subseteq> set (rp_log s)"
    "gapless 0 h" "?a \<le> highest 0 h" by (auto simp: repl_inv_def executed_log_def Let_def)
  from apply_batch_plain [OF i(2,1,4) b(1) [unfolded cw] b(2) i(3)] app obtain n where
    n: "plain (fc_applier fl)" "store (fc_applier fl) = replay bdo (store (fc_applier (rp_fl s))) (map args (take n b))"
    "wm_rep (fc_disk fl) (fc_watermark fl)"
    "r = None \<longrightarrow> length b \<le> n \<and> wm_applied (fc_watermark fl) = seq_id (last b)"
    "r \<noteq> None \<longrightarrow> fc_watermark fl = ?w" by auto
  have "unat c = Suc ?a" using i(1,4) unat_Suc [of "wm_applied ?w"] by (simp add: cw wm_next_seq_def from_one_def)
  moreover from this have "0 < c" by (metis word_gt_0 unsigned_0 nat.distinct(1))
  ultimately have seg: "b = take k (drop ?a (rp_log s))" using b(1) from_one_wanted [OF i(1)] by simp
  have sub: "set (take n b) \<subseteq> set (rp_log s)" by (auto simp: seg dest!: in_set_takeD in_set_dropD)
  have seqs_n: "seqs (take n b) = [Suc ?a..<Suc ?a + length (take n b)]"
    by (rule from_one_take_drop_seqs [OF i(1), of _ "min n k"]) (simp add: seg min.commute)
  note g = gapless_segment [OF seqs_n h(4)]
  have lst: "unat (seq_id (last b)) = ?a + length b"
  proof -
    have "unat (seq_id (last b)) = last (seqs b)" using b(2) by (simp add: seqs_def last_map)
    also have "seqs b = [Suc ?a..<Suc ?a + length b]" by (rule from_one_take_drop_seqs [OF i(1) seg])
    finally show ?thesis using b(2) by (simp add: last_conv_nth del: upt_Suc)
  qed
  have len: "?a + length b \<le> length (rp_log s)" using seg i(4) by simp
  have hist: "store (fc_applier fl) = replay bdo b0 (map args (h @ take n b))" "set (h @ take n b) \<subseteq> set (rp_log s)"
    "gapless 0 (h @ take n b)" using n(2) h g sub by simp_all
  have high: "highest 0 (h @ take n b) = max (highest 0 h) (?a + length (take n b))" using g by simp
  show ?thesis
  proof (cases r)
    case None
    then have "unat (wm_applied (fc_watermark fl)) \<le> highest 0 (h @ take n b)" using n(4) lst high by simp
    with hist have "executed_log bdo b0 (rp_log s) (store (fc_applier fl)) (wm_applied (fc_watermark fl))"
      unfolding executed_log_def by blast
    moreover have "unat (wm_applied (fc_watermark fl)) \<le> length (rp_log s)" using None n(4) lst len by simp
    ultimately show ?thesis using None i(1) n(1,3,4) by (simp add: repl_inv_def wm_next_seq_def)
  next
    case (Some x)
    then have "unat (wm_applied (fc_watermark fl)) \<le> highest 0 (h @ take n b)" using n(5) h(4) high by simp
    with hist have "executed_log bdo b0 (rp_log s) (store (fc_applier fl)) (wm_applied (fc_watermark fl))"
      unfolding executed_log_def by blast
    then show ?thesis using Some i(1,4) n(1,3,5) by (simp add: repl_inv_def)
  qed
qed

lemma repl_step_inv:
  assumes "repl_step app s s'" and "repl_inv b0 s"
  shows "repl_inv b0 s'"
  using assms(1)
proof cases
  case (logged e)
  then have "unat (seq_id e) = Suc (length (rp_log s))" using unat_u64_of_nat [of "Suc (length (rp_log s))"] by simp
  then have "from_one (rp_log s @ [e])" using assms(2) logged(3) by (auto simp: repl_inv_def from_one_def Let_def)
  moreover have "set (rp_log s) \<subseteq> set (rp_log s @ [e])" by auto
  ultimately show ?thesis using assms(2) logged(1) executed_log_mono unfolding repl_inv_def Let_def
    by (auto simp del: set_append)
next
  case opened
  then show ?thesis using assms(2) by (simp add: repl_inv_def subscribe_req_def Let_def)
next
  case (delivered c b k fl)
  from repl_inv_batch [OF assms(2) delivered(2-5)] delivered(1) show ?thesis by simp
next
  case (failed c b k fl x)
  from repl_inv_batch [OF assms(2) failed(2-5)] failed(1) show ?thesis by simp
next
  case dropped
  then show ?thesis using assms(2) by (simp add: repl_inv_def Let_def)
next
  case (restarted dk w)
  let ?w = "fc_watermark (rp_fl s)"
  have "wm_rep (fc_disk (rp_fl s)) ?w" using assms(2) by (simp add: repl_inv_def Let_def)
  from crash_wm_rep [OF this restarted(2)] open_watermark_rep [OF restarted(4)]
  have "wm_applied w = wm_applied ?w" "wm_rep dk w" using restarted(3) by (auto simp: wm_rep_def)
  then show ?thesis using assms(2) restarted(1) by (simp add: repl_inv_def Let_def)
qed

end

section \<open>Positions in the log\<close>

lemma last_seq_at:
  assumes "from_one es" and "b = take k (drop n es)" and "b \<noteq> []"
  shows "unat (seq_id (last b)) = n + length b" and "n + length b \<le> length es" and "seq_id (last b) = of_nat (n + length b)"
proof -
  have "unat (seq_id (last b)) = last (seqs b)" using assms(3) by (simp add: seqs_def last_map)
  then show 1: "unat (seq_id (last b)) = n + length b"
    using from_one_take_drop_seqs [OF assms(1,2)] assms(3) by (simp add: last_conv_nth del: upt_Suc)
  show 2: "n + length b \<le> length es" using assms(2,3) by auto
  then have "n + length b < 2 ^ 64" using assms(1) unfolding from_one_def by linarith
  with 1 unat_u64_of_nat [of "n + length b"] show "seq_id (last b) = of_nat (n + length b)" by (simp only: word_unat_eq_iff)
qed

lemma wm_position:
  assumes "from_one es" and "wm_applied w = of_nat n" and "n \<le> length es"
  shows "unat (wm_applied w) = n" and "unat (wm_next_seq w) = Suc n"
  using assms unat_u64_of_nat [of n] unat_Suc [of "wm_applied w"] by (simp_all add: wm_next_seq_def from_one_def)

text \<open>The numbers of a log put together from the parts of two.\<close>

lemma from_one_splice:
  assumes "from_one ls" and "from_one es" and "length ls = Suc p" and "length ls \<le> length es"
  shows "from_one (ls @ drop (Suc p) es)"
proof -
  have "seqs (drop (Suc p) es) = drop (Suc p) (seqs es)" by (simp add: seqs_def drop_map)
  also have "\<dots> = [Suc (Suc p)..<Suc (length es)]" using assms(2) by (simp add: from_one_def drop_upt del: upt_Suc)
  finally have "seqs (ls @ drop (Suc p) es) = [1..<Suc (Suc p)] @ [Suc (Suc p)..<Suc (length es)]"
    using assms(1,3) by (simp add: seqs_def from_one_def del: upt_Suc)
  moreover have sum: "Suc (Suc p) + (length es - Suc p) = Suc (length es)" using assms(3,4) by simp
  have "[1..<Suc (length es)] = [1..<Suc (Suc p)] @ [Suc (Suc p)..<Suc (length es)]"
    using upt_add_eq_append [of 1 "Suc (Suc p)" "length es - Suc p"] unfolding sum by simp
  ultimately have "seqs (ls @ drop (Suc p) es) = [1..<Suc (length es)]" by (simp only:)
  moreover have len: "length (ls @ drop (Suc p) es) = length es" using assms(3,4) by simp
  ultimately show ?thesis using assms(2) by (simp only: from_one_def len)
qed

lemma from_one_take: "from_one es \<Longrightarrow> x \<in> set (take n es) \<Longrightarrow> unat (seq_id x) \<le> n"
  by (auto simp: in_set_conv_nth from_one_nth)

lemma from_one_over:
  assumes "from_one ns" and "from_one es"
  shows "from_one (ns @ drop (length ns) es)"
proof (cases "ns = [] \<or> length es \<le> length ns")
  case False
  then obtain p where "length ns = Suc p" by (cases ns) auto
  with from_one_splice [OF assms] False show ?thesis by simp
qed (use assms in auto)

lemma apply_entries_skip:
  "\<forall>x \<in> set xs. seq_id x < want \<Longrightarrow> apply_entries app d want (xs @ ys) = apply_entries app d want ys"
  by (induction xs) simp_all

text \<open>
  An applier that keeps a position in a log: handed the entry after the position it takes it, leaves its number
  alone and moves on by one. A follower on a working disk then applies the batches it is sent to the end of the log.
\<close>

definition follows :: "(walentry list \<Rightarrow> nat \<Rightarrow> 's \<Rightarrow> bool) \<Rightarrow> walentry list \<Rightarrow> nat \<Rightarrow> 's follower \<Rightarrow> bool" where
  "follows at es n fl \<longleftrightarrow> at es n (fc_applier fl) \<and> disk_fine (fc_disk fl) \<and> wm_rep (fc_disk fl) (fc_watermark fl)
     \<and> wm_applied (fc_watermark fl) = of_nat n \<and> n \<le> length es"

locale positioned =
  fixes app :: "'s applier_fn"
    and ok :: "walentry list \<Rightarrow> bool"
    and at :: "walentry list \<Rightarrow> nat \<Rightarrow> 's \<Rightarrow> bool"
  assumes ok_from_one: "ok es \<Longrightarrow> from_one es"
    and app_at: "ok es \<Longrightarrow> n < length es \<Longrightarrow> at es n s \<Longrightarrow> \<exists>s'. app s (es ! n) = Done (s', es ! n, None) \<and> at es (Suc n) s'"
begin

lemma apply_entries_at:
  assumes "ok es" and "at es n s" and "unat want = Suc n"
  shows "\<exists>s'. apply_entries app s want (take k (drop n es)) = Done (s', None) \<and> at es (n + length (take k (drop n es))) s'"
  using assms(2,3)
proof (induction k arbitrary: n s want)
  case 0
  then show ?case by simp
next
  case (Suc k)
  show ?case
  proof (cases "n < length es")
    case True
    have xs: "take (Suc k) (drop n es) = es ! n # take k (drop (Suc n) es)" using True by (simp add: Cons_nth_drop_Suc [symmetric])
    have sq: "unat (seq_id (es ! n)) = Suc n" using from_one_nth [OF ok_from_one [OF assms(1)] True] .
    then have "\<not> seq_id (es ! n) < want" using Suc.prems(2) by (simp add: word_less_nat_alt)
    moreover obtain s1 where "app s (es ! n) = Done (s1, es ! n, None)" "at es (Suc n) s1" using app_at [OF assms(1) True Suc.prems(1)] by blast
    moreover have "unat (seq_id (es ! n) + 1) = Suc (Suc n)"
      using sq True unat_Suc [of "seq_id (es ! n)"] ok_from_one [OF assms(1)] by (simp add: from_one_def)
    ultimately show ?thesis using Suc.IH [of "Suc n" s1 "seq_id (es ! n) + 1"] unfolding xs by simp
  qed (use Suc.prems in simp)
qed

lemma apply_batch_at:
  assumes "ok es" and "follows at es n fl" and b: "b = take k (drop n es)" "b \<noteq> []"
  shows "\<exists>fl'. apply_batch app fl (batch_of b) = Done (fl', None) \<and> follows at es (n + length b) fl'"
proof -
  note fo = ok_from_one [OF assms(1)]
  let ?w = "fc_watermark fl"
  have f: "at es n (fc_applier fl)" "disk_fine (fc_disk fl)" "wm_rep (fc_disk fl) ?w" "wm_applied ?w = of_nat n" "n \<le> length es"
    using assms(2) by (auto simp: follows_def)
  note w = wm_position [OF fo f(4,5)] and l = last_seq_at [OF fo b]
  obtain s' where s: "apply_entries app (fc_applier fl) (wm_next_seq ?w) b = Done (s', None)" "at es (n + length b) s'"
    using apply_entries_at [OF assms(1) f(1) w(2), of k] b(1) by blast
  obtain dk w' where set: "wm_set (fc_disk fl) ?w (seq_id (last b)) = (dk, w', None)" "disk_fine dk" using wm_set_fine [OF f(2)] by blast
  have "wm_applied ?w < seq_id (last b)" using w(1) l(1) b(2) by (simp add: word_less_nat_alt)
  then have "wm_applied w' = of_nat (n + length b)" "0 < seq_id (last b)"
    using wm_set_rep(3) [OF f(3) set(1)] l(3) by (auto simp: max_absorb2 intro: le_less_trans [OF word_zero_le])
  with s set l(2) wm_set_rep(1) [OF f(3) set(1)] show ?thesis
    by (intro exI [of _ "fl\<lparr>fc_applier := s', fc_disk := dk, fc_watermark := w'\<rparr>"]) (simp add: apply_batch_def follows_def)
qed

lemma run_batches_at:
  assumes "ok es" and "follows at es n fl" and "batches_of k (drop n es) bs"
  shows "\<exists>fl'. run_batches app fl bs fin = Done (fl', map_option FlStream fin) \<and> follows at es (length es) fl'"
  using assms(2,3)
proof (induction bs arbitrary: n fl)
  case Nil
  then have "n = length es" by (auto simp: batches_of_def follows_def)
  with Nil show ?case by auto
next
  case (Cons b bs)
  have b: "entries b @ concat (map entries bs) = drop n es" "entries b \<noteq> []" "batches_of k (concat (map entries bs)) bs"
    and bb: "batch_of (entries b) = b" using Cons.prems(2) by (auto simp: batches_of_def batch_of_def)
  have e: "entries b = take (length (entries b)) (drop n es)" "concat (map entries bs) = drop (n + length (entries b)) es"
    using b(1) by (metis append_eq_conv_conj) (metis b(1) append_eq_conv_conj drop_drop add.commute)
  from apply_batch_at [OF assms(1) Cons.prems(1) e(1) b(2)] obtain fl1 where
    "apply_batch app fl b = Done (fl1, None)" "follows at es (n + length (entries b)) fl1" unfolding bb by blast
  with Cons.IH b(3) e(2) show ?case by simp
qed

text \<open>Entries up to the position, whatever they are, do not count, also when they come in one batch with new ones.\<close>

lemma apply_batch_old:
  assumes "from_one es" and "follows at es n fl" and "\<forall>x \<in> set b. unat (seq_id x) \<le> n" and "b \<noteq> []"
  shows "apply_batch app fl (batch_of b) = Done (fl, None)"
proof -
  have f: "wm_applied (fc_watermark fl) = of_nat n" "n \<le> length es" using assms(2) by (simp_all add: follows_def)
  note w = wm_position [OF assms(1) f]
  have "\<forall>x \<in> set b. seq_id x < wm_next_seq (fc_watermark fl)" using assms(3) by (auto simp: word_less_nat_alt w(2) less_Suc_eq_le)
  from apply_entries_skip [OF this, of app "fc_applier fl" "[]"]
  have "apply_entries app (fc_applier fl) (wm_next_seq (fc_watermark fl)) b = Done (fc_applier fl, None)" by simp
  moreover have "seq_id (last b) \<le> wm_applied (fc_watermark fl)" using assms(3,4) by (simp add: word_le_nat_alt w(1))
  ultimately show ?thesis by (simp add: apply_batch_def wm_set_def)
qed

lemma apply_batch_redelivered:
  assumes "ok es" and "follows at es n fl" and "b = old @ take k (drop n es)" and "take k (drop n es) \<noteq> []"
    and "\<forall>x \<in> set old. unat (seq_id x) \<le> n"
  shows "\<exists>fl'. apply_batch app fl (batch_of b) = Done (fl', None) \<and> follows at es (n + length (take k (drop n es))) fl'"
proof -
  have f: "wm_applied (fc_watermark fl) = of_nat n" "n \<le> length es" using assms(2) by (simp_all add: follows_def)
  note w = wm_position [OF ok_from_one [OF assms(1)] f]
  have "\<forall>x \<in> set old. seq_id x < wm_next_seq (fc_watermark fl)" using assms(5) by (auto simp: word_less_nat_alt w(2) less_Suc_eq_le)
  note skip = apply_entries_skip [OF this]
  have last: "last b = last (take k (drop n es))" using assms(4) by (simp add: assms(3))
  have "apply_batch app fl (batch_of b) = apply_batch app fl (batch_of (take k (drop n es)))"
    unfolding apply_batch_def batch_of_simps last unfolding assms(3) skip ..
  then show ?thesis using apply_batch_at [OF assms(1,2) refl assms(4)] by simp
qed

lemma run_batches_redelivered:
  assumes "ok es" and "follows at es n fl" and "batches_of k (old @ drop n es) bs" and "\<forall>x \<in> set old. unat (seq_id x) \<le> n"
  shows "\<exists>fl'. run_batches app fl bs fin = Done (fl', map_option FlStream fin) \<and> follows at es (length es) fl'"
  using assms(3,4)
proof (induction bs arbitrary: old)
  case Nil
  then have "n = length es" using assms(2) by (auto simp: batches_of_def follows_def)
  with assms(2) show ?case by auto
next
  case (Cons b bs)
  have b: "entries b @ concat (map entries bs) = old @ drop n es" "entries b \<noteq> []" "batches_of k (concat (map entries bs)) bs"
    and bb: "batch_of (entries b) = b" using Cons.prems(1) by (auto simp: batches_of_def batch_of_def)
  from b(1) consider us where "old = entries b @ us" "concat (map entries bs) = us @ drop n es"
    | us where "entries b = old @ us" "us \<noteq> []" "drop n es = us @ concat (map entries bs)"
    by (fastforce simp: append_eq_append_conv2)
  then show ?case
  proof cases
    case 1
    then have "apply_batch app fl b = Done (fl, None)"
      using apply_batch_old [OF ok_from_one [OF assms(1)] assms(2) _ b(2)] Cons.prems(2) bb by simp
    then show ?thesis using Cons.IH [of us] Cons.prems(2) b(3) 1 by simp
  next
    case 2
    then have us: "us = take (length us) (drop n es)" "concat (map entries bs) = drop (n + length us) es"
      by (simp, metis append_eq_conv_conj drop_drop add.commute)
    from apply_batch_redelivered [OF assms(1,2), of "entries b" old "length us"] 2 us(1) Cons.prems(2) obtain fl1 where
      "apply_batch app fl b = Done (fl1, None)" "follows at es (n + length us) fl1" unfolding bb by auto
    with run_batches_at [OF assms(1) this(2), of k bs fin] b(3) us(2) show ?thesis by simp
  qed
qed

end

lemma run_batches_append:
  "run_batches app fl bs None = Done (fl1, None) \<Longrightarrow> run_batches app fl (bs @ bs2) fin = run_batches app fl1 bs2 fin"
proof (induction bs arbitrary: fl)
  case (Cons b bs)
  from Cons.prems obtain fl2 where "apply_batch app fl b = Done (fl2, None)" "run_batches app fl2 bs None = Done (fl1, None)"
    by (auto elim!: bind_outcome_DoneE split: option.splits)
  with Cons.IH [of fl2] show ?case by simp
qed simp

text \<open>Without failures a node with a backend is, after every batch, exactly at a position of the log.\<close>

definition accepts_all :: "('b \<Rightarrow> bytes list \<Rightarrow> 'b \<times> (go_error + reply)) \<Rightarrow> walentry list \<Rightarrow> bool" where
  "accepts_all bdo es \<longleftrightarrow> from_one es \<and> (\<forall>x \<in> set es. \<forall>b. \<not> isl (snd (bdo b (args x))))"

definition replayed :: "('b \<Rightarrow> bytes list \<Rightarrow> 'b \<times> (go_error + reply)) \<Rightarrow> ('s \<Rightarrow> bool) \<Rightarrow> ('s \<Rightarrow> 'b) \<Rightarrow> 'b \<Rightarrow>
    walentry list \<Rightarrow> nat \<Rightarrow> 's \<Rightarrow> bool" where
  "replayed bdo plain store b0 es n s \<longleftrightarrow> plain s \<and> store s = replay bdo b0 (map args (take n es))"

sublocale applier \<subseteq> exact: positioned app "accepts_all bdo" "replayed bdo plain store b0" for b0
proof
  fix es n s
  assume ok: "accepts_all bdo es" and n: "n < length es" and "replayed bdo plain store b0 es n s"
  then have s: "plain s" "store s = replay bdo b0 (map args (take n es))" by (simp_all add: replayed_def)
  obtain s' r where "app s (es ! n) = Done (s', es ! n, r)" "plain s'" "store s' = fst (bdo (store s) (args (es ! n)))"
    "r = None \<longleftrightarrow> \<not> isl (snd (bdo (store s) (args (es ! n))))" using app_plain [OF s(1)] by blast
  with ok n s(2) show "\<exists>s'. app s (es ! n) = Done (s', es ! n, None) \<and> replayed bdo plain store b0 es (Suc n) s'"
    by (simp add: accepts_all_def replayed_def take_Suc_conv_app_nth)
qed (simp add: accepts_all_def)

abbreviation replica_at :: "('b, 'f, 'u) env \<Rightarrow> 'b \<Rightarrow> walentry list \<Rightarrow> nat \<Rightarrow> ('b, 'f) dispatcher follower \<Rightarrow> bool" where
  "replica_at ev b0 \<equiv> follows (replayed (ev_do ev) plain_node node_store b0)"


section \<open>Properties\<close>

text \<open>The backend of a follower that started empty has executed the log up to its watermark.\<close>

lemma repl_executes:
  fixes ev :: "('b, 'f, 'u) env"
  assumes "(repl_step (apply_entry ev))\<^sup>*\<^sup>* s s'"
    and "rp_log s = []" and "rp_cursor s = None" and "plain_node (fc_applier (rp_fl s))"
    and "wm_applied (fc_watermark (rp_fl s)) = 0" and "wm_rep (fc_disk (rp_fl s)) (fc_watermark (rp_fl s))"
  defines "pos \<equiv> wm_applied (fc_watermark (rp_fl s'))"
  shows "\<exists>h. node_store (fc_applier (rp_fl s')) = replay (ev_do ev) (node_store (fc_applier (rp_fl s))) (map args h)
    \<and> set h \<subseteq> set (rp_log s') \<and> gapless 0 h \<and> (\<forall>e \<in> set (rp_log s'). seq_id e \<le> pos \<longrightarrow> e \<in> set h)"
proof -
  let ?inv = "applier.repl_inv (ev_do ev) plain_node node_store (node_store (fc_applier (rp_fl s)))"
  have "executed_log (ev_do ev) (node_store (fc_applier (rp_fl s))) [] (node_store (fc_applier (rp_fl s))) 0"
    unfolding executed_log_def by (intro exI [of _ "[]"]) simp
  then have "?inv s" using assms(2-6) by (simp add: node.repl_inv_def [of ev] from_one_def)
  with assms(1) have "?inv s'"
    by (induction rule: rtranclp_induct) (auto intro: node.repl_step_inv)
  then have log: "from_one (rp_log s')" and
    "executed_log (ev_do ev) (node_store (fc_applier (rp_fl s))) (rp_log s') (node_store (fc_applier (rp_fl s'))) pos"
    by (auto simp: node.repl_inv_def [of ev] Let_def pos_def)
  then obtain h where h: "node_store (fc_applier (rp_fl s')) = replay (ev_do ev) (node_store (fc_applier (rp_fl s))) (map args h)"
    "set h \<subseteq> set (rp_log s')" "gapless 0 h" "unat pos \<le> highest 0 h" by (auto simp: executed_log_def)
  have "e \<in> set h" if e: "e \<in> set (rp_log s')" "seq_id e \<le> pos" for e
  proof -
    have "unat (seq_id e) \<in> set (seqs (rp_log s'))" using e(1) by (simp add: seqs_def)
    then have "0 < unat (seq_id e)" using log by (simp add: from_one_def del: upt_Suc)
    moreover have "unat (seq_id e) \<le> highest 0 h" using e(2) h(4) by (simp add: word_le_nat_alt)
    ultimately have "unat (seq_id e) \<in> set (seqs h)" using gapless_covers [OF h(3)] by blast
    then obtain x where "x \<in> set h" "seq_id x = seq_id e" by (auto simp: seqs_def word_unat_eq_iff)
    with from_one_inj [OF log _ e(1)] h(2) show ?thesis by blast
  qed
  with h show ?thesis by blast
qed

text \<open>C2 replication_never_skips. Whatever happens between a primary and a follower (the log
  growing, streams opening and breaking, batches applied in full or failing half way, the
  watermark file not being written, crashes and restarts): the backend of the follower is
  what the execution of a sequence of entries of the log makes of it, in which entries may be
  repeated but none comes before all its predecessors have been executed, and which contains
  every entry up to the watermark.\<close>

theorem replication_never_skips:
  fixes ev :: "('b, 'f, 'u) env"
  assumes "(repl_step (apply_entry ev))\<^sup>*\<^sup>* s s'"
    and "rp_log s = []" and "rp_cursor s = None" and "plain_node (fc_applier (rp_fl s))"
    and "wm_applied (fc_watermark (rp_fl s)) = 0" and "wm_rep (fc_disk (rp_fl s)) (fc_watermark (rp_fl s))"
  defines "pos \<equiv> wm_applied (fc_watermark (rp_fl s'))"
  shows "\<exists>h. node_store (fc_applier (rp_fl s')) = replay (ev_do ev) (node_store (fc_applier (rp_fl s))) (map args h)
    \<and> set h \<subseteq> set (rp_log s') \<and> gapless 0 h \<and> (\<forall>e \<in> set (rp_log s'). seq_id e \<le> pos \<longrightarrow> e \<in> set h)"
  using repl_executes [OF assms(1-6)] unfolding pos_def by blast

definition demo_follower :: "int \<Rightarrow> (int, unit) dispatcher follower" where
  "demo_follower b = new_follower \<lparr>fc_owner_addrs = [''p''], fc_region = ''r'', fc_id = ''f'',
     fc_applier = new_dispatcher (Some b) new_router None False None False False, fc_disk = demo_disk,
     fc_watermark = \<lparr>wm_path = (''s'', ''wm''), wm_applied = 0\<rparr>, fc_ack_interval = 0\<rparr>"

lemma demo_follower_simps [simp]:
  "fc_applier (demo_follower b) = new_dispatcher (Some b) new_router None False None False False"
  "fc_disk (demo_follower b) = demo_disk" "fc_watermark (demo_follower b) = \<lparr>wm_path = (''s'', ''wm''), wm_applied = 0\<rparr>"
  "fc_owner_addrs (demo_follower b) = [''p'']" "fc_id (demo_follower b) = ''f''"
  by (simp_all add: demo_follower_def new_follower_def)

lemma demo_dispatcher_plain [simp]:
  "plain_node (new_dispatcher (Some b) r wl pr fw fww False)" "node_store (new_dispatcher (Some b) r wl pr fw fww rl) = b"
  by (simp_all add: plain_node_def node_store_def new_dispatcher_def)

lemma demo_wm_rep [simp]: "wm_rep demo_disk \<lparr>wm_path = p, wm_applied = 0\<rparr>"
  by (simp add: wm_rep_def wm_value_def synced_def demo_disk_def disk_bytes_def disk_file_def)

lemma counter_fine [simp]: "\<not> isl (snd (ev_do counter_env b as))" "fst (ev_do counter_env b as) = b + 1"
  by (simp_all add: counter_env_def)

lemma demo_replica_at: "replica_at counter_env b es 0 (demo_follower b)"
  by (simp add: follows_def replayed_def)

abbreviation demo_logged :: walentry where
  "demo_logged \<equiv> demo_entry\<lparr>seq_id := 1\<rparr>"

lemma demo_from_one [simp]: "from_one [demo_logged]" "from_one []"
  by (simp_all add: from_one_def)

lemma demo_repl_run:
  "\<exists>fl. (repl_step (apply_entry counter_env))\<^sup>*\<^sup>* \<lparr>rp_log = [], rp_fl = demo_follower 0, rp_cursor = None\<rparr>
       \<lparr>rp_log = [demo_logged], rp_fl = fl, rp_cursor = Some 2\<rparr>
     \<and> wm_applied (fc_watermark fl) = 1"
proof -
  let ?app = "apply_entry counter_env" and ?fl = "demo_follower 0"
  let ?s0 = "\<lparr>rp_log = [], rp_fl = ?fl, rp_cursor = None\<rparr>"
  let ?s1 = "\<lparr>rp_log = [demo_logged], rp_fl = ?fl, rp_cursor = None\<rparr>"
  let ?s2 = "\<lparr>rp_log = [demo_logged], rp_fl = ?fl, rp_cursor = Some 1\<rparr>"
  obtain fl where fl: "apply_batch ?app ?fl (batch_of [demo_logged]) = Done (fl, None)"
    "wm_applied (fc_watermark fl) = 1"
    using node.exact.apply_batch_at [OF _ demo_replica_at, where b = "[demo_logged]" and k = 1 and es = "[demo_logged]"]
    by (auto simp: follows_def accepts_all_def)
  let ?s3 = "\<lparr>rp_log = [demo_logged], rp_fl = fl, rp_cursor = Some 2\<rparr>"
  have "repl_step ?app ?s0 ?s1" using repl_step.logged [of demo_logged ?s0 ?app] by simp
  moreover have "repl_step ?app ?s1 ?s2" using repl_step.opened [of ?app ?s1] by (simp add: subscribe_req_def wm_next_seq_def)
  moreover have "repl_step ?app ?s2 ?s3"
    using repl_step.delivered [of ?s2 1 "[demo_logged]" 1 ?app fl] fl(1) by simp
  ultimately have run: "(repl_step ?app)\<^sup>*\<^sup>* ?s0 ?s3" by (meson converse_rtranclp_into_rtranclp rtranclp.rtrancl_refl)
  with fl(2) show ?thesis by (intro exI [of _ fl]) simp
qed

theorem replication_never_skips_witness:
  "\<exists>s' h. (repl_step (apply_entry counter_env))\<^sup>*\<^sup>* \<lparr>rp_log = [], rp_fl = demo_follower 0, rp_cursor = None\<rparr> s'
     \<and> rp_log s' = [demo_logged] \<and> wm_applied (fc_watermark (rp_fl s')) = 1
     \<and> node_store (fc_applier (rp_fl s')) = replay (ev_do counter_env) 0 (map args h) \<and> demo_logged \<in> set h"
proof -
  obtain fl where run: "(repl_step (apply_entry counter_env))\<^sup>*\<^sup>* \<lparr>rp_log = [], rp_fl = demo_follower 0, rp_cursor = None\<rparr>
       \<lparr>rp_log = [demo_logged], rp_fl = fl, rp_cursor = Some 2\<rparr>" and fl: "wm_applied (fc_watermark fl) = 1"
    using demo_repl_run by blast
  let ?s3 = "\<lparr>rp_log = [demo_logged], rp_fl = fl, rp_cursor = Some 2\<rparr>"
  from replication_never_skips [OF run] fl obtain h where
    "node_store (fc_applier (rp_fl ?s3)) = replay (ev_do counter_env) 0 (map args h)" "demo_logged \<in> set h" by auto
  with run fl show ?thesis by (intro exI [of _ ?s3] exI [of _ h]) simp
qed

lemma wal_log_from_one:
  assumes "codec_ok cd" and "wal_log cd dw es" and "unat (next_seq dw) = Suc (length es)" and "es \<noteq> []"
  shows "from_one es" and "min_seq dw = 1"
proof -
  note log = wal_ordered_log [OF assms(1)]
  have "Suc (length es) < 2 ^ 64" using assms(3) unat_u64_less [of "next_seq dw"] by simp
  with ordered_log.rep_seqs [OF log assms(2)] assms(3) show fo: "from_one es" by (simp add: from_one_def del: upt_Suc)
  have "unat (seq_id (es ! 0)) = 1" using from_one_nth [OF fo, of 0] assms(4) by simp
  then show "min_seq dw = 1"
    using ordered_log.rep_min [OF log assms(2,4)] assms(4) by (simp add: hd_conv_nth word_unat_eq_iff)
qed

text \<open>A subscription at the position after the first \<open>n\<close> entries is streamed the rest.\<close>

lemma subscribed_from:
  assumes "codec_ok cd" and "sv_wal sv = Some (d, w)" and "wal_log cd (d, w) es" and "from_one es"
    and "sv_max_batch sv = int k" and "0 < k" and "min_seq (d, w) \<le> 1"
    and "wm_applied (fc_watermark fl) = of_nat n" and "n \<le> length es"
  shows "\<exists>sv' c ch bs c'. subscribe pev sh clk up collect_batch sv (subscribe_req fl) [] = Some (Done (sv', [], Streaming c ch))
    \<and> sub_drain cd collect_batch (sv_max_batch sv) (the (sv_wal sv')) c [] = Some (Done (bs, Inr c'))
    \<and> batches_of k (drop n es) bs"
proof -
  let ?c = "from_seq (subscribe_req fl)"
  have c: "unat ?c = Suc n" using wm_position(2) [OF assms(4,8,9)] by (simp add: subscribe_req_def)
  then have c0: "?c \<noteq> 0" "0 < ?c" by (metis unsigned_0 nat.distinct(1), metis word_gt_0 unsigned_0 nat.distinct(1))
  have "min_seq (d, w) \<le> ?c" using assms(7) c by (simp add: word_le_nat_alt)
  note st0 = subscribe_starts [OF assms(2) c0(1) this]
  have st: "subscribe pev sh clk up collect_batch sv (subscribe_req fl) [] = Some (Done (subscribed sv, [], Streaming ?c (length (wl_notify w))))"
    "sv_wal (subscribed sv) = Some (d, w\<lparr>wl_notify := wl_notify w @ [False]\<rparr>)" by (simp_all add: st0)
  have log: "wal_log cd (the (sv_wal (subscribed sv))) es" using assms(3) by (simp add: st(2))
  obtain bs c' where "sub_drain cd collect_batch (sv_max_batch sv) (the (sv_wal (subscribed sv))) ?c [] = Some (Done (bs, Inr c'))"
    "batches_of k (wanted ?c es) bs"
    using sub_drain_log [OF assms(1) log assms(6), of ?c "[]"] unfolding assms(5) append_Nil by blast
  moreover have "wanted ?c es = drop n es" using from_one_wanted [OF assms(4) c0(2)] c by simp
  ultimately show ?thesis using st(1) by metis
qed

lemma run_batches_subscribed:
  fixes ev :: "('b, 'f, 'u) env"
  assumes "codec_ok cd" and "sv_wal sv = Some (d, w)" and "wal_log cd (d, w) es" and "from_one es"
    and "sv_max_batch sv = int k" and "0 < k" and "min_seq (d, w) \<le> 1"
    and "plain_node (fc_applier fl)" and "disk_fine (fc_disk fl)" and "wm_rep (fc_disk fl) (fc_watermark fl)"
    and "wm_applied (fc_watermark fl) = of_nat n" and "n \<le> length es"
    and "node_store (fc_applier fl) = replay (ev_do ev) b0 (map args (take n es))"
    and "\<And>x b. x \<in> set es \<Longrightarrow> \<not> isl (snd (ev_do ev b (args x)))"
  shows "\<exists>sv' c ch bs c' fl'. subscribe pev sh clk up collect_batch sv (subscribe_req fl) [] = Some (Done (sv', [], Streaming c ch))
    \<and> sub_drain cd collect_batch (sv_max_batch sv) (the (sv_wal sv')) c [] = Some (Done (bs, Inr c'))
    \<and> run_batches (apply_entry ev) fl bs None = Done (fl', None)
    \<and> wm_applied (fc_watermark fl') = of_nat (length es)
    \<and> node_store (fc_applier fl') = replay (ev_do ev) b0 (map args es)"
proof -
  obtain sv' c ch bs c' where s: "subscribe pev sh clk up collect_batch sv (subscribe_req fl) [] = Some (Done (sv', [], Streaming c ch))"
    "sub_drain cd collect_batch (sv_max_batch sv) (the (sv_wal sv')) c [] = Some (Done (bs, Inr c'))" "batches_of k (drop n es) bs"
    using subscribed_from [OF assms(1-7,11,12)] by blast
  have "replica_at ev b0 es n fl" "accepts_all (ev_do ev) es"
    using assms(4,8-14) by (simp_all add: follows_def replayed_def accepts_all_def)
  from node.exact.run_batches_at [OF this(2,1) s(3), of None] obtain fl' where
    "run_batches (apply_entry ev) fl bs None = Done (fl', None)" "wm_applied (fc_watermark fl') = of_nat (length es)"
    "node_store (fc_applier fl') = replay (ev_do ev) b0 (map args es)"
    by (auto simp: follows_def replayed_def)
  with s(1,2) show ?thesis by (intro exI conjI)
qed

text \<open>C7 follower_catches_up. A primary and a follower put together: the follower subscribes at
  its watermark, the server streams its log, the follower applies the batches. When the
  backend accepts the commands of the log and the follower's disk works, the follower ends
  with the watermark at the end of the log and its backend is exactly what executing the
  whole log once, in order, makes of the initial state.\<close>

theorem follower_catches_up:
  fixes ev :: "('b, 'f, 'u) env"
  assumes "codec_ok cd" and "sv_wal sv = Some (d, w)" and "wal_log cd (d, w) es" and "from_one es"
    and "sv_max_batch sv = int k" and "0 < k" and "min_seq (d, w) \<le> 1"
    and "plain_node (fc_applier fl)" and "disk_fine (fc_disk fl)" and "wm_rep (fc_disk fl) (fc_watermark fl)"
    and "wm_applied (fc_watermark fl) = of_nat n" and "n \<le> length es"
    and "node_store (fc_applier fl) = replay (ev_do ev) b0 (map args (take n es))"
    and "\<And>x b. x \<in> set es \<Longrightarrow> \<not> isl (snd (ev_do ev b (args x)))"
  shows "\<exists>sv' c ch bs c' fl'. subscribe pev sh clk up collect_batch sv (subscribe_req fl) [] = Some (Done (sv', [], Streaming c ch))
    \<and> sub_drain cd collect_batch (sv_max_batch sv) (the (sv_wal sv')) c [] = Some (Done (bs, Inr c'))
    \<and> run_batches (apply_entry ev) fl bs None = Done (fl', None)
    \<and> wm_applied (fc_watermark fl') = of_nat (length es)
    \<and> node_store (fc_applier fl') = replay (ev_do ev) b0 (map args es)"
  using run_batches_subscribed [OF assms] by blast

theorem follower_catches_up_witness:
  "\<exists>dw sv' c ch bs c' fl'. subscribe demo_snap_env (\<lambda>_. []) (\<lambda>_. 0) (\<lambda>_ _. Inl []) collect_batch (demo_server dw)
       (subscribe_req (demo_follower 0)) [] = Some (Done (sv', [], Streaming c ch))
     \<and> sub_drain wire collect_batch 256 (the (sv_wal sv')) c [] = Some (Done (bs, Inr c'))
     \<and> run_batches (apply_entry counter_env) (demo_follower 0) bs None = Done (fl', None)
     \<and> wm_applied (fc_watermark fl') = 1 \<and> node_store (fc_applier fl') = 1"
proof -
  obtain d w where w: "wal_log wire (d, w) [demo_logged]" "min_seq (d, w) = 1" using demo_one_entry by blast
  obtain sv' c ch bs c' fl' where
    "subscribe demo_snap_env (\<lambda>_. []) (\<lambda>_. 0) (\<lambda>_ _. Inl []) collect_batch (demo_server (d, w))
       (subscribe_req (demo_follower 0)) [] = Some (Done (sv', [], Streaming c ch))"
    "sub_drain wire collect_batch 256 (the (sv_wal sv')) c [] = Some (Done (bs, Inr c'))"
    "run_batches (apply_entry counter_env) (demo_follower 0) bs None = Done (fl', None)"
    "wm_applied (fc_watermark fl') = 1" "node_store (fc_applier fl') = 1"
    using follower_catches_up [OF wire_ok demo_server_simps(1) w(1) demo_from_one(1), of 256 "demo_follower 0" 0 counter_env 0
        demo_snap_env "\<lambda>_. []" "\<lambda>_. 0" "\<lambda>_ _. Inl []"] w(2) by auto
  then show ?thesis by (intro exI conjI)
qed

section \<open>Retrying\<close>

lemma next_backoff_bounds:
  assumes "min_backoff \<le> b" and "b \<le> max_backoff"
  shows "min_backoff \<le> next_backoff c b \<and> next_backoff c b \<le> max_backoff"
proof -
  have "wrap64 (b * 2) = b * 2"
    using assms by (intro wrap64_id) (simp_all add: min_backoff_def max_backoff_def min_int64_def max_int64_def)
  with assms show ?thesis by (simp add: next_backoff_def wait_time_def Let_def min_backoff_def max_backoff_def)
qed

lemma next_backoff_doubles:
  assumes "min_backoff \<le> b" and "b \<le> max_backoff"
  shows "next_backoff False b = min (2 * b) max_backoff"
proof -
  have "wrap64 (b * 2) = b * 2"
    using assms by (intro wrap64_id) (simp_all add: min_backoff_def max_backoff_def min_int64_def max_int64_def)
  then show ?thesis by (simp add: next_backoff_def wait_time_def Let_def min_def)
qed

lemma follower_run_waits:
  assumes "follower_run app b atts fl = Done (fl', waits)" and "min_backoff \<le> b" and "b \<le> max_backoff"
  shows "length waits = length atts \<and> (\<forall>x \<in> set waits. min_backoff \<le> x \<and> x \<le> max_backoff)"
  using assms
proof (induction app b atts fl arbitrary: waits rule: follower_run.induct)
  case (2 app b up pick rest fl)
  from "2.prems"(1) obtain fl1 c err ws where r: "run_once app up pick fl = Done (fl1, c, err)"
    "follower_run app (next_backoff c b) rest fl1 = Done (fl', ws)" "waits = wait_time c b # ws"
    by (auto elim!: bind_outcome_DoneE)
  from "2.IH" [OF r(2)] next_backoff_bounds [OF "2.prems"(2,3)] have
    "length ws = length rest \<and> (\<forall>x \<in> set ws. min_backoff \<le> x \<and> x \<le> max_backoff)" by blast
  moreover have "min_backoff \<le> max_backoff" by (simp add: min_backoff_def max_backoff_def)
  ultimately show ?case using "2.prems"(2,3) by (auto simp: r(3) wait_time_def)
qed simp

lemma follower_run_refused:
  assumes "\<forall>(up, pick) \<in> set atts. \<forall>addr req. isl (up addr req)" and "min_backoff \<le> b" and "b \<le> max_backoff"
  shows "follower_run app b atts fl = Done (fl, map (\<lambda>i. min (b * 2 ^ i) max_backoff) [0..<length atts])"
  using assms
proof (induction atts arbitrary: b)
  case Nil
  then show ?case by simp
next
  case (Cons a atts)
  obtain up pick where a: "a = (up, pick)" by fastforce
  have "isl (up (fc_owner_addrs fl ! pick (length (fc_owner_addrs fl))) (subscribe_req fl))"
    using Cons.prems(1) a by simp
  then obtain x where "up (fc_owner_addrs fl ! pick (length (fc_owner_addrs fl))) (subscribe_req fl) = Inl x"
    by (auto simp: isl_def)
  then have "run_once app up pick fl = Done (fl, False, if fc_owner_addrs fl = [] then None else Some (FlConnect x))"
    by (simp add: run_once_def)
  then obtain err where once: "run_once app up pick fl = Done (fl, False, err)" by blast
  note nb = next_backoff_bounds [OF Cons.prems(2,3), of False] next_backoff_doubles [OF Cons.prems(2,3)]
  have "follower_run app (next_backoff False b) atts fl =
      Done (fl, map (\<lambda>i. min (next_backoff False b * 2 ^ i) max_backoff) [0..<length atts])"
    using Cons.IH nb(1) Cons.prems(1) by simp
  moreover have "min (next_backoff False b * 2 ^ i) max_backoff = min (b * 2 ^ Suc i) max_backoff" for i :: nat
  proof -
    have up: "max_backoff \<le> max_backoff * 2 ^ i" by (simp add: max_backoff_def)
    have "0 \<le> b" using Cons.prems(2) by (simp add: min_backoff_def)
    then have "2 * b \<le> b * 2 ^ Suc i" using mult_left_mono [of 1 "2 ^ i" "2 * b"] by (simp add: ac_simps)
    with up show ?thesis by (cases "2 * b \<le> max_backoff") (simp_all add: nb(2) min_absorb1 min_absorb2 ac_simps)
  qed
  moreover have "[0..<length (a # atts)] = 0 # map Suc [0..<length atts]" by (simp add: map_Suc_upt upt_conv_Cons del: upt_Suc)
  ultimately show ?case using once Cons.prems(3) by (simp add: a wait_time_def comp_def min_def del: upt_Suc)
qed

text \<open>A follower waits between 200 milliseconds and 5 seconds after every
  attempt, never more and never less, without overflow; while every connection is refused the
  wait doubles from 200 milliseconds until it reaches 5 seconds and stays there, and the
  follower's state does not change.\<close>

theorem backoff_is_bounded:
  shows "(follower_run app min_backoff atts fl = Done (fl', waits) \<longrightarrow>
      length waits = length atts \<and> (\<forall>x \<in> set waits. 200000000 \<le> x \<and> x \<le> 5000000000))
    \<and> ((\<forall>(up, pick) \<in> set atts. \<forall>addr req. isl (up addr req)) \<longrightarrow>
      follower_run app min_backoff atts fl = Done (fl, map (\<lambda>i. min (200000000 * 2 ^ i) 5000000000) [0..<length atts]))"
proof -
  have b: "min_backoff = 200000000" "max_backoff = 5000000000" "min_backoff \<le> max_backoff"
    by (simp_all add: min_backoff_def max_backoff_def)
  show ?thesis
    using follower_run_waits [OF _ order_refl b(3)] follower_run_refused [OF _ order_refl b(3)] unfolding b(1,2) by fastforce
qed

theorem backoff_is_bounded_witness:
  "follower_run (apply_entry counter_env) min_backoff (replicate 6 (\<lambda>_ _. Inl ''refused'', \<lambda>_. 0)) (demo_follower 0) =
     Done (demo_follower 0, [200000000, 400000000, 800000000, 1600000000, 3200000000, 5000000000])"
proof -
  have "[0..<6] = [0, 1, 2, 3, 4, 5 :: nat]" by (simp add: upt_rec)
  then show ?thesis
    using backoff_is_bounded [of "apply_entry counter_env" "replicate 6 (\<lambda>_ _. Inl ''refused'', \<lambda>_. 0)" "demo_follower 0"] by simp
qed

section \<open>An entry the backend rejects\<close>

definition stuck_at :: "walentry \<Rightarrow> ('b, 'f) dispatcher follower \<Rightarrow> disk \<Rightarrow> watermark \<Rightarrow> bool" where
  "stuck_at e fl dk w \<longleftrightarrow> plain_node (fc_applier fl) \<and> fc_disk fl = dk \<and> fc_watermark fl = w \<and> seq_id e = wm_next_seq w"

definition serves_first :: "walentry \<Rightarrow> upstream \<Rightarrow> bool" where
  "serves_first e up \<longleftrightarrow>
     (\<forall>addr req bs fin. from_seq req = seq_id e \<longrightarrow> up addr req = Inr (bs, fin) \<longrightarrow> bs = [] \<or> (\<exists>rest. entries (hd bs) = e # rest))"

lemma run_batches_stuck:
  fixes ev :: "('b, 'f, 'u) env"
  assumes "stuck_at e fl dk w" and "\<And>b. isl (snd (ev_do ev b (args e)))" and "bs = [] \<or> (\<exists>rest. entries (hd bs) = e # rest)"
  shows "\<exists>fl' r. run_batches (apply_entry ev) fl bs fin = Done (fl', r) \<and> stuck_at e fl' dk w"
proof (cases bs)
  case Nil
  then show ?thesis using assms(1) by simp
next
  case (Cons b bs')
  with assms(3) obtain rest where rest: "entries b = e # rest" by auto
  have pl: "plain_node (fc_applier fl)" "seq_id e = wm_next_seq (fc_watermark fl)" using assms(1) by (auto simp: stuck_at_def)
  obtain s1 x where "apply_entry ev (fc_applier fl) e = Done (s1, e, Some x)" "plain_node s1"
    using node.app_plain [OF pl(1), of ev e] assms(2) by blast
  then show ?thesis using rest pl(2) assms(1) by (auto simp: Cons apply_batch_def Let_def stuck_at_def)
qed

lemma run_once_stuck:
  fixes ev :: "('b, 'f, 'u) env"
  assumes "stuck_at e fl dk w" and "\<And>b. isl (snd (ev_do ev b (args e)))" and "serves_first e up"
  shows "\<exists>fl' c r. run_once (apply_entry ev) up pick fl = Done (fl', c, r) \<and> stuck_at e fl' dk w"
proof -
  let ?r = "up (fc_owner_addrs fl ! pick (length (fc_owner_addrs fl))) (subscribe_req fl)"
  consider "fc_owner_addrs fl = []" | x where "fc_owner_addrs fl \<noteq> []" "?r = Inl x"
    | bs fin where "fc_owner_addrs fl \<noteq> []" "?r = Inr (bs, fin)" by (metis sum.exhaust surj_pair)
  then show ?thesis
  proof cases
    case 3
    have "from_seq (subscribe_req fl) = seq_id e" using assms(1) by (simp add: subscribe_req_def stuck_at_def)
    with assms(3) 3(2) have "bs = [] \<or> (\<exists>rest. entries (hd bs) = e # rest)" unfolding serves_first_def by blast
    from run_batches_stuck [OF assms(1,2) this, of fin] show ?thesis using 3 by (auto simp: run_once_def)
  qed (use assms(1) in \<open>auto simp: run_once_def\<close>)
qed

text \<open>C36 poison_entry_blocks. An entry whose command the backend of a follower rejects stops
  replication for good: however often the follower reconnects, and whatever the upstream
  nodes send after that entry, every attempt ends at it and the watermark stays where it is.
  Commands that fail on the primary are in the log too, since it is written first.\<close>

theorem poison_entry_blocks:
  fixes ev :: "('b, 'f, 'u) env"
  assumes "stuck_at e fl dk w" and "\<And>b. isl (snd (ev_do ev b (args e)))" and "\<And>up pick. (up, pick) \<in> set atts \<Longrightarrow> serves_first e up"
  shows "\<exists>fl' waits. follower_run (apply_entry ev) backoff atts fl = Done (fl', waits) \<and> stuck_at e fl' dk w"
  using assms(1,3)
proof (induction atts arbitrary: fl backoff)
  case Nil
  then show ?case by simp
next
  case (Cons a atts)
  obtain up pick where a: "a = (up, pick)" by fastforce
  with Cons.prems(2) [of up pick] have "serves_first e up" by simp
  from run_once_stuck [OF Cons.prems(1) assms(2) this] obtain fl1 c err where
    o: "run_once (apply_entry ev) up pick fl = Done (fl1, c, err)" "stuck_at e fl1 dk w" by blast
  from Cons.IH [OF o(2), of "next_backoff c backoff"] Cons.prems(2) obtain fl' ws where
    "follower_run (apply_entry ev) (next_backoff c backoff) atts fl1 = Done (fl', ws)" "stuck_at e fl' dk w" by auto
  with o show ?case by (simp add: a)
qed

definition refusing_env :: "(int, unit, unit) env" where
  "refusing_env = counter_env\<lparr>ev_do := \<lambda>n as. (n, Inl (GoErr ''WRONGTYPE''))\<rparr>"

theorem poison_entry_blocks_witness:
  "\<exists>fl' waits. follower_run (apply_entry refusing_env) min_backoff
       (replicate 9 (\<lambda>_ _. Inr ([batch_of [demo_logged]], None), \<lambda>_. 0)) (demo_follower 0) = Done (fl', waits)
     \<and> wm_applied (fc_watermark fl') = 0"
proof -
  let ?w = "\<lparr>wm_path = (''s'', ''wm''), wm_applied = 0\<rparr>"
  have "stuck_at demo_logged (demo_follower 0) demo_disk ?w" by (simp add: stuck_at_def wm_next_seq_def)
  from poison_entry_blocks [OF this, of refusing_env "replicate 9 (\<lambda>_ _. Inr ([batch_of [demo_logged]], None), \<lambda>_. 0)" min_backoff]
  show ?thesis by (auto simp: refusing_env_def serves_first_def stuck_at_def)
qed

end
