(* ===== verification/Full_Sync.thy ===== *)
theory Full_Sync
  imports Follower
begin

text \<open>
  The full synchronisation of a subscriber that starts from 0 (\<open>fullSync\<close> of
  \<open>internal/sync/server.go\<close>, defined in \<open>Repl_Server\<close>), put together with the follower that
  receives it.
\<close>

section \<open>Numbering a snapshot\<close>

lemma number_cmds_append:
  "number_cmds n (cs @ ds) =
     (case number_cmds n cs of (es, n') \<Rightarrow> case number_cmds n' ds of (fs, n'') \<Rightarrow> (es @ fs, n''))"
  by (induction cs arbitrary: n) (auto split: prod.splits)

lemma number_cmds_props:
  "snd (number_cmds n cs) = n + of_nat (length cs)" "map args (fst (number_cmds n cs)) = cs"
  "length (fst (number_cmds n cs)) = length cs"
  by (induction cs arbitrary: n) (auto simp: split_def add.assoc)

lemma number_cmds_seqs:
  "unat n + length cs < 2 ^ 64 \<Longrightarrow> seqs (fst (number_cmds n cs)) = [unat n..<unat n + length cs]"
proof (induction cs arbitrary: n)
  case (Cons c cs)
  then have "unat (n + 1) = Suc (unat n)" using unat_Suc [of n] by simp
  with Cons show ?case by (simp add: split_def upt_conv_Cons del: upt_Suc)
qed simp

lemma number_cmds_last:
  "cs \<noteq> [] \<Longrightarrow> seq_id (last (fst (number_cmds n cs))) = snd (number_cmds n cs) - 1"
proof (induction cs arbitrary: n)
  case (Cons c cs)
  show ?case
  proof (cases cs)
    case Nil
    then show ?thesis by simp
  next
    case (Cons c2 cs2)
    then have "fst (number_cmds (n + 1) cs) \<noteq> []" using number_cmds_props(3) [of "n + 1" cs] by auto
    with Cons.IH [of "n + 1"] Cons show ?thesis by (simp add: split_def)
  qed
qed simp

definition number_batch :: "u64 \<times> sync_batch list \<Rightarrow> bytes list list \<Rightarrow> u64 \<times> sync_batch list" where
  "number_batch st cmds =
     (case number_cmds (fst st) cmds of (es, n) \<Rightarrow> (n, snd st @ [\<lparr>entries = es, up_to_seq = n - 1\<rparr>]))"

lemma send_snapshot_collect: "send_snapshot collect_batch = accepting number_batch"
  by (rule ext, rule ext)
    (simp add: send_snapshot_def accepting_def number_batch_def collect_batch_def split_def)

lemma number_batches:
  assumes "[] \<notin> set out"
  shows "\<exists>bs. foldl number_batch (n, s) out = (snd (number_cmds n (concat out)), s @ bs)
    \<and> batches_of (length (concat out)) (fst (number_cmds n (concat out))) bs"
  using assms
proof (induction out arbitrary: n s)
  case Nil
  then show ?case by (simp add: batches_of_def)
next
  case (Cons c out)
  obtain es n1 where c: "number_cmds n c = (es, n1)" by fastforce
  let ?b = "\<lparr>entries = es, up_to_seq = n1 - 1\<rparr>"
  from Cons.IH [of n1 "s @ [?b]"] Cons.prems obtain bs where
    bs: "foldl number_batch (n1, s @ [?b]) out = (snd (number_cmds n1 (concat out)), (s @ [?b]) @ bs)"
    "batches_of (length (concat out)) (fst (number_cmds n1 (concat out))) bs" by auto
  have "es \<noteq> []" "length es = length c" "seq_id (last es) = n1 - 1"
    using number_cmds_props(3) [of n c] number_cmds_last [of c n] c Cons.prems by auto
  moreover have "list_all (\<lambda>b. entries b \<noteq> [] \<and> length (entries b) \<le> length c + length (concat out)
      \<and> up_to_seq b = seq_id (last (entries b))) bs"
    using bs(2) by (auto simp: batches_of_def list_all_iff)
  ultimately have "batches_of (length (concat (c # out))) (fst (number_cmds n (concat (c # out)))) (?b # bs)"
    using bs(2) by (simp add: batches_of_def number_cmds_append c split_def)
  moreover have "foldl number_batch (n, s) (c # out) = (snd (number_cmds n (concat (c # out))), s @ ?b # bs)"
    using bs(1) by (simp add: number_batch_def c number_cmds_append split_def)
  ultimately show ?case by blast
qed

section \<open>Subscribing from the beginning\<close>



lemma subscribe_full:
  assumes "sv_writer sv = Some dp" and "dp_wal dp = Some (d, w)" and "dp_backend dp = Some b" and "from_seq req = 0"
    and "list_all2 (shard_reads (ev_do ev) clk) (if sh b = [] then [b] else sh b) kcss"
  defines "cmds \<equiv> concat (map snd (concat kcss))"
  shows "\<exists>sv' w' bs. subscribe ev sh clk up collect_batch sv req [] =
      Some (Done (sv', bs, Streaming (if min_seq (d, w) = 0 then 1 else min_seq (d, w)) (length (wl_notify w))))
    \<and> batches_of (length cmds) (fst (number_cmds 1 cmds)) bs
    \<and> sv_wal sv' = Some (d, w') \<and> w' = w\<lparr>wl_notify := wl_notify w @ [False], wl_snapshot := wl_next w\<rparr>"
proof -
  let ?w = "w\<lparr>wl_notify := wl_notify w @ [False], wl_snapshot := wl_next w\<rparr>"
  let ?dp = "dp\<lparr>dp_wal := Some (d, ?w)\<rparr>"
  have "dp_backend ?dp = Some b" using assms(3) by simp
  from stream_snapshot_accepting [of ?dp b _ sh ev clk kcss number_batch "(1, [])", OF this refl assms(5)] obtain out where
    o: "stream_snapshot ev sh clk ?dp (accepting number_batch) (1, []) = Some (Done (?dp, foldl number_batch (1, []) out, None))"
    "concat out = cmds" "[] \<notin> set out" by (auto simp: cmds_def)
  from number_batches [OF o(3), of 1 "[]"] o(2) obtain bs where
    bs: "foldl number_batch (1, []) out = (snd (number_cmds 1 cmds), bs)" "batches_of (length cmds) (fst (number_cmds 1 cmds)) bs" by auto
  have "full_sync ev sh clk up collect_batch (sv_update_wal (\<lambda>w. fst (wal_notify w)) sv) [] = Some (Done (sv\<lparr>sv_writer := Some ?dp\<rparr>, bs, None))"
    using assms(1,2) o(1) bs(1)
    by (simp add: full_sync_def sv_update_wal_def start_snapshot_def wal_notify_def send_snapshot_collect)
  moreover have "min_seq (d, ?w) = min_seq (d, w)" by (simp add: min_seq_def)
  ultimately show ?thesis using assms(1,2,4) bs(2)
    by (intro exI [of _ "sv\<lparr>sv_writer := Some ?dp\<rparr>"] exI [of _ ?w] exI [of _ bs])
      (simp add: subscribe_def sv_wal_def wal_notify_def Let_def)
qed


lemma number_cmds_from_one: "1 + length cmds < 2 ^ 64 \<Longrightarrow> from_one (fst (number_cmds 1 cmds))"
  using number_cmds_seqs [of 1 cmds] by (simp add: from_one_def number_cmds_props(3))

section \<open>Properties\<close>

text \<open>A subscription from 0, which is what a load balancer asks for on
  behalf of the followers behind it, is sent the snapshot numbered from 1, and then the log
  from its first entry, in its own numbering. A new follower applies the whole snapshot and
  ends with the watermark at the number of commands in it; every log entry with a number up to
  that is then dropped as already applied, also when it was written after the snapshot, and
  the barrier the full sync set in the log is not cleared.\<close>

theorem full_sync_hides_writes:
  fixes ev :: "('b, 'f, 'u) env" and fev :: "('c, 'g, 'v) env"
  assumes "sv_writer sv = Some dp" and "dp_wal dp = Some (d, w)" and "dp_backend dp = Some b" and "from_seq req = 0"
    and "list_all2 (shard_reads (ev_do ev) clk) (if sh b = [] then [b] else sh b) kcss"
    and "cmds = concat (map snd (concat kcss))" and "1 + length cmds < 2 ^ 64"
    and "plain_node (fc_applier fl)" and "disk_fine (fc_disk fl)" and "wm_rep (fc_disk fl) (fc_watermark fl)"
    and "wm_applied (fc_watermark fl) = 0" and "\<And>c b. c \<in> set cmds \<Longrightarrow> \<not> isl (snd (ev_do fev b c))"
    and "0 < seq_id e" and "unat (seq_id e) \<le> length cmds"
  shows "\<exists>sv' d' w' bs c ch fl'. subscribe ev sh clk up collect_batch sv req [] = Some (Done (sv', bs, Streaming c ch))
    \<and> sv_wal sv' = Some (d', w') \<and> wl_snapshot w' = wl_next w
    \<and> run_batches (apply_entry fev) fl bs None = Done (fl', None)
    \<and> node_store (fc_applier fl') = replay (ev_do fev) (node_store (fc_applier fl)) cmds
    \<and> wm_applied (fc_watermark fl') = of_nat (length cmds)
    \<and> apply_batch (apply_entry fev) fl' (batch_of [e]) = Done (fl', None)"
proof -
  let ?es = "fst (number_cmds 1 cmds)"
  obtain sv' w' bs c ch where s: "subscribe ev sh clk up collect_batch sv req [] = Some (Done (sv', bs, Streaming c ch))"
    "batches_of (length cmds) (drop 0 ?es) bs" "sv_wal sv' = Some (d, w')" "wl_snapshot w' = wl_next w"
    using subscribe_full [where sh = sh and b = b and up = up, OF assms(1-5)] assms(6) by (auto simp: Let_def)
  have fo: "from_one ?es" by (rule number_cmds_from_one [OF assms(7)])
  have fine: "\<not> isl (snd (ev_do fev x (args y)))" if "y \<in> set ?es" for x y
    using assms(12) that number_cmds_props(2) [of 1 cmds] by (metis image_eqI list.set_map)
  have "replica_at fev (node_store (fc_applier fl)) ?es 0 fl" "accepts_all (ev_do fev) ?es"
    using assms(8-11) fo fine by (simp_all add: follows_def replayed_def accepts_all_def)
  from node.exact.run_batches_at [OF this(2,1) s(2), of None] obtain fl' where
    r: "run_batches (apply_entry fev) fl bs None = Done (fl', None)"
    and at: "replica_at fev (node_store (fc_applier fl)) ?es (length ?es) fl'" by auto
  from at have st: "wm_applied (fc_watermark fl') = of_nat (length cmds)"
    "node_store (fc_applier fl') = replay (ev_do fev) (node_store (fc_applier fl)) cmds"
    by (simp_all add: follows_def replayed_def number_cmds_props)
  have N: "unat (wm_applied (fc_watermark fl')) = length cmds" using assms(7) unat_u64_of_nat [of "length cmds"] by (simp add: st(1))
  then have "seq_id e < wm_next_seq (fc_watermark fl')" "seq_id e \<le> wm_applied (fc_watermark fl')"
    using assms(7,14) unat_Suc [of "wm_applied (fc_watermark fl')"]
    by (simp_all add: wm_next_seq_def word_less_nat_alt word_le_nat_alt)
  then have "apply_batch (apply_entry fev) fl' (batch_of [e]) = Done (fl', None)"
    using assms(13) by (simp add: apply_batch_def wm_set_def)
  with s(1,3,4) r st show ?thesis by (intro exI conjI)
qed

theorem full_sync_hides_writes_witness:
  "\<exists>sv' bs c ch fl'. subscribe demo_snap_env (\<lambda>_. []) (\<lambda>_. 5) (\<lambda>_ _. Inl []) collect_batch
       (new_server (Some (new_dispatcher (Some ()) new_router (Some (demo_disk, demo_wal 1)) True None False False)) 0) (demo_req 0) []
       = Some (Done (sv', bs, Streaming c ch))
     \<and> run_batches (apply_entry counter_env) (demo_follower 0) bs None = Done (fl', None)
     \<and> node_store (fc_applier fl') = 2
     \<and> apply_batch (apply_entry counter_env) fl' (batch_of [demo_logged]) = Done (fl', None)"
proof -
  let ?sv = "new_server (Some (new_dispatcher (Some ()) new_router (Some (demo_disk, demo_wal 1)) True None False False)) 0 :: (unit, unit) sync_server"
  let ?c = "[[''SET'', ''k'', ''v''], [''PEXPIREAT'', ''k'', format_int 1005]]"
  have "list_all2 (shard_reads (ev_do demo_snap_env) (\<lambda>_. 5)) [()] [[(''k'', ?c)]]"
    using demo_shard_reads by (simp add: demo_snap_env_def)
  then obtain sv' d' w' bs c ch fl' where "subscribe demo_snap_env (\<lambda>_. []) (\<lambda>_. 5) (\<lambda>_ _. Inl []) collect_batch ?sv (demo_req 0) []
      = Some (Done (sv', bs, Streaming c ch))"
    "run_batches (apply_entry counter_env) (demo_follower 0) bs None = Done (fl', None)"
    "node_store (fc_applier fl') = 2"
    "apply_batch (apply_entry counter_env) fl' (batch_of [demo_logged]) = Done (fl', None)"
    using full_sync_hides_writes [of ?sv "new_dispatcher (Some ()) new_router (Some (demo_disk, demo_wal 1)) True None False False"
        demo_disk "demo_wal 1" "()" "demo_req 0" demo_snap_env "\<lambda>_. 5" "\<lambda>_. []" "[[(''k'', ?c)]]" ?c "demo_follower 0" counter_env
        demo_logged "\<lambda>_ _. Inl []"]
    by (auto simp: new_server_def new_dispatcher_def plain_node_def node_store_def)
  then show ?thesis by (intro exI conjI)
qed

text \<open>C21 full_sync_outcome. What a new follower that is fully synchronised ends up with, exactly: after the snapshot and the
  log that is streamed after it, its backend has executed the commands of the snapshot and then, on top, every entry of the
  log but the first ones, as many as the snapshot has commands. The entries it leaves out and the entries it executes depend on
  nothing but that number: not on which writes the snapshot already holds, and not on the barrier. So writes that the snapshot
  holds are executed a second time, and writes that it does not hold can be left out. The watermark is at the
  higher of the two numbers.\<close>

theorem full_sync_outcome:
  fixes ev :: "('b, 'f, 'u) env" and fev :: "('c, 'g, 'v) env"
  assumes "sv_writer sv = Some dp" and "dp_wal dp = Some (d, w)" and "dp_backend dp = Some b" and "from_seq req = 0"
    and "list_all2 (shard_reads (ev_do ev) clk) (if sh b = [] then [b] else sh b) kcss"
    and "cmds = concat (map snd (concat kcss))" and "1 + length cmds < 2 ^ 64"
    and "codec_ok cd" and "wal_log cd (d, w) es" and "unat (wl_next w) = Suc (length es)"
    and "sv_max_batch sv = int k" and "0 < k"
    and "plain_node (fc_applier fl)" and "disk_fine (fc_disk fl)" and "wm_rep (fc_disk fl) (fc_watermark fl)"
    and "wm_applied (fc_watermark fl) = 0" and "\<And>c b. c \<in> set (cmds @ map args es) \<Longrightarrow> \<not> isl (snd (ev_do fev b c))"
  shows "\<exists>sv' bs c ch bs2 c2 fl'. subscribe ev sh clk up collect_batch sv req [] = Some (Done (sv', bs, Streaming c ch))
    \<and> sub_drain cd collect_batch (sv_max_batch sv) (the (sv_wal sv')) c [] = Some (Done (bs2, Inr c2))
    \<and> run_batches (apply_entry fev) fl (bs @ bs2) None = Done (fl', None)
    \<and> node_store (fc_applier fl') = replay (ev_do fev) (node_store (fc_applier fl)) (cmds @ map args (drop (length cmds) es))
    \<and> wm_applied (fc_watermark fl') = of_nat (max (length cmds) (length es))"
proof -
  let ?ns = "fst (number_cmds 1 cmds)" and ?N = "length cmds" let ?X = "?ns @ drop ?N es" and ?b0 = "node_store (fc_applier fl)"
  have ns: "from_one ?ns" "length ?ns = ?N" "map args ?ns = cmds" using number_cmds_from_one [OF assms(7)] by (simp_all add: number_cmds_props)
  have nx: "unat (next_seq (d, w)) = Suc (length es)" using assms(10) by (simp add: next_seq_def)
  have fo: "from_one es"
  proof (cases "es = []")
    case False
    then show ?thesis by (rule wal_log_from_one(1) [OF assms(8,9) nx])
  qed (simp add: from_one_def)
  have X: "from_one ?X" using from_one_over [OF ns(1) fo] ns(2) by simp
  obtain sv' w' bs ch where s: "subscribe ev sh clk up collect_batch sv req [] =
      Some (Done (sv', bs, Streaming (if min_seq (d, w) = 0 then 1 else min_seq (d, w)) ch))"
    "batches_of ?N ?ns bs" "sv_wal sv' = Some (d, w')" "w' = w\<lparr>wl_notify := wl_notify w @ [False], wl_snapshot := wl_next w\<rparr>"
    using subscribe_full [where sh = sh and b = b and up = up, OF assms(1-5)] unfolding assms(6) by (auto simp: Let_def)
  let ?c = "if min_seq (d, w) = 0 then 1 else min_seq (d, w)"
  have "wanted ?c es = es"
    using wal_log_from_one(2) [OF assms(8,9) nx] from_one_wanted [OF fo, of 1] by (cases "es = []") simp_all
  moreover have "wal_log cd (d, w') es" using assms(9) by (simp add: s(4))
  ultimately obtain bs2 c2 where d: "sub_drain cd collect_batch (sv_max_batch sv) (the (sv_wal sv')) ?c [] = Some (Done (bs2, Inr c2))"
    "batches_of k (take ?N es @ drop ?N es) bs2"
    using sub_drain_log [OF assms(8) _ assms(12), of "(d, w')" es ?c "[]"] unfolding assms(11) s(3) by auto
  have "args x \<in> set cmds" if "x \<in> set ?ns" for x using that ns(3) by (metis image_eqI list.set_map)
  then have ok: "accepts_all (ev_do fev) ?ns" "accepts_all (ev_do fev) ?X"
    using ns X assms(17) by (auto simp: accepts_all_def dest!: in_set_dropD)
  have "replica_at fev ?b0 ?ns 0 fl" using assms(13-16) by (simp add: follows_def replayed_def)
  then obtain fl1 where f1: "run_batches (apply_entry fev) fl bs None = Done (fl1, None)" "replica_at fev ?b0 ?ns ?N fl1"
    using node.exact.run_batches_at [OF ok(1) _ , of ?b0 0 fl ?N bs None] s(2) ns(2) by auto
  then have "replica_at fev ?b0 ?X ?N fl1" using ns(2) by (simp add: follows_def replayed_def)
  from node.exact.run_batches_redelivered [OF ok(2) this, of k "take ?N es" bs2 None] d(2) from_one_take [OF fo] ns(2)
  obtain fl' where "run_batches (apply_entry fev) fl1 bs2 None = Done (fl', None)" "replica_at fev ?b0 ?X (length ?X) fl'" by auto
  then have "run_batches (apply_entry fev) fl (bs @ bs2) None = Done (fl', None)"
    "node_store (fc_applier fl') = replay (ev_do fev) ?b0 (cmds @ map args (drop ?N es))"
    "wm_applied (fc_watermark fl') = of_nat (max ?N (length es))"
    using run_batches_append [OF f1(1), of bs2 None] ns(2,3) by (auto simp: follows_def replayed_def max_def)
  with s(1) d(1) show ?thesis by (intro exI conjI)
qed

theorem full_sync_outcome_witness:
  "\<exists>dw sv' bs c ch bs2 c2 fl'. wal_log wire dw [demo_logged]
     \<and> subscribe demo_snap_env (\<lambda>_. []) (\<lambda>_. 5) (\<lambda>_ _. Inl []) collect_batch
       (new_server (Some (new_dispatcher (Some ()) new_router (Some dw) True None False False)) 0) (demo_req 0) []
       = Some (Done (sv', bs, Streaming c ch))
     \<and> sub_drain wire collect_batch 256 (the (sv_wal sv')) c [] = Some (Done (bs2, Inr c2))
     \<and> run_batches (apply_entry counter_env) (demo_follower 0) (bs @ bs2) None = Done (fl', None)
     \<and> node_store (fc_applier fl') = 2 \<and> wm_applied (fc_watermark fl') = 2"
proof -
  obtain d w where w: "wal_log wire (d, w) [demo_logged]" "unat (wl_next w) = Suc (length [demo_logged])"
    using demo_append [of 1] by (auto simp: next_seq_def)
  let ?dp = "new_dispatcher (Some ()) new_router (Some (d, w)) True None False False :: (unit, unit) dispatcher"
  let ?c = "[[''SET'', ''k'', ''v''], [''PEXPIREAT'', ''k'', format_int 1005]]"
  have sh: "list_all2 (shard_reads (ev_do demo_snap_env) (\<lambda>_. 5)) [()] [[(''k'', ?c)]]"
    using demo_shard_reads by (simp add: demo_snap_env_def)
  have mb: "sv_max_batch (new_server (Some ?dp) 0) = 256" by (simp add: new_server_def default_max_batch_def)
  obtain sv' bs c ch bs2 c2 fl' where
    "subscribe demo_snap_env (\<lambda>_. []) (\<lambda>_. 5) (\<lambda>_ _. Inl []) collect_batch (new_server (Some ?dp) 0) (demo_req 0) [] = Some (Done (sv', bs, Streaming c ch))"
    "sub_drain wire collect_batch (sv_max_batch (new_server (Some ?dp) 0)) (the (sv_wal sv')) c [] = Some (Done (bs2, Inr c2))"
    "run_batches (apply_entry counter_env) (demo_follower 0) (bs @ bs2) None = Done (fl', None)"
    "node_store (fc_applier fl') = 2" "wm_applied (fc_watermark fl') = 2"
    using full_sync_outcome [where sv = "new_server (Some ?dp) 0" and dp = ?dp and d = d and w = w and b = "()" and req = "demo_req 0"
        and ev = demo_snap_env and clk = "\<lambda>_. 5" and sh = "\<lambda>_. []" and kcss = "[[(''k'', ?c)]]" and cmds = ?c and cd = wire
        and es = "[demo_logged]" and k = 256 and fl = "demo_follower 0" and fev = counter_env and up = "\<lambda>_ _. Inl []"] sh w wire_ok
    by (auto simp: new_server_def new_dispatcher_def plain_node_def node_store_def default_max_batch_def demo_req_def)
  with w(1) show ?thesis unfolding mb by (intro exI conjI)
qed

end
