(* ===== verification/Server.thy ===== *)
theory Server
  imports Dispatch
begin

text \<open>
  The RESP front-end, \<open>internal/server/server.go\<close>: the loop that serves one client
  connection. The connection is the bytes it delivers and how it ends, and how many bytes of
  replies it accepts (see \<open>Resp\<close>); \<open>clock i\<close> is the time at which the \<open>i\<close>-th command is
  dispatched. \<open>Frontend\<close> has the accept loop and many connections.
\<close>

section \<open>Definitions\<close>

text \<open>How the handling of a connection ends, and whether a warning is logged then.\<close>

datatype conn_end = ReadEnd read_error | ClientQuit | DispatchEnd dispatch_error | FlushEnd string

text \<open>The error of a connection closed on this side, \<open>net.ErrClosed\<close>, by its text.\<close>

definition is_closed_conn :: "string \<Rightarrow> bool" where
  "is_closed_conn e \<longleftrightarrow> e = ''use of closed network connection''"

definition warns :: "conn_end \<Rightarrow> bool" where
  "warns r =
     (case r of
        ReadEnd EEof \<Rightarrow> False
      | ReadEnd (ENet e) \<Rightarrow> \<not> is_closed_conn e
      | ReadEnd _ \<Rightarrow> True
      | DispatchEnd (ErrWrite e) \<Rightarrow> \<not> is_closed_conn e
      | DispatchEnd ErrClientQuit \<Rightarrow> False
      | ClientQuit \<Rightarrow> False
      | FlushEnd _ \<Rightarrow> False)"

text \<open>One command: the reply is flushed, or the loop is left.\<close>

definition serve_command :: "('b, 'f, 'u) env \<Rightarrow> int \<Rightarrow> command \<Rightarrow> ('b, 'f, 'u) node \<Rightarrow>
    (('b, 'f, 'u) node \<times> conn_end option) outcome" where
  "serve_command ev now c n =
     bind_outcome (dispatch ev now c n) (\<lambda>(n1, err).
       let n2 = n1\<lparr>nd_writer := resp_flush (nd_writer n1)\<rparr> in
       case err of
         Some ErrClientQuit \<Rightarrow> Done (n2, Some ClientQuit)
       | Some e \<Rightarrow> Done (n1, Some (DispatchEnd e))
       | None \<Rightarrow> Done (n2, map_option FlushEnd (wr_err (nd_writer n2))))"

function serve_loop :: "('b, 'f, 'u) env \<Rightarrow> (nat \<Rightarrow> int) \<Rightarrow> nat \<Rightarrow> input \<Rightarrow> ('b, 'f, 'u) node \<Rightarrow>
    (('b, 'f, 'u) node \<times> conn_end) outcome" where
  "serve_loop ev clock i inp n =
     (case read_command inp of
        Panic m \<Rightarrow> Panic m
      | Done (Inl e, _) \<Rightarrow> Done (n, ReadEnd e)
      | Done (Inr c, inp') \<Rightarrow>
          if cmd_args c = [] then serve_loop ev clock i inp' n
          else bind_outcome (serve_command ev (clock i) c n) (\<lambda>(n', r).
            case r of
              Some x \<Rightarrow> Done (n', x)
            | None \<Rightarrow> serve_loop ev clock (Suc i) inp' n'))"
  by pat_completeness auto
termination
  by (relation "measure (\<lambda>(ev, clock, i, inp, n). length (in_bytes inp))") (auto dest: read_command_shorter)

declare serve_loop.simps [simp del]

text \<open>
  \<open>handle\<close> on a connection that delivers the bytes \<open>b\<close> and ends as \<open>fin\<close> says, and accepts
  \<open>left\<close> bytes (\<open>None\<close>: all) of replies.
\<close>

definition handle_conn :: "('b, 'f, 'u) env \<Rightarrow> (nat \<Rightarrow> int) \<Rightarrow> ('b, 'f) dispatcher \<Rightarrow> 'u \<Rightarrow> bytes \<Rightarrow> string option \<Rightarrow> nat option \<Rightarrow>
    (('b, 'f, 'u) node \<times> conn_end) outcome" where
  "handle_conn ev clock d u b fin left =
     serve_loop ev clock 0 (new_resp_reader b fin) \<lparr>nd_disp = d, nd_up = u, nd_writer = new_writer left, nd_sess = new_session\<rparr>"

section \<open>A connection is a sequence of commands\<close>

fun serve_commands :: "('b, 'f, 'u) env \<Rightarrow> (nat \<Rightarrow> int) \<Rightarrow> nat \<Rightarrow> command list \<Rightarrow> conn_end \<Rightarrow> ('b, 'f, 'u) node \<Rightarrow>
    (('b, 'f, 'u) node \<times> conn_end) outcome" where
  "serve_commands ev clock i [] fin n = Done (n, fin)"
| "serve_commands ev clock i (c # cs) fin n =
     bind_outcome (serve_command ev (clock i) c n) (\<lambda>(n', r).
       case r of
         Some x \<Rightarrow> Done (n', x)
       | None \<Rightarrow> serve_commands ev clock (Suc i) cs fin n')"

lemma serve_loop_encode:
  assumes "list_all args_ok cmds"
  shows "serve_loop ev clock i \<lparr>in_bytes = concat (map encode_command cmds), in_fin = fin\<rparr> n =
    serve_commands ev clock i (map (\<lambda>as. \<lparr>cmd_args = as\<rparr>) cmds) (ReadEnd (case fin of None \<Rightarrow> EEof | Some e \<Rightarrow> ENet e)) n"
  using assms
proof (induction cmds arbitrary: i n)
  case Nil
  have "read_command \<lparr>in_bytes = [], in_fin = fin\<rparr> = Done (Inl (case fin of None \<Rightarrow> EEof | Some e \<Rightarrow> ENet e), \<lparr>in_bytes = [], in_fin = fin\<rparr>)"
    by (simp add: read_command_def read_line_def read_bytes_nl_def end_error_def)
  then show ?case by (simp add: serve_loop.simps)
next
  case (Cons as cmds)
  have ok: "args_ok as" "as \<noteq> []" using Cons.prems by (auto simp: args_ok_def)
  have "read_command \<lparr>in_bytes = encode_command as @ concat (map encode_command cmds), in_fin = fin\<rparr> =
      Done (Inr \<lparr>cmd_args = as\<rparr>, \<lparr>in_bytes = concat (map encode_command cmds), in_fin = fin\<rparr>)"
    using read_command_encode [OF ok(1)] by simp
  moreover have "(\<lambda>(n', r). case r of Some x \<Rightarrow> Done (n', x)
        | None \<Rightarrow> serve_loop ev clock (Suc i) \<lparr>in_bytes = concat (map encode_command cmds), in_fin = fin\<rparr> n') =
      (\<lambda>(n', r). case r of Some x \<Rightarrow> Done (n', x)
        | None \<Rightarrow> serve_commands ev clock (Suc i) (map (\<lambda>as. \<lparr>cmd_args = as\<rparr>) cmds) (ReadEnd (case fin of None \<Rightarrow> EEof | Some e \<Rightarrow> ENet e)) n')"
    using Cons.IH Cons.prems by (intro ext) (auto split: option.splits)
  ultimately show ?case using ok(2) by (subst serve_loop.simps) simp
qed

text \<open>What every command keeps, a whole connection keeps, whatever bytes it carries.\<close>

lemma serve_command_dispatch:
  "serve_command ev now c n = Done (n', r) \<Longrightarrow>
     \<exists>n1 e. dispatch ev now c n = Done (n1, e) \<and> (n' = n1 \<or> n' = n1\<lparr>nd_writer := resp_flush (nd_writer n1)\<rparr>)"
  by (auto simp: serve_command_def Let_def elim!: bind_outcome_DoneE split: option.splits dispatch_error.splits)

lemma serve_loop_invariant:
  assumes "\<And>now c n n' e. I n \<Longrightarrow> dispatch ev now c n = Done (n', e) \<Longrightarrow> I n'" and "\<And>n w. I n \<Longrightarrow> I (n\<lparr>nd_writer := w\<rparr>)"
    and "I n" and "serve_loop ev clock i inp n = Done (n', r)"
  shows "I n'"
  using assms
proof (induction ev clock i inp n rule: serve_loop.induct)
  case (1 ev clock i inp n)
  note loop = "1.prems"(4) [unfolded serve_loop.simps [of ev clock i inp n]]
  consider e inp' where "read_command inp = Done (Inl e, inp')" | c inp' where "read_command inp = Done (Inr c, inp')"
    using loop by (cases "read_command inp") (auto split: sum.splits)
  then show ?case
  proof cases
    case 1
    with loop \<open>I n\<close> show ?thesis by simp
  next
    case (2 c inp')
    show ?thesis
    proof (cases "cmd_args c = []")
      case True
      with 2 loop "1.IH"(1) [OF 2 refl refl True] "1.prems"(1-3) show ?thesis by simp
    next
      case False
      with 2 loop obtain n1 x where n1: "serve_command ev (clock i) c n = Done (n1, x)"
        "(case x of Some y \<Rightarrow> Done (n1, y) | None \<Rightarrow> serve_loop ev clock (Suc i) inp' n1) = Done (n', r)"
        by (auto elim!: bind_outcome_DoneE)
      have "I n1" using serve_command_dispatch [OF n1(1)] "1.prems"(1-3) by blast
      then show ?thesis using n1 "1.IH"(2) [OF 2 refl refl False] "1.prems"(1,2) by (cases x) auto
    qed
  qed
qed

lemma dispatch_follower_wal:
  "\<not> dp_primary (nd_disp n) \<Longrightarrow> dispatch ev now c n = Done (n', e) \<Longrightarrow> dp_wal (nd_disp n') = dp_wal (nd_disp n)"
  by (auto simp: dispatch_def dispatch_routed_def handled_by_def wrote_def Let_def
      split: if_splits prod.splits route.splits dest!: do_local_keeps)

section \<open>Properties\<close>


text \<open>A demonstration node after some output, and two commands on it.\<close>

definition demo_after :: "bytes \<Rightarrow> (bytes list list, unit, command list) node" where
  "demo_after b = \<lparr>nd_disp = nd_disp (demo_node False None), nd_up = [],
     nd_writer = \<lparr>wr_sent = b, wr_buf = [], wr_left = None, wr_err = None\<rparr>, nd_sess = new_session\<rparr>"

lemma demo_flush:
  assumes "length b \<le> buf_size"
  shows "resp_flush (bw_write b (nd_writer (demo_after s))) = nd_writer (demo_after (s @ b))"
  using assms by (simp add: demo_after_def resp_flush_def bw_write_def bw_put_def bw_flush_def conn_write_def)

lemma demo_ping: "serve_command demo_env 7 \<lparr>cmd_args = [''PING'']\<rparr> (demo_after s) = Done (demo_after (s @ ''+PONG'' @ crlf), None)"
  using demo_flush [of "''+PONG'' @ crlf" s]
  by (simp add: serve_command_def dispatch_def cmd_name_def to_upper_def is_ascii_def upper_char_def byte_val_def handled_by_def
      handle_ping_def replied_def write_simple_string_def auth_required_def buf_size_def crlf_def bw_write_def bw_put_def demo_after_def)

lemma demo_quit: "serve_command demo_env 7 \<lparr>cmd_args = [''QUIT'']\<rparr> (demo_after s) = Done (demo_after (s @ ''+OK'' @ crlf), Some ClientQuit)"
  using demo_flush [of "''+OK'' @ crlf" s]
  by (simp add: serve_command_def dispatch_def cmd_name_def to_upper_def is_ascii_def upper_char_def byte_val_def handled_by_def
      handle_quit_def write_simple_string_def buf_size_def crlf_def bw_write_def bw_put_def demo_after_def)

lemma demo_start: "\<lparr>nd_disp = nd_disp (demo_node False None), nd_up = [], nd_writer = new_writer None, nd_sess = new_session\<rparr> = demo_after []"
  by (simp add: demo_after_def new_writer_def)


text \<open>Whatever bytes a client sends: a node that is not the primary
  has the same log afterwards, and with a passwd file a session that ends authenticated
  belongs to a user of that file.\<close>

theorem connection_respects_roles:
  assumes "handle_conn ev clock d u b fin left = Done (n', r)"
  shows "(\<not> dp_primary d \<longrightarrow> dp_wal (nd_disp n') = dp_wal d)
    \<and> (dp_auth d = Some (static_authenticator bc s) \<and> authed (nd_sess n') \<longrightarrow>
       map_of (st_users s) (if user (nd_sess n') = [] then ''default'' else user (nd_sess n')) \<noteq> None)"
proof -
  let ?n = "\<lparr>nd_disp = d, nd_up = u, nd_writer = new_writer left, nd_sess = new_session\<rparr>"
  note loop = assms [unfolded handle_conn_def]
  have "dp_wal (nd_disp n') = dp_wal d" if "\<not> dp_primary d"
  proof -
    let ?I = "\<lambda>n. \<not> dp_primary (nd_disp n) \<and> dp_wal (nd_disp n) = dp_wal d"
    have "?I n'"
    proof (rule serve_loop_invariant [where I = ?I, OF _ _ _ loop])
      fix now c n n1 e
      assume "?I n" and "dispatch ev now c n = Done (n1, e)"
      then show "?I n1" using dispatch_follower_wal [of n ev now c n1 e] dispatch_keeps [of ev now c n n1 e] by simp
    qed (use that in simp_all)
    then show ?thesis by simp
  qed
  moreover have "static.session_ok s (nd_sess n')" if "dp_auth d = Some (static_authenticator bc s)"
  proof -
    let ?I = "\<lambda>n. static.session_ok s (nd_sess n) \<and> dp_auth (nd_disp n) = Some (static_authenticator bc s)"
    have "?I n'"
    proof (rule serve_loop_invariant [where I = ?I, OF _ _ _ loop])
      fix now c n n1 e
      assume "?I n" and d: "dispatch ev now c n = Done (n1, e)"
      then show "?I n1" using static.dispatch_session_ok [OF _ _ d] dispatch_keeps [OF d] by simp
    qed (use that static.session_ok_new in simp_all)
    then show ?thesis by simp
  qed
  ultimately show ?thesis unfolding static.session_ok_def canon_user_def default_user_def by blast
qed


theorem connection_respects_roles_witness:
  "\<exists>n' r. handle_conn demo_env (\<lambda>_. 7) (nd_disp (demo_node False None)) [] (encode_command [''PING'']) None None = Done (n', r)
     \<and> dp_wal (nd_disp n') = Some (demo_disk, demo_wal 1)"
proof -
  have ok: "list_all args_ok [[''PING'']]" by (simp add: args_ok_def arg_ok_def max_alloc_def)
  have h: "handle_conn demo_env (\<lambda>_. 7) (nd_disp (demo_node False None)) [] (encode_command [''PING'']) None None =
      Done (demo_after (''+PONG'' @ crlf), ReadEnd EEof)"
    using serve_loop_encode [OF ok, of demo_env "\<lambda>_. 7" 0 None "demo_after []"]
    by (simp add: handle_conn_def new_resp_reader_def demo_start demo_ping)
  from connection_respects_roles [OF h] h show ?thesis by simp
qed

end
