(* ===== verification/Node.thy ===== *)
theory Node
  imports Full_Sync Server
begin

text \<open>
  The configuration of a node, \<open>internal/config/config.go\<close>, and how \<open>run\<close> of
  \<open>cmd/meridian/main.go\<close> builds a node from it: a load balancer, or a node with a dispatcher, a
  replication server and, below another node, a follower. \<open>start_node\<close> is what \<open>run\<close> does once the
  metrics are registered (see \<open>Cli\<close>). The JSON decoder, the network
  listeners and the Redis client are arguments; \<open>os.Expand\<close> is modelled as the standard library has
  it.
\<close>

section \<open>Configuration\<close>

record route_rule =
  rr_prefix :: string
  rr_target :: string

record backend_config =
  bk_addr :: string
  bk_addrs :: "string list"
  bk_username :: string
  bk_password :: string
  bk_db :: int
  bk_pool_size :: int

record auth_config =
  ac_passwd_file :: string

record config =
  cf_cluster :: string
  cf_name :: string
  cf_upstream :: "string list"
  cf_relay :: bool
  cf_routes :: "route_rule list"
  cf_primaries :: "string \<rightharpoonup> string list"
  cf_listen :: string
  cf_grpc_listen :: string
  cf_metrics_listen :: string
  cf_forward_writes :: "bool option"
  cf_wal_flush :: string
  cf_wal_flush_interval :: int
  cf_auth :: auth_config
  cf_backend :: backend_config
  cf_data_dir :: string

definition wal_dir :: "config \<Rightarrow> string" where
  "wal_dir c = cf_data_dir c @ ''/wal''"

definition state_dir :: "config \<Rightarrow> string" where
  "state_dir c = cf_data_dir c @ ''/state''"

definition has_backend :: "config \<Rightarrow> bool" where
  "has_backend c \<longleftrightarrow> bk_addr (cf_backend c) \<noteq> [] \<or> bk_addrs (cf_backend c) \<noteq> []"

definition is_primary :: "config \<Rightarrow> bool" where
  "is_primary c \<longleftrightarrow> cf_upstream c = []"

definition upstream_addrs :: "config \<Rightarrow> string list" where
  "upstream_addrs c = cf_upstream c"

definition is_lb :: "config \<Rightarrow> bool" where
  "is_lb c \<longleftrightarrow> \<not> is_primary c \<and> \<not> cf_relay c \<and> \<not> has_backend c"

definition auth_enabled :: "config \<Rightarrow> bool" where
  "auth_enabled c \<longleftrightarrow> ac_passwd_file (cf_auth c) \<noteq> []"

definition forward_writes_enabled :: "config \<Rightarrow> bool" where
  "forward_writes_enabled c \<longleftrightarrow> cf_forward_writes c = None \<or> cf_forward_writes c = Some True"

definition validate :: "config \<Rightarrow> string option" where
  "validate c =
     (if list_ex (\<lambda>a. a = []) (cf_upstream c) then Some ''upstream contains empty address''
      else if cf_grpc_listen c = [] then Some ''grpc_listen is required''
      else if is_lb c then
        (if cf_upstream c = [] then Some ''lb mode requires upstream addresses'' else None)
      else if cf_listen c = [] then Some ''listen is required''
      else if cf_data_dir c = [] then Some ''data_dir is required''
      else if is_primary c \<and> \<not> has_backend c then Some ''primary node must have a backend configured''
      else None)"

text \<open>\<open>os.Expand\<close>: the name after a dollar sign and how many bytes it takes.\<close>

definition shell_special :: "char \<Rightarrow> bool" where
  "shell_special c \<longleftrightarrow> c \<in> set ''*#$@!?-'' \<or> is_digit c"

definition shell_alnum :: "char \<Rightarrow> bool" where
  "shell_alnum c \<longleftrightarrow> c = CHR ''_'' \<or> is_digit c \<or> 97 \<le> byte_val c \<and> byte_val c \<le> 122 \<or> 65 \<le> byte_val c \<and> byte_val c \<le> 90"

definition shell_name :: "string \<Rightarrow> string \<times> nat" where
  "shell_name s =
     (if hd s = CHR ''{'' then
        (if 2 < length s \<and> shell_special (s ! 1) \<and> s ! 2 = CHR ''}'' then ([s ! 1], 3)
         else let body = takeWhile (\<lambda>c. c \<noteq> CHR ''}'') (tl s) in
           if CHR ''}'' \<notin> set (tl s) then ([], 1)
           else if body = [] then ([], 2)
           else (body, length body + 2))
      else if shell_special (hd s) then ([hd s], 1)
      else (takeWhile shell_alnum s, length (takeWhile shell_alnum s)))"

function expand :: "(string \<Rightarrow> string) \<Rightarrow> string \<Rightarrow> string" where
  "expand g [] = []"
| "expand g (c # s) =
     (if c \<noteq> CHR ''$'' \<or> s = [] then c # expand g s
      else case shell_name s of
        (name, k) \<Rightarrow> (if name = [] then (if 0 < k then [] else [c]) else g name) @ expand g (drop k s))"
  by pat_completeness auto
termination by (relation "measure (\<lambda>(g, s). length s)") auto

datatype load_error = LdRead string | LdDecode string | LdInvalid string

definition load :: "(string \<Rightarrow> string + string) \<Rightarrow> (string \<Rightarrow> string) \<Rightarrow> (string \<Rightarrow> string + config) \<Rightarrow> string \<Rightarrow> load_error + config" where
  "load rf getenv decode path =
     (case rf path of
        Inl e \<Rightarrow> Inl (LdRead e)
      | Inr data \<Rightarrow>
          (case decode (expand getenv data) of
             Inl e \<Rightarrow> Inl (LdDecode e)
           | Inr c \<Rightarrow> (case validate c of Some m \<Rightarrow> Inl (LdInvalid m) | None \<Rightarrow> Inr c)))"

section \<open>Starting a node\<close>

definition wal_flush_mode :: "string \<Rightarrow> flush_mode" where
  "wal_flush_mode s = (if s = ''sync'' then FlushSync else if s = ''periodic'' then FlushPeriodic else FlushNone)"

text \<open>\<open>BackendConfig\<close> of \<open>internal/proxy\<close>, and \<open>NewBackend\<close>: the options for the client library.\<close>

record backend_options =
  bo_addr :: string
  bo_addrs :: "string list"
  bo_master_name :: string
  bo_username :: string
  bo_password :: string
  bo_db :: int
  bo_pool_size :: int

record client_options =
  uo_addrs :: "string list"
  uo_master_name :: string
  uo_username :: string
  uo_password :: string
  uo_db :: int
  uo_pool_size :: int

definition new_backend :: "(client_options \<Rightarrow> 'b) \<Rightarrow> backend_options \<Rightarrow> 'b" where
  "new_backend client c =
     client \<lparr>uo_addrs = (if bo_addrs c = [] \<and> bo_addr c \<noteq> [] then [bo_addr c] else bo_addrs c), uo_master_name = bo_master_name c,
       uo_username = bo_username c, uo_password = bo_password c, uo_db = bo_db c,
       uo_pool_size = (if bo_pool_size c = 0 then 32 else bo_pool_size c)\<rparr>"

text \<open>What \<open>run\<close> makes of the configuration; it never names a sentinel master.\<close>

definition backend_options_of :: "backend_config \<Rightarrow> backend_options" where
  "backend_options_of b = \<lparr>bo_addr = bk_addr b, bo_addrs = bk_addrs b, bo_master_name = [], bo_username = bk_username b,
     bo_password = bk_password b, bo_db = bk_db b, bo_pool_size = bk_pool_size b\<rparr>"

datatype start_error =
    StNoUpstream
  | StListen string
  | StPing string
  | StWal wal_error
  | StRoute string string
  | StAuth string
  | StWatermark wm_error

text \<open>What the process finds: disks, files, the network, the client library.\<close>

record 'b world =
  wd_disk :: disk
  wd_state :: disk
  wd_read :: "string \<Rightarrow> string + string"
  wd_listen :: "string \<Rightarrow> string option"
  wd_client :: "client_options \<Rightarrow> 'b"
  wd_ping :: "'b \<Rightarrow> string option"
  wd_bcrypt :: "string \<Rightarrow> string \<Rightarrow> bool"
  wd_codec :: codec

datatype 'b started =
    LoadBalancer "('b, grpc_forwarder) sync_server"
  | Running "('b, grpc_forwarder) sync_server" "('b, grpc_forwarder) dispatcher follower option"

fun resolve_routes :: "(string \<rightharpoonup> string list) \<Rightarrow> route_rule list \<Rightarrow> start_error + grpc_forwarder route_entry list" where
  "resolve_routes primaries [] = Inr []"
| "resolve_routes primaries (r # rs) =
     (case primaries (rr_target r) of
        Some (a # _) \<Rightarrow>
          (case resolve_routes primaries rs of
             Inl e \<Rightarrow> Inl e
           | Inr es \<Rightarrow> Inr (\<lparr>re_prefix = rr_prefix r, re_fwd = new_grpc_forwarder a\<rparr> # es))
      | _ \<Rightarrow> Inl (StRoute (rr_prefix r) (rr_target r)))"

definition start_lb :: "'b world \<Rightarrow> config \<Rightarrow> start_error + 'b started" where
  "start_lb wd c =
     (if upstream_addrs c = [] then Inl StNoUpstream
      else case wd_listen wd (cf_grpc_listen c) of
        Some e \<Rightarrow> Inl (StListen e)
      | None \<Rightarrow> Inr (LoadBalancer (set_upstream (upstream_addrs c) (new_server None 0))))"

definition start_backend :: "'b world \<Rightarrow> config \<Rightarrow> start_error + 'b option" where
  "start_backend wd c =
     (if has_backend c then
        (let b = new_backend (wd_client wd) (backend_options_of (cf_backend c)) in
         case wd_ping wd b of Some e \<Rightarrow> Inl (StPing e) | None \<Rightarrow> Inr (Some b))
      else Inr None)"

definition start_auth :: "'b world \<Rightarrow> config \<Rightarrow> start_error + authenticator option" where
  "start_auth wd c =
     (if auth_enabled c then
        (case new_from_file (wd_read wd) (ac_passwd_file (cf_auth c)) of
           Inl e \<Rightarrow> Inl (StAuth e)
         | Inr s \<Rightarrow> Inr (Some (static_authenticator (wd_bcrypt wd) s)))
      else Inr None)"

definition start_follower :: "'b world \<Rightarrow> config \<Rightarrow> ('b, grpc_forwarder) dispatcher \<Rightarrow>
    start_error + ('b, grpc_forwarder) dispatcher follower option" where
  "start_follower wd c d =
     (if \<not> is_primary c \<and> upstream_addrs c \<noteq> [] then
        (case open_watermark (wd_state wd) (state_dir c, ''watermark'') of
           Inl e \<Rightarrow> Inl (StWatermark e)
         | Inr wm \<Rightarrow>
             Inr (Some (new_follower \<lparr>fc_owner_addrs = upstream_addrs c, fc_region = cf_grpc_listen c, fc_id = cf_grpc_listen c,
               fc_applier = d, fc_disk = wd_state wd, fc_watermark = wm, fc_ack_interval = 0\<rparr>)))
      else Inr None)"

definition start_servers :: "'b world \<Rightarrow> config \<Rightarrow> ('b, grpc_forwarder) dispatcher \<Rightarrow> start_error + 'b started" where
  "start_servers wd c d =
     (case wd_listen wd (cf_grpc_listen c) of
        Some e \<Rightarrow> Inl (StListen e)
      | None \<Rightarrow>
          (case wd_listen wd (cf_listen c) of
             Some e \<Rightarrow> Inl (StListen e)
           | None \<Rightarrow>
               (case start_follower wd c d of
                  Inl e \<Rightarrow> Inl e
                | Inr fo \<Rightarrow> Inr (Running (set_upstream (upstream_addrs c) (new_server (Some d) 0)) fo))))"

definition start_node :: "'b world \<Rightarrow> config \<Rightarrow> (start_error + 'b started) outcome" where
  "start_node wd c =
     (if is_lb c then Done (start_lb wd c)
      else case start_backend wd c of
        Inl e \<Rightarrow> Done (Inl e)
      | Inr be \<Rightarrow>
          bind_outcome (wal_open (wd_codec wd) (wd_disk wd) \<lparr>op_dir = wal_dir c, op_segment_max = 0,
              op_flush = wal_flush_mode (cf_wal_flush c), op_flush_interval = cf_wal_flush_interval c\<rparr>) (\<lambda>r.
            case r of
              Inl e \<Rightarrow> Done (Inl (StWal e))
            | Inr w \<Rightarrow>
                let fwd = (if \<not> is_primary c \<and> upstream_addrs c \<noteq> [] then Some (new_grpc_forwarder (hd (upstream_addrs c))) else None) in
                (case resolve_routes (cf_primaries c) (cf_routes c) of
                   Inl e \<Rightarrow> Done (Inl e)
                 | Inr routes \<Rightarrow>
                     let d = (new_dispatcher be new_router (Some (wd_disk wd, w)) (is_primary c) fwd
                                (forward_writes_enabled c) (cf_relay c))\<lparr>dp_routes := routes\<rparr> in
                     (case start_auth wd c of
                        Inl e \<Rightarrow> Done (Inl e)
                      | Inr au \<Rightarrow> Done (start_servers wd c (d\<lparr>dp_auth := au\<rparr>))))))"

section \<open>Well-formed nodes\<close>

definition well_formed :: "config \<Rightarrow> 'b started \<Rightarrow> bool" where
  "well_formed c st =
     (case st of
        LoadBalancer sv \<Rightarrow> sv_writer sv = None \<and> sv_upstream sv \<noteq> [] \<and> [] \<notin> set (sv_upstream sv)
      | Running sv fo \<Rightarrow>
          (case sv_writer sv of
             None \<Rightarrow> False
           | Some d \<Rightarrow>
               dp_wal d \<noteq> None \<and> dp_router d = new_router \<and> sv_max_batch sv = 256
               \<and> (dp_primary d \<longleftrightarrow> cf_upstream c = []) \<and> (dp_backend d = None \<longrightarrow> dp_relay d \<and> \<not> dp_primary d)
               \<and> (if dp_primary d then dp_forward d = None \<and> fo = None
                  else dp_forward d = Some (new_grpc_forwarder (hd (cf_upstream c)))
                    \<and> (case fo of None \<Rightarrow> False
                       | Some fl \<Rightarrow> fc_owner_addrs fl = cf_upstream c \<and> fc_applier fl = d \<and> 0 < fc_ack_interval fl
                           \<and> wm_path (fc_watermark fl) \<noteq> ([], [])))))"

lemma start_follower_ok:
  assumes "start_follower wd c d = Inr fo"
  shows "if is_primary c then fo = None
    else case fo of None \<Rightarrow> False | Some fl \<Rightarrow> fc_owner_addrs fl = cf_upstream c \<and> fc_applier fl = d \<and> 0 < fc_ack_interval fl
      \<and> wm_path (fc_watermark fl) \<noteq> ([], [])"
  using assms
  by (auto simp: start_follower_def is_primary_def upstream_addrs_def new_follower_def dest!: open_watermark_rep
      split: if_splits sum.splits)

lemma start_servers_ok:
  assumes "start_servers wd c d = Inr st" and "dp_wal d \<noteq> None" and "dp_router d = new_router" and "dp_primary d \<longleftrightarrow> is_primary c"
    and "dp_backend d = None \<longrightarrow> dp_relay d \<and> \<not> dp_primary d"
    and "dp_forward d = (if is_primary c then None else Some (new_grpc_forwarder (hd (cf_upstream c))))"
  shows "well_formed c st"
  using assms
  by (auto simp: start_servers_def well_formed_def set_upstream_def new_server_def default_max_batch_def is_primary_def
      split: option.splits sum.splits dest!: start_follower_ok)

section \<open>Properties\<close>

text \<open>A world in which nothing fails and the node has never run.\<close>

definition fresh_world :: "'b world \<Rightarrow> config \<Rightarrow> bool" where
  "fresh_world wd c \<longleftrightarrow>
     disk_fine (wd_disk wd) \<and> dir_ok (disk_bytes (wd_disk wd)) (wal_dir c) []
     \<and> disk_fine (wd_state wd) \<and> disk_file (wd_state wd) (state_dir c, ''watermark'') = None
     \<and> (\<forall>a. wd_listen wd a = None) \<and> (\<forall>b. wd_ping wd b = None)
     \<and> (auth_enabled c \<longrightarrow> \<not> isl (wd_read wd (ac_passwd_file (cf_auth c))))
     \<and> list_all (\<lambda>r. cf_primaries c (rr_target r) \<noteq> None \<and> cf_primaries c (rr_target r) \<noteq> Some []) (cf_routes c)"

lemma resolve_routes_ok:
  "list_all (\<lambda>r. pr (rr_target r) \<noteq> None \<and> pr (rr_target r) \<noteq> Some []) rs \<Longrightarrow>
     \<exists>es. resolve_routes pr rs = Inr es \<and> map re_prefix es = map rr_prefix rs"
  by (induction rs) (auto simp: neq_Nil_conv)

lemma start_auth_fresh:
  assumes "fresh_world wd c"
  shows "\<exists>au. start_auth wd c = Inr au \<and> (auth_enabled c \<longrightarrow> au \<noteq> None)"
proof (cases "auth_enabled c")
  case True
  then obtain b where "wd_read wd (ac_passwd_file (cf_auth c)) = Inr b"
    using assms by (cases "wd_read wd (ac_passwd_file (cf_auth c))") (auto simp: fresh_world_def)
  with True show ?thesis by (simp add: start_auth_def new_from_file_def auth_enabled_def)
qed (simp add: start_auth_def)

lemma start_servers_fresh:
  assumes "fresh_world wd c"
  shows "\<exists>fo. start_servers wd c d = Inr (Running (set_upstream (upstream_addrs c) (new_server (Some d) 0)) fo)
    \<and> (\<forall>fl. fo = Some fl \<longrightarrow> wm_applied (fc_watermark fl) = 0)"
proof -
  have "open_watermark (wd_state wd) (state_dir c, ''watermark'') = Inr \<lparr>wm_path = (state_dir c, ''watermark''), wm_applied = 0\<rparr>"
    using assms by (simp add: fresh_world_def open_watermark_def file_open_def)
  then show ?thesis using assms
    by (auto simp: start_servers_def fresh_world_def start_follower_def new_follower_def)
qed



definition demo_config :: "string list \<Rightarrow> config" where
  "demo_config up = \<lparr>cf_cluster = [], cf_name = [], cf_upstream = up, cf_relay = False, cf_routes = [], cf_primaries = (\<lambda>_. None),
     cf_listen = '':6379'', cf_grpc_listen = '':7000'', cf_metrics_listen = [], cf_forward_writes = None, cf_wal_flush = ''sync'',
     cf_wal_flush_interval = 0, cf_auth = \<lparr>ac_passwd_file = []\<rparr>,
     cf_backend = \<lparr>bk_addr = ''redis:6379'', bk_addrs = [], bk_username = [], bk_password = [], bk_db = 0, bk_pool_size = 0\<rparr>,
     cf_data_dir = ''d''\<rparr>"

definition demo_world :: "unit world" where
  "demo_world = \<lparr>wd_disk = demo_disk, wd_state = demo_disk, wd_read = (\<lambda>_. Inl []), wd_listen = (\<lambda>_. None), wd_client = (\<lambda>_. ()),
     wd_ping = (\<lambda>_. None), wd_bcrypt = (\<lambda>_ _. False), wd_codec = wire\<rparr>"

lemma demo_valid: "validate (demo_config []) = None" "validate (demo_config [''p:7000'']) = None"
  by (simp_all add: validate_def demo_config_def is_lb_def is_primary_def has_backend_def)

lemma demo_fresh: "fresh_world demo_world (demo_config up)"
proof -
  have "disk_file demo_disk p = None" for p by (simp add: disk_file_def demo_disk_def)
  then show ?thesis by (simp add: fresh_world_def demo_world_def demo_config_def auth_enabled_def)
qed

lemma start_node_fresh:
  assumes "\<not> is_lb c" and "fresh_world wd c"
  shows "\<exists>w sv fo d. start_node wd c = Done (Inr (Running sv fo)) \<and> sv_writer sv = Some d \<and> sv_wal sv = Some (wd_disk wd, w)
    \<and> wal_log (wd_codec wd) (wd_disk wd, w) [] \<and> next_seq (wd_disk wd, w) = 1 \<and> wl_mode w = wal_flush_mode (cf_wal_flush c)
    \<and> map re_prefix (dp_routes d) = map rr_prefix (cf_routes c)
    \<and> (auth_enabled c \<longrightarrow> dp_auth d \<noteq> None) \<and> (\<forall>fl. fo = Some fl \<longrightarrow> wm_applied (fc_watermark fl) = 0)"
proof -
  let ?o = "\<lparr>op_dir = wal_dir c, op_segment_max = 0, op_flush = wal_flush_mode (cf_wal_flush c), op_flush_interval = cf_wal_flush_interval c\<rparr>"
  have wd: "disk_fine (wd_disk wd)" "dir_ok (disk_bytes (wd_disk wd)) (wal_dir c) []" using assms(2) by (auto simp: fresh_world_def)
  then obtain w where w: "wal_open (wd_codec wd) (wd_disk wd) ?o = Done (Inr w)" "wl_next w = 1" "wal_rep (wd_codec wd) (wd_disk wd, w) [] []"
    "wl_mode w = wal_flush_mode (cf_wal_flush c)"
    using wal_open_fresh [of "wd_disk wd" ?o "wd_codec wd"] by (auto simp: disk_fine_def wal_dir_def)
  have "start_backend wd c = Inr (if has_backend c then Some (new_backend (wd_client wd) (backend_options_of (cf_backend c))) else None)"
    using assms(2) by (simp add: start_backend_def fresh_world_def Let_def)
  then obtain be where be: "start_backend wd c = Inr be" by blast
  obtain es where es: "resolve_routes (cf_primaries c) (cf_routes c) = Inr es" "map re_prefix es = map rr_prefix (cf_routes c)"
    using resolve_routes_ok assms(2) unfolding fresh_world_def by blast
  obtain au where au: "start_auth wd c = Inr au" "auth_enabled c \<longrightarrow> au \<noteq> None"
    using start_auth_fresh [OF assms(2)] by blast
  let ?fw = "if \<not> is_primary c \<and> upstream_addrs c \<noteq> [] then Some (new_grpc_forwarder (hd (upstream_addrs c))) else None"
  let ?d = "(new_dispatcher be new_router (Some (wd_disk wd, w)) (is_primary c) ?fw (forward_writes_enabled c) (cf_relay c))
      \<lparr>dp_routes := es, dp_auth := au\<rparr>"
  obtain fo where "start_servers wd c ?d = Inr (Running (set_upstream (upstream_addrs c) (new_server (Some ?d) 0)) fo)"
    "\<forall>fl. fo = Some fl \<longrightarrow> wm_applied (fc_watermark fl) = 0" using start_servers_fresh [OF assms(2), of ?d] by blast
  then show ?thesis using assms(1) be w es au wd(1)
    by (intro exI [of _ w] exI [of _ "set_upstream (upstream_addrs c) (new_server (Some ?d) 0)"] exI [of _ fo] exI [of _ ?d])
      (simp add: start_node_def Let_def set_upstream_def new_server_def sv_wal_def new_dispatcher_def wal_log_def next_seq_def)
qed


text \<open>A configuration that \<open>validate\<close> accepts, whose routes name
  known primaries and whose passwd file can be read, starts in a world in which nothing fails
  and the node has never run: with an empty log numbered from 1 in the configured flush mode,
  the routes of the configuration, credentials checked if a passwd file is configured, and a
  follower at position 0.\<close>

theorem valid_configuration_starts:
  assumes "validate c = None" and "fresh_world wd c"
  shows "\<exists>st. start_node wd c = Done (Inr st) \<and>
    (case st of
       LoadBalancer sv \<Rightarrow> is_lb c \<and> sv_upstream sv = cf_upstream c
     | Running sv fo \<Rightarrow> \<not> is_lb c \<and> (\<exists>dk w d. sv_writer sv = Some d \<and> sv_wal sv = Some (dk, w)
         \<and> wal_log (wd_codec wd) (dk, w) [] \<and> next_seq (dk, w) = 1 \<and> wl_mode w = wal_flush_mode (cf_wal_flush c)
         \<and> map re_prefix (dp_routes d) = map rr_prefix (cf_routes c) \<and> (auth_enabled c \<longrightarrow> dp_auth d \<noteq> None)
         \<and> (\<forall>fl. fo = Some fl \<longrightarrow> wm_applied (fc_watermark fl) = 0)))"
proof (cases "is_lb c")
  case True
  with assms show ?thesis
    by (auto simp: start_node_def start_lb_def fresh_world_def validate_def upstream_addrs_def set_upstream_def new_server_def split: if_splits)
next
  case False
  from start_node_fresh [OF this assms(2)] obtain w sv fo d where
    s: "start_node wd c = Done (Inr (Running sv fo))" "sv_writer sv = Some d" "sv_wal sv = Some (wd_disk wd, w)"
    "wal_log (wd_codec wd) (wd_disk wd, w) []" "next_seq (wd_disk wd, w) = 1" "wl_mode w = wal_flush_mode (cf_wal_flush c)"
    "map re_prefix (dp_routes d) = map rr_prefix (cf_routes c)" "auth_enabled c \<longrightarrow> dp_auth d \<noteq> None"
    "\<forall>fl. fo = Some fl \<longrightarrow> wm_applied (fc_watermark fl) = 0" by blast
  show ?thesis by (rule exI [of _ "Running sv fo"]) (use s False in simp)
qed

theorem valid_configuration_starts_witness:
  "\<exists>st. start_node demo_world (demo_config []) = Done (Inr st) \<and>
     (case st of LoadBalancer _ \<Rightarrow> False
      | Running sv fo \<Rightarrow> \<exists>dk w. sv_wal sv = Some (dk, w) \<and> wal_log wire (dk, w) [] \<and> next_seq (dk, w) = 1 \<and> wl_mode w = FlushSync)"
proof -
  have lb: "\<not> is_lb (demo_config [])" by (simp add: is_lb_def is_primary_def demo_config_def)
  have cd: "wd_codec demo_world = wire" "wal_flush_mode (cf_wal_flush (demo_config [])) = FlushSync"
    by (simp_all add: demo_world_def demo_config_def wal_flush_mode_def)
  from valid_configuration_starts [OF demo_valid(1) demo_fresh, unfolded cd] obtain st where
    st: "start_node demo_world (demo_config []) = Done (Inr st)"
    "case st of LoadBalancer sv \<Rightarrow> is_lb (demo_config [])
      | Running sv fo \<Rightarrow> \<exists>dk w. sv_wal sv = Some (dk, w) \<and> wal_log wire (dk, w) [] \<and> next_seq (dk, w) = 1 \<and> wl_mode w = FlushSync"
    by (elim exE conjE, rename_tac st, case_tac st) (simp, simp, blast)
  with lb show ?thesis by (intro exI [of _ st]) (simp split: started.splits)
qed


section \<open>Loading\<close>

lemma expand_plain: "CHR ''$'' \<notin> set s \<Longrightarrow> expand g s = s"
  by (induction s) auto

text \<open>A loaded configuration is valid, and a file without dollar signs is decoded as it is.\<close>

lemma load_valid:
  assumes "load rf getenv decode path = Inr c"
  shows "validate c = None \<and> (\<exists>data. rf path = Inr data \<and> (CHR ''$'' \<notin> set data \<longrightarrow> decode data = Inr c))"
  using assms by (auto simp: load_def expand_plain split: sum.splits option.splits)

end
