(* ===== verification/Relay.thy ===== *)
theory Relay
  imports Follower
begin

text \<open>
  Relays (\<open>cfg.Relay\<close>): nodes on which \<open>Apply\<close> of \<open>internal/proxy/dispatch.go\<close> also writes each entry to the local log,
  from which the nodes further down the tree are served. The definitions are those of \<open>Dispatch\<close>, \<open>Repl_Server\<close> and
  \<open>Follower\<close>; here they are put together along the chain from the primary over a relay to a follower.
\<close>

section \<open>A relay in step with its upstream\<close>

text \<open>
  The log of the relay is the beginning of the upstream log, under the same numbers; a backend, if the relay
  has one, has executed that much of it. \<open>b0\<close> is the backend before the first entry.
\<close>

definition relay_log :: "('b, 'f, 'u) env \<Rightarrow> 'b option \<Rightarrow> walentry list \<Rightarrow> ('b, 'f) dispatcher \<Rightarrow> bool" where
  "relay_log ev b0 ls d \<longleftrightarrow> dp_relay d
     \<and> (\<exists>dk w. dp_wal d = Some (dk, w) \<and> wal_log (ev_codec ev) (dk, w) ls \<and> disk_fine dk \<and> wal_ready w
          \<and> unat (wl_next w) = Suc (length ls))
     \<and> dp_backend d = map_option (\<lambda>b. replay (ev_do ev) b (map args ls)) b0"

definition relay_at :: "('b, 'f, 'u) env \<Rightarrow> 'b option \<Rightarrow> walentry list \<Rightarrow> nat \<Rightarrow> ('b, 'f) dispatcher \<Rightarrow> bool" where
  "relay_at ev b0 es n d \<longleftrightarrow> relay_log ev b0 (take n es) d"

definition relayable :: "('b, 'f, 'u) env \<Rightarrow> 'b option \<Rightarrow> walentry list \<Rightarrow> bool" where
  "relayable ev b0 es \<longleftrightarrow> codec_ok (ev_codec ev) \<and> from_one es
     \<and> (\<forall>x \<in> set es. \<exists>b. pb_marshal (ev_codec ev) x = Inr b)
     \<and> (b0 \<noteq> None \<longrightarrow> accepts_all (ev_do ev) es)"

lemma apply_entry_relay:
  fixes ev :: "('b, 'f, 'u) env"
  assumes "dp_relay d" and "dp_wal d = Some (dk, w)" and "wal_append (ev_codec ev) (dk, w) e = (dw', e', Inr sq)"
    and "\<And>b. dp_backend d = Some b \<Longrightarrow> \<not> isl (snd (ev_do ev b (args e')))"
  shows "apply_entry ev d e = Done (d\<lparr>dp_wal := Some dw', dp_backend := map_option (\<lambda>b. fst (ev_do ev b (args e'))) (dp_backend d)\<rparr>, e', None)"
proof (cases "dp_backend d")
  case (Some b)
  then show ?thesis using assms by (cases "ev_do ev b (args e')") (auto simp: apply_entry_def exec_args_def split: sum.splits)
qed (use assms in \<open>simp add: apply_entry_def\<close>)

text \<open>A relay logs whatever entry it is handed, under the next number of its own log.\<close>

lemma relay_takes:
  fixes ev :: "('b, 'f, 'u) env"
  assumes "codec_ok (ev_codec ev)" and "relay_log ev b0 ls d" and "Suc (Suc (length ls)) < 2 ^ 64"
    and "pb_marshal (ev_codec ev) (e\<lparr>seq_id := of_nat (Suc (length ls))\<rparr>) = Inr b"
    and "\<And>b. b0 \<noteq> None \<Longrightarrow> \<not> isl (snd (ev_do ev b (args e)))"
  shows "\<exists>d'. apply_entry ev d e = Done (d', e\<lparr>seq_id := of_nat (Suc (length ls))\<rparr>, None)
    \<and> relay_log ev b0 (ls @ [e\<lparr>seq_id := of_nat (Suc (length ls))\<rparr>]) d'"
proof -
  let ?e = "e\<lparr>seq_id := of_nat (Suc (length ls))\<rparr>"
  obtain dk w where d: "dp_relay d" "dp_wal d = Some (dk, w)" "wal_log (ev_codec ev) (dk, w) ls"
    "disk_fine dk" "wal_ready w" "unat (wl_next w) = Suc (length ls)" "dp_backend d = map_option (\<lambda>b. replay (ev_do ev) b (map args ls)) b0"
    using assms(2) by (auto simp: relay_log_def)
  have nx: "wl_next w = of_nat (Suc (length ls))" using d(6) assms(3) unat_u64_of_nat [of "Suc (length ls)"] by (simp add: word_unat_eq_iff)
  obtain dk' w' where app: "wal_append (ev_codec ev) (dk, w) e = ((dk', w'), ?e, Inr (wl_next w))" "disk_fine dk'" "wal_ready w'"
    using wal_append_succeeds [OF d(4,5) assms(4) [folded nx]] unfolding nx by blast
  have room: "unat (next_seq (dk, w)) + 1 < 2 ^ 64" using d(6) assms(3) by (simp add: next_seq_def)
  from ordered_log.app_rep [OF wal_ordered_log [OF assms(1)] d(3) app(1) room]
  have log: "wal_log (ev_codec ev) (dk', w') (ls @ [?e])" and "wl_next w' = wl_next w + 1" by (blast, simp add: next_seq_def)
  then have "unat (wl_next w') = Suc (Suc (length ls))" using room d(6) unat_Suc [of "wl_next w"] by (simp add: next_seq_def)
  with apply_entry_relay [of d dk w ev e "(dk', w')" ?e "wl_next w", OF d(1,2) app(1)] d(1,7) app(2,3) log assms(5) show ?thesis
    by (cases b0) (auto simp: relay_log_def)
qed

interpretation relay: positioned "apply_entry ev" "relayable ev b0" "relay_at ev b0"
  for ev :: "('b, 'f, 'u) env" and b0
proof
  fix es n and d :: "('b, 'f) dispatcher"
  assume ok: "relayable ev b0 es" and n: "n < length es" and at: "relay_at ev b0 es n d"
  let ?e = "es ! n"
  have fo: "from_one es" and cd: "codec_ok (ev_codec ev)" using ok by (simp_all add: relayable_def)
  have len: "length (take n es) = n" "Suc (Suc n) < 2 ^ 64" using n fo by (simp_all add: from_one_def)
  have e: "?e\<lparr>seq_id := of_nat (Suc n)\<rparr> = ?e"
    using from_one_nth [OF fo n] len(2) unat_u64_of_nat [of "Suc n"] by (simp add: word_unat_eq_iff)
  obtain b where "pb_marshal (ev_codec ev) ?e = Inr b" using ok nth_mem [OF n] unfolding relayable_def by blast
  moreover have "\<not> isl (snd (ev_do ev b (args ?e)))" if "b0 \<noteq> None" for b
    using ok n that by (auto simp: relayable_def accepts_all_def)
  ultimately show "\<exists>d'. apply_entry ev d ?e = Done (d', ?e, None) \<and> relay_at ev b0 es (Suc n) d'"
    using relay_takes [of ev b0 "take n es" d ?e b, unfolded len(1) e] cd at len(2) n by (simp add: relay_at_def take_Suc_conv_app_nth)
qed (simp add: relayable_def)

text \<open>
  A relay whose log is ahead of its watermark: the redelivered entry gets the number after the end of the log, and the
  entries up to that number are then skipped.
\<close>

lemma apply_entries_ahead:
  fixes ev :: "('b, 'f, 'u) env"
  assumes es: "relayable ev None es" and ls: "relayable ev None ls" and d: "relay_log ev None ls d"
    and n: "n < length ls" "n < length es" and room: "Suc (Suc (length ls)) < 2 ^ 64" and want: "unat want = Suc n"
    and e: "e = (es ! n)\<lparr>seq_id := of_nat (Suc (length ls))\<rparr>" "pb_marshal (ev_codec ev) e = Inr bytes"
  shows "\<exists>d'. apply_entries (apply_entry ev) d want (drop n es) = Done (d', None)
    \<and> relay_log ev None (ls @ e # drop (Suc (length ls)) es) d'"
proof -
  let ?p = "length ls" let ?ls = "ls @ [e]" let ?es = "?ls @ drop (Suc ?p) es"
  have fo: "from_one es" and fl: "from_one ls" and cd: "codec_ok (ev_codec ev)"
    and ms: "\<forall>x \<in> set es. \<exists>b. pb_marshal (ev_codec ev) x = Inr b" "\<forall>x \<in> set ls. \<exists>b. pb_marshal (ev_codec ev) x = Inr b"
    using es ls by (auto simp: relayable_def)
  have q: "unat (seq_id e) = Suc ?p" using room unat_u64_of_nat [of "Suc ?p"] by (simp add: e(1))
  then have fe: "from_one ?ls" using fl room by (simp add: from_one_def seqs_def)
  then have fes: "from_one ?es" using from_one_splice [OF fe fo, of ?p] by (cases "Suc ?p \<le> length es") simp_all
  have ok: "relayable ev None ?es" using cd fes ms e(2) by (auto simp: relayable_def dest: in_set_dropD)
  obtain d1 where d1: "apply_entry ev d (es ! n) = Done (d1, e, None)" "relay_log ev None ?ls d1"
    using relay_takes [OF cd d room e(2) [unfolded e(1)]] by (auto simp: e(1))
  have "unat (seq_id (es ! n)) = Suc n" by (rule from_one_nth [OF fo n(2)])
  then have first: "\<not> seq_id (es ! n) < want" using want by (simp add: word_less_nat_alt)
  have want2: "unat (seq_id e + 1) = Suc (Suc ?p)" using q room unat_Suc [of "seq_id e"] by simp
  let ?old = "take (?p - n) (drop (Suc n) es)"
  have split: "drop n es = es ! n # ?old @ drop (Suc ?p) es"
    using n append_take_drop_id [of "?p - n" "drop (Suc n) es"] by (simp add: Cons_nth_drop_Suc [symmetric] add.commute)
  have sq: "seqs ?old = [Suc (Suc n)..<Suc (Suc n) + length ?old]" by (rule from_one_take_drop_seqs [OF fo refl])
  have "unat (seq_id x) < Suc (Suc ?p)" if "x \<in> set ?old" for x
  proof -
    have "unat (seq_id x) \<in> set (seqs ?old)" using that by (simp add: seqs_def)
    then show ?thesis using n(1) unfolding sq by (auto simp: min_def simp del: upt_Suc split: if_splits)
  qed
  then have old: "\<forall>x \<in> set ?old. seq_id x < seq_id e + 1" by (simp add: word_less_nat_alt want2)
  have rest: "drop (Suc ?p) es = take (length es) (drop (Suc ?p) ?es)" by simp
  have "relay_at ev None ?es (Suc ?p) d1" using d1(2) by (simp add: relay_at_def)
  from relay.apply_entries_at [OF ok this want2, of "length es"] obtain d' where
    "apply_entries (apply_entry ev) d1 (seq_id e + 1) (drop (Suc ?p) es) = Done (d', None)"
    "relay_at ev None ?es (Suc ?p + length (drop (Suc ?p) es)) d'" unfolding rest [symmetric] by blast
  then show ?thesis using first d1(1) unfolding split by (simp add: relay_at_def apply_entries_skip [OF old])
qed

section \<open>Properties\<close>

text \<open>C8 relay_chain_delivers. The chain of the design, primary to relay to follower: a relay whose log is the
  beginning of the primary's log subscribes at its watermark and applies what it is streamed; its log then is the
  primary's log, entry by entry and number by number, and so is what it serves. A follower that had caught up with
  any part of the log subscribes to the relay and ends with its watermark at the end of the primary's log and its
  backend as the result of executing the whole of it once, in order. The relay may have a backend of its own, which
  then has executed the same.\<close>

theorem relay_chain_delivers:
  fixes rev :: "('b, 'f, 'u) env" and fev :: "('c, 'g, 'v) env"
  assumes "codec_ok cd" and "sv_wal sv = Some (d, w)" and "wal_log cd (d, w) es" and "es \<noteq> []" and "unat (wl_next w) = Suc (length es)"
    and "sv_max_batch sv = int k" and "0 < k"
    and "relayable rev b0 es" and "follows (relay_at rev b0) es n rl"
    and "accepts_all (ev_do fev) es" and "replica_at fev c0 es m fl"
  shows "\<exists>sv1 c1 ch1 bs1 e1 rl' dw' sv2 c2 ch2 bs2 e2 fl'.
      subscribe pev sh clk up collect_batch sv (subscribe_req rl) [] = Some (Done (sv1, [], Streaming c1 ch1))
    \<and> sub_drain cd collect_batch (sv_max_batch sv) (the (sv_wal sv1)) c1 [] = Some (Done (bs1, Inr e1))
    \<and> run_batches (apply_entry rev) rl bs1 None = Done (rl', None)
    \<and> dp_wal (fc_applier rl') = Some dw' \<and> wal_log (ev_codec rev) dw' es
    \<and> dp_backend (fc_applier rl') = map_option (\<lambda>b. replay (ev_do rev) b (map args es)) b0
    \<and> subscribe rev sh2 clk2 up2 collect_batch (new_server (Some (fc_applier rl')) 0) (subscribe_req fl) [] = Some (Done (sv2, [], Streaming c2 ch2))
    \<and> sub_drain (ev_codec rev) collect_batch 256 (the (sv_wal sv2)) c2 [] = Some (Done (bs2, Inr e2))
    \<and> run_batches (apply_entry fev) fl bs2 None = Done (fl', None)
    \<and> wm_applied (fc_watermark fl') = of_nat (length es)
    \<and> node_store (fc_applier fl') = replay (ev_do fev) c0 (map args es)"
proof -
  have nx: "unat (next_seq (d, w)) = Suc (length es)" using assms(5) by (simp add: next_seq_def)
  note p = wal_log_from_one [OF assms(1,3) nx assms(4)]
  have n: "wm_applied (fc_watermark rl) = of_nat n" "n \<le> length es" and m: "wm_applied (fc_watermark fl) = of_nat m" "m \<le> length es"
    using assms(9,11) by (simp_all add: follows_def)
  obtain sv1 c1 ch1 bs1 e1 where
    s1: "subscribe pev sh clk up collect_batch sv (subscribe_req rl) [] = Some (Done (sv1, [], Streaming c1 ch1))"
    "sub_drain cd collect_batch (sv_max_batch sv) (the (sv_wal sv1)) c1 [] = Some (Done (bs1, Inr e1))" "batches_of k (drop n es) bs1"
    using subscribed_from [OF assms(1-3) p(1) assms(6,7) eq_refl [OF p(2)] n] by blast
  obtain rl' where r1: "run_batches (apply_entry rev) rl bs1 None = Done (rl', None)" "follows (relay_at rev b0) es (length es) rl'"
    using relay.run_batches_at [OF assms(8,9) s1(3), of None] by auto
  then obtain dk' w' where r2: "dp_wal (fc_applier rl') = Some (dk', w')" "wal_log (ev_codec rev) (dk', w') es"
    "unat (wl_next w') = Suc (length es)" "dp_backend (fc_applier rl') = map_option (\<lambda>b. replay (ev_do rev) b (map args es)) b0"
    by (auto simp: follows_def relay_at_def relay_log_def)
  have cd: "codec_ok (ev_codec rev)" using assms(8) by (simp add: relayable_def)
  have "unat (next_seq (dk', w')) = Suc (length es)" using r2(3) by (simp add: next_seq_def)
  note q = wal_log_from_one [OF cd r2(2) this assms(4)]
  let ?sv = "new_server (Some (fc_applier rl')) 0"
  have sv: "sv_wal ?sv = Some (dk', w')" "sv_max_batch ?sv = int 256" using r2(1) by (simp_all add: new_server_def sv_wal_def default_max_batch_def)
  obtain sv2 c2 ch2 bs2 e2 where
    s2: "subscribe rev sh2 clk2 up2 collect_batch ?sv (subscribe_req fl) [] = Some (Done (sv2, [], Streaming c2 ch2))"
    "sub_drain (ev_codec rev) collect_batch (sv_max_batch ?sv) (the (sv_wal sv2)) c2 [] = Some (Done (bs2, Inr e2))" "batches_of 256 (drop m es) bs2"
    using subscribed_from [OF cd sv(1) r2(2) p(1) sv(2) zero_less_numeral eq_refl [OF q(2)] m] by blast
  have 256: "sv_max_batch ?sv = 256" using sv(2) by simp
  obtain fl' where "run_batches (apply_entry fev) fl bs2 None = Done (fl', None)" "wm_applied (fc_watermark fl') = of_nat (length es)"
    "node_store (fc_applier fl') = replay (ev_do fev) c0 (map args es)"
    using node.exact.run_batches_at [OF assms(10,11) s2(3), of None] by (auto simp: follows_def replayed_def)
  with s1(1,2) r1(1) r2(1,2,4) s2(1) s2(2) [unfolded 256] show ?thesis by (intro exI conjI)
qed

text \<open>C34 relay_ahead_loses_entries. \<open>Apply\<close> on a relay writes the relay's own sequence number into the entry, and
  \<open>applyBatch\<close> computes from that number which entry to expect next. When the log of a relay is ahead of its
  watermark, because a crash came between logging a batch and storing the watermark or because a forwarded write
  was logged, the redelivered rest of the upstream log does harm: its first entry is logged a second time, at the end,
  and every entry up to that number is skipped. What the relay serves from then on holds that entry in the place of
  the one of that number, which none of its followers ever gets, while the watermark reports the end of the log.\<close>

theorem relay_ahead_loses_entries:
  fixes ev :: "('b, 'f, 'u) env"
  assumes "relayable ev None es" and "relayable ev None ls" and "relay_log ev None ls (fc_applier fl)"
    and "disk_fine (fc_disk fl)" and "wm_rep (fc_disk fl) (fc_watermark fl)" and "wm_applied (fc_watermark fl) = of_nat n"
    and "n < length ls" and "n < length es" and "Suc (Suc (length ls)) < 2 ^ 64"
    and "e = (es ! n)\<lparr>seq_id := of_nat (Suc (length ls))\<rparr>" and "pb_marshal (ev_codec ev) e = Inr bytes"
  shows "\<exists>fl'. apply_batch (apply_entry ev) fl (batch_of (drop n es)) = Done (fl', None)
    \<and> relay_log ev None (ls @ e # drop (Suc (length ls)) es) (fc_applier fl')
    \<and> wm_applied (fc_watermark fl') = of_nat (length es)"
proof -
  have fo: "from_one es" using assms(1) by (simp add: relayable_def)
  let ?w = "fc_watermark fl" and ?b = "drop n es"
  note w = wm_position [OF fo assms(6) less_imp_le [OF assms(8)]]
  have b: "?b = take (length es) (drop n es)" "?b \<noteq> []" using assms(8) by simp_all
  note l = last_seq_at [OF fo b]
  obtain d' where d: "apply_entries (apply_entry ev) (fc_applier fl) (wm_next_seq ?w) ?b = Done (d', None)"
    "relay_log ev None (ls @ e # drop (Suc (length ls)) es) d'"
    using apply_entries_ahead [OF assms(1-3,7-9) w(2) assms(10,11)] by blast
  obtain dk w' where set: "wm_set (fc_disk fl) ?w (seq_id (last ?b)) = (dk, w', None)" using wm_set_fine [OF assms(4)] by blast
  have lt: "wm_applied ?w < seq_id (last ?b)" using w(1) l(1) assms(8) by (simp add: word_less_nat_alt)
  then have "wm_applied w' = seq_id (last ?b)" using wm_set_rep(3) [OF assms(5) set] by (simp add: max_absorb2)
  then have "wm_applied w' = of_nat (length es)" using l(3) assms(8) by simp
  moreover have "0 < seq_id (last ?b)" using lt by (meson le_less_trans word_zero_le)
  ultimately show ?thesis using d set
    by (intro exI [of _ "fl\<lparr>fc_applier := d', fc_disk := dk, fc_watermark := w'\<rparr>"]) (simp add: apply_batch_def)
qed

definition demo_relay :: "disk \<times> wal \<Rightarrow> (int, unit) dispatcher follower" where
  "demo_relay dw = (demo_follower 0)\<lparr>fc_applier := new_dispatcher None new_router (Some dw) False None True True\<rparr>"


lemma demo_relayable: "relayable counter_env None [demo_logged]"
  using wire_ok demo_marshal [of 1] by (simp add: relayable_def counter_env_def)

lemma demo_relay_empty: "follows (relay_at counter_env None) es 0 (demo_relay (demo_disk, demo_wal 1))"
  using demo_log(2) [of wire 1]
  by (simp add: follows_def relay_at_def relay_log_def demo_relay_def new_dispatcher_def counter_env_def)

theorem relay_chain_delivers_witness:
  "\<exists>dw sv1 c1 ch1 bs1 e1 rl' dw' sv2 c2 ch2 bs2 e2 fl'.
      subscribe demo_snap_env (\<lambda>_. []) (\<lambda>_. 0) (\<lambda>_ _. Inl []) collect_batch (demo_server dw)
        (subscribe_req (demo_relay (demo_disk, demo_wal 1))) [] = Some (Done (sv1, [], Streaming c1 ch1))
    \<and> sub_drain wire collect_batch 256 (the (sv_wal sv1)) c1 [] = Some (Done (bs1, Inr e1))
    \<and> run_batches (apply_entry counter_env) (demo_relay (demo_disk, demo_wal 1)) bs1 None = Done (rl', None)
    \<and> dp_wal (fc_applier rl') = Some dw' \<and> wal_log wire dw' [demo_logged]
    \<and> subscribe counter_env (\<lambda>_. []) (\<lambda>_. 0) (\<lambda>_ _. Inl []) collect_batch (new_server (Some (fc_applier rl')) 0)
        (subscribe_req (demo_follower 0)) [] = Some (Done (sv2, [], Streaming c2 ch2))
    \<and> sub_drain wire collect_batch 256 (the (sv_wal sv2)) c2 [] = Some (Done (bs2, Inr e2))
    \<and> run_batches (apply_entry counter_env) (demo_follower 0) bs2 None = Done (fl', None)
    \<and> node_store (fc_applier fl') = 1"
proof -
  obtain d w where w: "wal_log wire (d, w) [demo_logged]" "unat (wl_next w) = Suc (length [demo_logged])"
    using demo_append [of 1] by (auto simp: next_seq_def)
  have ok: "accepts_all (ev_do counter_env) [demo_logged]" by (simp add: accepts_all_def)
  have cd: "ev_codec counter_env = wire" by (simp add: counter_env_def)
  have mb: "sv_max_batch (demo_server (d, w)) = int 256" "sv_max_batch (demo_server (d, w)) = 256" by simp_all
  from relay_chain_delivers [where pev = demo_snap_env and sh = "\<lambda>_. []" and clk = "\<lambda>_. 0" and up = "\<lambda>_ _. Inl []"
      and ?sh2.0 = "\<lambda>_. []" and ?clk2.0 = "\<lambda>_. 0" and ?up2.0 = "\<lambda>_ _. Inl []",
      OF wire_ok demo_server_simps(1) w(1) _ w(2) mb(1) _ demo_relayable demo_relay_empty ok demo_replica_at [of 0]]
  obtain sv1 c1 ch1 bs1 e1 rl' dw' sv2 c2 ch2 bs2 e2 fl' where
    "subscribe demo_snap_env (\<lambda>_. []) (\<lambda>_. 0) (\<lambda>_ _. Inl []) collect_batch (demo_server (d, w))
        (subscribe_req (demo_relay (demo_disk, demo_wal 1))) [] = Some (Done (sv1, [], Streaming c1 ch1))"
    "sub_drain wire collect_batch 256 (the (sv_wal sv1)) c1 [] = Some (Done (bs1, Inr e1))"
    "run_batches (apply_entry counter_env) (demo_relay (demo_disk, demo_wal 1)) bs1 None = Done (rl', None)"
    "dp_wal (fc_applier rl') = Some dw'" "wal_log wire dw' [demo_logged]"
    "subscribe counter_env (\<lambda>_. []) (\<lambda>_. 0) (\<lambda>_ _. Inl []) collect_batch (new_server (Some (fc_applier rl')) 0)
        (subscribe_req (demo_follower 0)) [] = Some (Done (sv2, [], Streaming c2 ch2))"
    "sub_drain wire collect_batch 256 (the (sv_wal sv2)) c2 [] = Some (Done (bs2, Inr e2))"
    "run_batches (apply_entry counter_env) (demo_follower 0) bs2 None = Done (fl', None)"
    "node_store (fc_applier fl') = replay (ev_do counter_env) 0 (map args [demo_logged])" unfolding cd mb(2) by auto
  then show ?thesis by (intro exI conjI) simp_all
qed

theorem relay_ahead_loses_entries_witness:
  "\<exists>dw fl'. wal_log wire dw [demo_logged]
     \<and> apply_batch (apply_entry counter_env) (demo_relay dw) (batch_of [demo_logged, demo_entry\<lparr>seq_id := 2, args := [''DEL'', ''k'']\<rparr>]) = Done (fl', None)
     \<and> relay_log counter_env None [demo_logged, demo_entry\<lparr>seq_id := 2\<rparr>] (fc_applier fl') \<and> wm_applied (fc_watermark fl') = 2"
proof -
  let ?x = "demo_entry\<lparr>seq_id := 2, args := [''DEL'', ''k'']\<rparr>" and ?e = "demo_entry\<lparr>seq_id := 2\<rparr>"
  obtain d w where w: "disk_fine d" "wal_ready w" "wal_log wire (d, w) [demo_logged]" "wl_next w = 2"
    using demo_append [of 1] by (auto simp: next_seq_def)
  have cd: "ev_codec counter_env = wire" by (simp add: counter_env_def)
  have log: "relay_log counter_env None [demo_logged] (fc_applier (demo_relay (d, w)))"
    using w by (simp add: relay_log_def cd demo_relay_def new_dispatcher_def)
  obtain b c where b: "pb_marshal wire ?e = Inr b" "pb_marshal wire ?x = Inr c" 
    using demo_marshal [of 2] wire_marshal_short [of ?x] by (auto simp: demo_entry_def min_int64_def max_int64_def wire_limit_def)
  then have es: "relayable counter_env None [demo_logged, ?x]" using demo_relayable
    by (simp add: relayable_def cd from_one_def)
  from relay_ahead_loses_entries [OF es demo_relayable log, of 0 ?e b] b(1) w(3) show ?thesis
    by (intro exI [of _ "(d, w)"]) (auto simp: cd demo_relay_def)
qed

text \<open>A single batch: \<open>Apply\<close> on a relay writes the relay's own sequence number into the
  entry, and \<open>applyBatch\<close> computes from that number which entry to expect next. When the
  relay's log is ahead of the upstream's numbering, because it has taken a forwarded write,
  the rest of a batch is taken for a redelivery: it reaches neither the relay's log nor, from
  there, its followers, and the watermark moves past it.\<close>

theorem relay_skips_entries:
  assumes "codec_ok (ev_codec ev)" and "dp_relay (fc_applier fl)" and "dp_backend (fc_applier fl) = None"
    and "dp_wal (fc_applier fl) = Some (dk, w)" and "wal_log (ev_codec ev) (dk, w) es" and "disk_fine dk" and "wal_ready w"
    and "pb_marshal (ev_codec ev) (e\<lparr>seq_id := wl_next w\<rparr>) = Inr bytes" and "unat (wl_next w) + 1 < 2 ^ 64"
    and "wm_next_seq (fc_watermark fl) \<le> seq_id e" and "\<And>x. x \<in> set rest \<Longrightarrow> seq_id x \<le> wl_next w"
    and "disk_fine (fc_disk fl)" and "wm_rep (fc_disk fl) (fc_watermark fl)"
    and "wm_applied (fc_watermark fl) < seq_id (last (e # rest))"
  shows "\<exists>fl' dw'. apply_batch (apply_entry ev) fl (batch_of (e # rest)) = Done (fl', None)
    \<and> dp_wal (fc_applier fl') = Some dw' \<and> wal_log (ev_codec ev) dw' (es @ [e\<lparr>seq_id := wl_next w\<rparr>])
    \<and> wm_applied (fc_watermark fl') = seq_id (last (e # rest))"
proof -
  let ?e = "e\<lparr>seq_id := wl_next w\<rparr>" and ?d = "fc_applier fl" and ?up = "seq_id (last (e # rest))"
  obtain dk' w' where app: "wal_append (ev_codec ev) (dk, w) e = ((dk', w'), ?e, Inr (wl_next w))"
    using wal_append_succeeds [OF assms(6,7,8)] by blast
  from ordered_log.app_rep [OF wal_ordered_log [OF assms(1)] assms(5) app] assms(9)
  have log: "wal_log (ev_codec ev) (dk', w') (es @ [?e])" by (simp add: next_seq_def)
  let ?d' = "?d\<lparr>dp_wal := Some (dk', w')\<rparr>"
  have "apply_entry ev ?d e = Done (?d', ?e, None)" using assms(2-4) app by (simp add: apply_entry_def)
  moreover have "seq_id x < wl_next w + 1" if "x \<in> set rest" for x
    using assms(9,11) that unat_Suc [of "wl_next w"] by (fastforce simp: word_le_nat_alt word_less_nat_alt)
  then have "apply_entries (apply_entry ev) d (wl_next w + 1) rest = Done (d, None)" for d
    by (induction rest) simp_all
  ultimately have ents: "apply_entries (apply_entry ev) ?d (wm_next_seq (fc_watermark fl)) (e # rest) = Done (?d', None)"
    using assms(10) by (simp add: leD)
  obtain dk2 w2 where set: "wm_set (fc_disk fl) (fc_watermark fl) ?up = (dk2, w2, None)" using wm_set_fine [OF assms(12)] by blast
  have "wm_applied w2 = ?up" using wm_set_rep(3) [OF assms(13) set] assms(14) by (simp add: max_absorb2)
  moreover have "0 < ?up" using assms(14) by (meson le_less_trans word_zero_le)
  then have "apply_batch (apply_entry ev) fl (batch_of (e # rest)) =
      Done (fl\<lparr>fc_applier := ?d', fc_disk := dk2, fc_watermark := w2\<rparr>, None)"
    using ents set by (simp add: apply_batch_def)
  ultimately show ?thesis using log by (intro exI [of _ "fl\<lparr>fc_applier := ?d', fc_disk := dk2, fc_watermark := w2\<rparr>"] exI [of _ "(dk', w')"]) simp
qed

theorem relay_skips_entries_witness:
  "\<exists>dw fl' dw'. wal_log wire dw [demo_logged]
     \<and> apply_batch (apply_entry counter_env) (demo_relay dw) (batch_of [demo_logged, \<lparr>seq_id = 2, args = [''DEL'', ''k''], timestamp_ms = 7\<rparr>]) = Done (fl', None)
     \<and> dp_wal (fc_applier fl') = Some dw' \<and> wal_log wire dw' [demo_logged, demo_entry\<lparr>seq_id := 2\<rparr>]
     \<and> wm_applied (fc_watermark fl') = 2"
proof -
  obtain d w where w: "disk_fine d" "wal_ready w" "wal_log wire (d, w) [demo_logged]" "wl_next w = 2"
    using demo_append [of 1] by (auto simp: next_seq_def)
  obtain b where b: "pb_marshal wire (demo_logged\<lparr>seq_id := wl_next w\<rparr>) = Inr b" using demo_marshal by auto
  have "ev_codec counter_env = wire" by (simp add: counter_env_def)
  then obtain fl' dw' where
    "apply_batch (apply_entry counter_env) (demo_relay (d, w)) (batch_of [demo_logged, \<lparr>seq_id = 2, args = [''DEL'', ''k''], timestamp_ms = 7\<rparr>]) = Done (fl', None)"
    "dp_wal (fc_applier fl') = Some dw'" "wal_log wire dw' [demo_logged, demo_entry\<lparr>seq_id := 2\<rparr>]"
    "wm_applied (fc_watermark fl') = 2"
    using relay_skips_entries [of counter_env "demo_relay (d, w)" d w "[demo_logged]" demo_logged b "[\<lparr>seq_id = 2, args = [''DEL'', ''k''], timestamp_ms = 7\<rparr>]"]
      w b wire_ok by (auto simp: demo_relay_def new_dispatcher_def wm_next_seq_def word_less_nat_alt)
  with w(3) show ?thesis by (intro exI conjI)
qed

end
