(* ===== verification/Live_Snapshot.thy ===== *)
theory Live_Snapshot
  imports Snapshot
begin

text \<open>
  A snapshot beside writers. \<open>StreamSnapshot\<close> (\<open>internal/proxy/dispatch.go\<close>) takes no lock: between any two of its commands the server
  executes those of clients. The definitions are those of \<open>Snapshot\<close>, run on a backend that also executes a schedule of
  other commands; what is assumed of the server is what its documentation says of \<open>SCAN\<close> and of the reading commands.
\<close>

section \<open>A backend with other clients\<close>

text \<open>
  Between two commands that the snapshot sends, the server executes commands of others: \<open>pre\<close> of the schedule
  before the next one. A pair of a backend and a schedule is a backend too, so the definitions of \<open>Snapshot\<close> run on it as they are.
\<close>

type_synonym 'b crowded = "'b \<times> bytes list list list"

definition pre :: "bytes list list list \<Rightarrow> bytes list list" where
  "pre sched = (case sched of [] \<Rightarrow> [] | ws # _ \<Rightarrow> ws)"

definition beside :: "('b \<Rightarrow> bytes list \<Rightarrow> 'b \<times> (go_error + reply)) \<Rightarrow> 'b crowded \<Rightarrow> bytes list \<Rightarrow> 'b crowded \<times> (go_error + reply)" where
  "beside bdo st as = (case bdo (replay bdo (fst st) (pre (snd st))) as of (b, r) \<Rightarrow> ((b, tl (snd st)), r))"

definition crowded_env :: "('b, 'f, 'u) env \<Rightarrow> ('b crowded, 'f, 'u) env" where
  "crowded_env ev = \<lparr>ev_do = beside (ev_do ev), ev_forward = ev_forward ev, ev_codec = ev_codec ev, ev_upper = ev_upper ev,
     ev_quote = ev_quote ev, ev_wal_text = ev_wal_text ev\<rparr>"

text \<open>What remains of the others when the snapshot only reads.\<close>

definition adv :: "('b \<Rightarrow> bytes list \<Rightarrow> 'b \<times> (go_error + reply)) \<Rightarrow> 'b crowded \<Rightarrow> 'b crowded" where
  "adv bdo st = (replay bdo (fst st) (pre (snd st)), tl (snd st))"

section \<open>What the snapshot relies on\<close>

abbreviation scan_cmd :: "nat \<Rightarrow> bytes list" where
  "scan_cmd c \<equiv> [''SCAN'', format_uint c, ''COUNT'', ''1000'']"

definition queries :: "string \<Rightarrow> bytes list list" where
  "queries k = [[''TYPE'', k], [''GET'', k], [''PTTL'', k], [''HGETALL'', k], [''LRANGE'', k, ''0'', ''-1''], [''SMEMBERS'', k],
     [''ZRANGE'', k, ''0'', ''-1'', ''WITHSCORES'']]"

text \<open>
  Of the server: the commands of a snapshot change nothing, an iteration over a store that does not change ends from
  every cursor, and a member always comes with its score.
\<close>

definition reads_ok :: "('b \<Rightarrow> bytes list \<Rightarrow> 'b \<times> (go_error + reply)) \<Rightarrow> bool" where
  "reads_ok bdo \<longleftrightarrow> (\<forall>b c. \<exists>pages. scan_pages bdo b c pages) \<and> (\<forall>b k. \<forall>q \<in> set (queries k). fst (bdo b q) = b)
     \<and> (\<forall>b k xs. snd (bdo b [''ZRANGE'', k, ''0'', ''-1'', ''WITHSCORES'']) = Inr (RpArr xs) \<longrightarrow> even (length xs))"

text \<open>
  The documented guarantee of \<open>SCAN\<close>: a full iteration returns every key that is in the store from its
  beginning to its end, whatever else is executed meanwhile. \<open>keeps\<close> holds of the stores that have these keys.
\<close>

definition moves :: "('b \<Rightarrow> bytes list \<Rightarrow> 'b \<times> (go_error + reply)) \<Rightarrow> ('b \<Rightarrow> bool) \<Rightarrow> 'b \<Rightarrow> 'b \<Rightarrow> bool" where
  "moves bdo keeps x y \<longleftrightarrow> keeps y \<and> (\<exists>c. y = fst (bdo x c))"

inductive scan_iter :: "('b \<Rightarrow> bytes list \<Rightarrow> 'b \<times> (go_error + reply)) \<Rightarrow> ('b \<Rightarrow> bool) \<Rightarrow> nat \<Rightarrow> 'b \<Rightarrow> string list list \<Rightarrow> bool"
  for bdo keeps where
  last_page: "bdo b (scan_cmd c) = (b, Inr (RpArr [nc, RpArr krs])) \<Longrightarrow> cursor_of (sprint nc) = 0 \<Longrightarrow>
    scan_iter bdo keeps c b [map sprint krs]"
| next_page: "bdo b (scan_cmd c) = (b, Inr (RpArr [nc, RpArr krs])) \<Longrightarrow> cursor_of (sprint nc) \<noteq> 0 \<Longrightarrow>
    (moves bdo keeps)\<^sup>*\<^sup>* b b' \<Longrightarrow> scan_iter bdo keeps (cursor_of (sprint nc)) b' pages \<Longrightarrow>
    scan_iter bdo keeps c b (map sprint krs # pages)"

definition scan_complete :: "('b \<Rightarrow> bytes list \<Rightarrow> 'b \<times> (go_error + reply)) \<Rightarrow> ('b \<Rightarrow> bool) \<Rightarrow> string set \<Rightarrow> bool" where
  "scan_complete bdo keeps ks \<longleftrightarrow> (\<forall>b pages. keeps b \<longrightarrow> scan_iter bdo keeps 0 b pages \<longrightarrow> ks \<subseteq> set (concat pages))"

text \<open>A key that is not changed: every command the snapshot sends about it has the same reply in all these stores, and it has no expiry.\<close>

definition unchanged :: "('b \<Rightarrow> bytes list \<Rightarrow> 'b \<times> (go_error + reply)) \<Rightarrow> ('b \<Rightarrow> bool) \<Rightarrow> (bytes list \<Rightarrow> go_error + reply) \<Rightarrow> string \<Rightarrow> bool" where
  "unchanged bdo keeps rp k \<longleftrightarrow> (\<forall>b q. keeps b \<longrightarrow> q \<in> set (queries k) \<longrightarrow> snd (bdo b q) = rp q)
     \<and> (\<forall>ms. rp [''PTTL'', k] = Inr (RpInt ms) \<longrightarrow> ms \<le> 0)"

text \<open>The commands \<open>scanKey\<close> makes of these replies.\<close>

definition fixed :: "(bytes list \<Rightarrow> go_error + reply) \<Rightarrow> 'b \<Rightarrow> bytes list \<Rightarrow> 'b \<times> (go_error + reply)" where
  "fixed rp b as = (b, rp as)"

definition key_cmds :: "(bytes list \<Rightarrow> go_error + reply) \<Rightarrow> string \<Rightarrow> bytes list list" where
  "key_cmds rp k = (case scan_key (fixed rp) (\<lambda>_. 0) () k of Done (_, cs) \<Rightarrow> cs | Panic _ \<Rightarrow> [])"

section \<open>Reading one key\<close>

lemma pre_simps [simp]: "pre [] = []" "pre (ws # s) = ws"
  by (simp_all add: pre_def)

definition reply_val :: "go_error + reply \<Rightarrow> reply" where
  "reply_val r = (case r of Inl _ \<Rightarrow> RpNil | Inr v \<Rightarrow> v)"

lemma do_val_const: "do_val (fixed rp) u q = (u, reply_val (rp q))"
  by (simp add: do_val_def reply_val_def fixed_def)

lemma do_val_beside:
  assumes "reads_ok bdo" and "q \<in> set (queries k)"
  shows "do_val (beside bdo) st q = (adv bdo st, reply_val (snd (bdo (fst (adv bdo st)) q)))"
proof -
  have "fst (bdo (fst (adv bdo st)) q) = fst (adv bdo st)" using assms unfolding reads_ok_def by blast
  then show ?thesis by (cases "bdo (fst (adv bdo st)) q") (simp add: do_val_def beside_def adv_def reply_val_def)
qed

lemma zset_parts_even: "even (length xs) \<Longrightarrow> \<exists>ps. zset_parts xs = Done ps"
  by (induction xs rule: zset_parts.induct) auto

definition safe_st :: "('b \<Rightarrow> bytes list \<Rightarrow> 'b \<times> (go_error + reply)) \<Rightarrow> ('b \<Rightarrow> bool) \<Rightarrow> 'b crowded \<Rightarrow> bool" where
  "safe_st bdo keeps st \<longleftrightarrow> keeps (fst st) \<and> (\<forall>ws \<in> set (snd st). \<forall>c \<in> set ws. \<forall>x. keeps x \<longrightarrow> keeps (fst (bdo x c)))"

lemma replay_keeps:
  "keeps b \<Longrightarrow> \<forall>c \<in> set ws. \<forall>x. keeps x \<longrightarrow> keeps (fst (bdo x c)) \<Longrightarrow>
     keeps (replay bdo b ws) \<and> (moves bdo keeps)\<^sup>*\<^sup>* b (replay bdo b ws)"
proof (induction ws arbitrary: b)
  case (Cons c ws)
  then have "keeps (fst (bdo b c))" by simp
  then have "moves bdo keeps b (fst (bdo b c))" by (auto simp: moves_def)
  with Cons.IH [OF \<open>keeps (fst (bdo b c))\<close>] Cons.prems(2) show ?case by (auto intro: converse_rtranclp_into_rtranclp)
qed simp

lemma safe_adv:
  assumes "safe_st bdo keeps st"
  shows "safe_st bdo keeps (adv bdo st)" and "(moves bdo keeps)\<^sup>*\<^sup>* (fst st) (fst (adv bdo st))"
proof -
  have "\<forall>c \<in> set (pre (snd st)). \<forall>x. keeps x \<longrightarrow> keeps (fst (bdo x c))"
    using assms by (cases "snd st") (auto simp: safe_st_def)
  moreover have "set (tl (snd st)) \<subseteq> set (snd st)" by (cases "snd st") auto
  ultimately show "safe_st bdo keeps (adv bdo st)" "(moves bdo keeps)\<^sup>*\<^sup>* (fst st) (fst (adv bdo st))"
    using replay_keeps [of keeps "fst st" "pre (snd st)" bdo] assms by (auto simp: safe_st_def adv_def)
qed

lemma safe_advs:
  assumes "safe_st bdo keeps st"
  shows "safe_st bdo keeps ((adv bdo ^^ n) st)" and "(moves bdo keeps)\<^sup>*\<^sup>* (fst st) (fst ((adv bdo ^^ n) st))"
  using assms by (induction n) (auto intro: safe_adv rtranclp_trans)

lemma in_queries [simp]:
  "[''TYPE'', k] \<in> set (queries k)" "[''GET'', k] \<in> set (queries k)" "[''PTTL'', k] \<in> set (queries k)" "[''HGETALL'', k] \<in> set (queries k)"
  "[''LRANGE'', k, ''0'', ''-1''] \<in> set (queries k)" "[''SMEMBERS'', k] \<in> set (queries k)"
  "[''ZRANGE'', k, ''0'', ''-1'', ''WITHSCORES''] \<in> set (queries k)"
  by (simp_all add: queries_def)

text \<open>Reading any key ends, and of an unchanged key it gives the commands that belong to it, whatever others do in between.\<close>

lemma scan_string_live:
  assumes "reads_ok bdo" and "safe_st bdo keeps st"
  shows "\<exists>n c. scan_string (beside bdo) clk st k = ((adv bdo ^^ n) st, c)
    \<and> (unchanged bdo keeps rp k \<longrightarrow> c = snd (scan_string (fixed rp) (\<lambda>_. 0) () k))"
proof -
  let ?a1 = "adv bdo st" let ?a2 = "adv bdo ?a1"
  note v = do_val_beside [OF assms(1), of _ k]
  have s: "keeps (fst ?a1)" "keeps (fst ?a2)" using safe_adv(1) assms(2) unfolding safe_st_def [of _ _ "adv bdo _"] by (metis safe_st_def)+
  then have u: "unchanged bdo keeps rp k \<Longrightarrow> q \<in> set (queries k) \<Longrightarrow> snd (bdo (fst ?a1) q) = rp q \<and> snd (bdo (fst ?a2) q) = rp q" for q
    by (simp add: unchanged_def)
  have fp: "(adv bdo ^^ 1) st = ?a1" "(adv bdo ^^ 2) st = ?a2" by (simp_all add: numeral_2_eq_2)
  have ms: "ms \<le> 0" if "unchanged bdo keeps rp k" "reply_val (rp [''PTTL'', k]) = RpInt ms" for ms
    using that by (cases "rp [''PTTL'', k]") (auto simp: unchanged_def reply_val_def)
  show ?thesis
  proof (cases "reply_val (snd (bdo (fst ?a1) [''GET'', k])) = RpNil")
    case True
    then show ?thesis using u [of "[''GET'', k]"]
      by (intro exI [of _ 1] exI [of _ "[]"]) (auto simp: scan_string_def v do_val_const)
  next
    case False
    have eq: "scan_string (beside bdo) clk st k = ((adv bdo ^^ 2) st, snd (scan_string (beside bdo) clk st k))"
      using False by (simp add: scan_string_def v fp)
    have "snd (scan_string (beside bdo) clk st k) = snd (scan_string (fixed rp) (\<lambda>_. 0) () k)" if un: "unchanged bdo keeps rp k"
      using False u [OF un, of "[''GET'', k]"] u [OF un, of "[''PTTL'', k]"] ms [OF un]
      by (simp add: scan_string_def v do_val_const split: reply.splits) (metis not_le)
    with eq show ?thesis by blast
  qed
qed

lemma scan_key_live:
  assumes "reads_ok bdo" and "safe_st bdo keeps st"
  shows "\<exists>n c. scan_key (beside bdo) clk st k = Done ((adv bdo ^^ n) st, c) \<and> (unchanged bdo keeps rp k \<longrightarrow> c = key_cmds rp k)"
proof -
  let ?a1 = "adv bdo st" let ?a2 = "adv bdo ?a1" let ?t = "sprint (reply_val (snd (bdo (fst ?a1) [''TYPE'', k])))"
  let ?z = "[''ZRANGE'', k, ''0'', ''-1'', ''WITHSCORES'']"
  note v = do_val_beside [OF assms(1), of _ k]
  have safe: "safe_st bdo keeps ?a1" "safe_st bdo keeps ?a2" using safe_adv(1) assms(2) by blast+
  then have u: "unchanged bdo keeps rp k \<Longrightarrow> q \<in> set (queries k) \<Longrightarrow> snd (bdo (fst ?a1) q) = rp q \<and> snd (bdo (fst ?a2) q) = rp q" for q
    by (simp add: unchanged_def safe_st_def)
  have fp: "(adv bdo ^^ 1) st = ?a1" "(adv bdo ^^ 2) st = ?a2" "(adv bdo ^^ m) ?a1 = (adv bdo ^^ Suc m) st" for m
    by (simp_all add: numeral_2_eq_2 funpow_swap1)
  note kc = key_cmds_def scan_key_def do_val_const Let_def
  obtain n c where str: "scan_string (beside bdo) clk ?a1 k = ((adv bdo ^^ n) ?a1, c)"
    "unchanged bdo keeps rp k \<longrightarrow> c = snd (scan_string (fixed rp) (\<lambda>_. 0) () k)"
    using scan_string_live [OF assms(1) safe(1)] by blast
  obtain ps where ps: "zset_parts (elements (reply_val (snd (bdo (fst ?a2) ?z)))) = Done ps"
  proof -
    have "even (length (elements (reply_val (snd (bdo (fst ?a2) ?z)))))"
      using assms(1) unfolding reads_ok_def by (cases "snd (bdo (fst ?a2) ?z)") (auto simp: reply_val_def elements_def split: reply.splits)
    then show thesis using zset_parts_even that by blast
  qed
  consider "?t = ''string''" | "?t = ''hash''" | "?t = ''list''" | "?t = ''set''" | "?t = ''zset''"
    | "?t \<notin> {''string'', ''hash'', ''list'', ''set'', ''zset''}" by blast
  then show ?thesis
  proof cases
    case 1
    then have "scan_key (beside bdo) clk st k = Done ((adv bdo ^^ Suc n) st, c)" by (simp add: scan_key_def v str(1) fp(3) Let_def)
    moreover have "unchanged bdo keeps rp k \<longrightarrow> c = key_cmds rp k" using 1 str(2) u [of "[''TYPE'', k]"] by (auto simp: kc split: prod.splits)
    ultimately show ?thesis by blast
  next
    case 2
    then show ?thesis using u [of "[''TYPE'', k]"] u [of "[''HGETALL'', k]"]
      by (intro exI [of _ 2]) (auto simp: kc v fp(2))
  next
    case 3
    then show ?thesis using u [of "[''TYPE'', k]"] u [of "[''LRANGE'', k, ''0'', ''-1'']"]
      by (intro exI [of _ 2]) (auto simp: kc v fp(2))
  next
    case 4
    then show ?thesis using u [of "[''TYPE'', k]"] u [of "[''SMEMBERS'', k]"]
      by (intro exI [of _ 2]) (auto simp: kc v fp(2))
  next
    case 5
    then show ?thesis using u [of "[''TYPE'', k]"] u [of ?z] ps
      by (intro exI [of _ 2]) (auto simp: kc v fp(2))
  next
    case 6
    then show ?thesis using u [of "[''TYPE'', k]"] by (intro exI [of _ 1]) (auto simp: kc v fp(1))
  qed
qed

section \<open>Reading a shard\<close>

text \<open>
  A shard has been read to the end from a cursor: the commands sent belong, key by key, to the pages of an
  iteration that others have run beside.
\<close>

definition belongs :: "(bytes list \<Rightarrow> go_error + reply) \<Rightarrow> string set \<Rightarrow> string \<Rightarrow> bytes list list \<Rightarrow> bool" where
  "belongs rp ks k c \<longleftrightarrow> (k \<in> ks \<longrightarrow> c = key_cmds rp k)"

definition shard_sent :: "('b \<Rightarrow> bytes list \<Rightarrow> 'b \<times> (go_error + reply)) \<Rightarrow> ('b \<Rightarrow> bool) \<Rightarrow> (bytes list \<Rightarrow> go_error + reply) \<Rightarrow> string set \<Rightarrow>
    ('s \<Rightarrow> bytes list list \<Rightarrow> 's) \<Rightarrow> nat \<Rightarrow> 'b crowded \<Rightarrow> 's \<Rightarrow> bytes list list \<Rightarrow>
    ('b crowded \<times> 's \<times> bytes list list \<times> snap_error option) outcome option \<Rightarrow> bool" where
  "shard_sent bdo keeps rp ks g c st s batch res \<longleftrightarrow>
     (\<exists>n pages out rest cs. res = Some (Done ((adv bdo ^^ n) st, foldl g s out, rest, None)) \<and> concat out @ rest = batch @ concat cs
        \<and> list_all2 (belongs rp ks) (concat pages) cs \<and> length rest < batch_size \<and> scan_iter bdo keeps c (fst (adv bdo st)) pages)"

lemma reads_pages: "reads_ok bdo \<Longrightarrow> \<exists>pages. scan_pages bdo b c pages"
  by (simp add: reads_ok_def)

lemma beside_scan:
  assumes "reads_ok bdo"
  shows "\<exists>nc krs. bdo (fst (adv bdo st)) (scan_cmd c) = (fst (adv bdo st), Inr (RpArr [nc, RpArr krs]))
    \<and> beside bdo st (scan_cmd c) = (adv bdo st, Inr (RpArr [nc, RpArr krs]))"
proof -
  obtain pages where p: "scan_pages bdo (fst (adv bdo st)) c pages" using reads_pages [OF assms] by blast
  then obtain nc krs where "bdo (fst (adv bdo st)) (scan_cmd c) = (fst (adv bdo st), Inr (RpArr [nc, RpArr krs]))" by (cases pages) auto
  moreover from this have "beside bdo st (scan_cmd c) = (adv bdo st, Inr (RpArr [nc, RpArr krs]))" by (simp add: beside_def adv_def)
  ultimately show ?thesis by blast
qed

lemma snap_shard_step:
  assumes "reads_ok bdo" and "safe_st bdo keeps st" and "\<forall>k \<in> ks. unchanged bdo keeps rp k" and "length batch < batch_size"
    and rec: "\<And>n nc krs rest s. bdo (fst (adv bdo st)) (scan_cmd c) = (fst (adv bdo st), Inr (RpArr [nc, RpArr krs])) \<Longrightarrow>
      cursor_of (sprint nc) \<noteq> 0 \<Longrightarrow> length rest < batch_size \<Longrightarrow>
      shard_sent bdo keeps rp ks g (cursor_of (sprint nc)) ((adv bdo ^^ Suc n) st) s rest
        (snap_shard (beside bdo) clk (accepting g) (cursor_of (sprint nc)) ((adv bdo ^^ Suc n) st) s rest)"
  shows "shard_sent bdo keeps rp ks g c st s batch (snap_shard (beside bdo) clk (accepting g) c st s batch)"
proof -
  let ?a = "adv bdo st"
  obtain nc krs where scan: "bdo (fst ?a) (scan_cmd c) = (fst ?a, Inr (RpArr [nc, RpArr krs]))"
    "beside bdo st (scan_cmd c) = (?a, Inr (RpArr [nc, RpArr krs]))" using beside_scan [OF assms(1)] by blast
  have safe: "safe_st bdo keeps ?a" by (rule safe_adv(1) [OF assms(2)])
  have key: "\<exists>b' cs. scan_key (beside bdo) clk b k = Done (b', cs) \<and> (\<exists>n. b' = (adv bdo ^^ n) ?a) \<and> belongs rp ks k cs"
    if "\<exists>n. b = (adv bdo ^^ n) ?a" and "k \<in> set (map sprint krs)" for b k
  proof -
    from that(1) obtain n where n: "b = (adv bdo ^^ n) ?a" by blast
    then obtain m cs where "scan_key (beside bdo) clk b k = Done ((adv bdo ^^ m) b, cs)" "unchanged bdo keeps rp k \<longrightarrow> cs = key_cmds rp k"
      using scan_key_live [OF assms(1) safe_advs(1) [OF safe, of n], of clk k rp] by blast
    moreover have "(adv bdo ^^ m) b = (adv bdo ^^ (m + n)) ?a" by (simp add: n funpow_add)
    ultimately show ?thesis using assms(3) unfolding belongs_def by blast
  qed
  have here: "\<exists>n. ?a = (adv bdo ^^ n) ?a" by (intro exI [of _ 0]) simp
  have "\<exists>b' out rest cs. snap_keys (beside bdo) clk (accepting g) ?a s batch (map sprint krs) = Done (b', foldl g s out, rest, None)
    \<and> (\<exists>n. b' = (adv bdo ^^ n) ?a) \<and> concat out @ rest = batch @ concat cs \<and> list_all2 (belongs rp ks) (map sprint krs) cs
    \<and> full_batches out \<and> length rest < batch_size"
    by (rule snap_keys_run [where P = "\<lambda>b. \<exists>n. b = (adv bdo ^^ n) ?a"]) (fact key here assms(4))+
  then obtain b' out rest cs n where keys: "snap_keys (beside bdo) clk (accepting g) ?a s batch (map sprint krs) = Done (b', foldl g s out, rest, None)"
    "b' = (adv bdo ^^ n) ?a" "concat out @ rest = batch @ concat cs" "list_all2 (belongs rp ks) (map sprint krs) cs"
    "full_batches out" "length rest < batch_size" by (elim exE conjE) (rule that)
  have b': "b' = (adv bdo ^^ Suc n) st" by (simp add: keys(2) funpow_swap1)
  note step = snap_shard.simps [of "beside bdo" clk "accepting g" c st s batch]
  show ?thesis
  proof (cases "cursor_of (sprint nc) = 0")
    case True
    then have "snap_shard (beside bdo) clk (accepting g) c st s batch = Some (Done ((adv bdo ^^ Suc n) st, foldl g s out, rest, None))"
      unfolding step using scan(2) keys(1) b' by simp
    with scan_iter.last_page [of bdo "fst ?a" c nc krs keeps, OF scan(1) True] keys(3,4,6) show ?thesis
      unfolding shard_sent_def by (intro exI [of _ "Suc n"] exI [of _ "[map sprint krs]"] exI [of _ out] exI [of _ rest] exI [of _ cs]) simp
  next
    case False
    let ?st = "(adv bdo ^^ Suc n) st"
    have eq: "snap_shard (beside bdo) clk (accepting g) c st s batch = snap_shard (beside bdo) clk (accepting g) (cursor_of (sprint nc)) ?st (foldl g s out) rest"
      unfolding step using scan(2) keys(1) b' False by simp
    from rec [OF scan(1) False keys(6), of n "foldl g s out"] obtain m pages out2 rest2 cs2 where
      r: "snap_shard (beside bdo) clk (accepting g) (cursor_of (sprint nc)) ?st (foldl g s out) rest = Some (Done ((adv bdo ^^ m) ?st, foldl g (foldl g s out) out2, rest2, None))"
      "concat out2 @ rest2 = rest @ concat cs2" "list_all2 (belongs rp ks) (concat pages) cs2" "length rest2 < batch_size"
      "scan_iter bdo keeps (cursor_of (sprint nc)) (fst (adv bdo ?st)) pages" unfolding shard_sent_def by blast
    have "adv bdo ?st = (adv bdo ^^ Suc n) ?a" by (simp add: funpow_swap1)
    then have "(moves bdo keeps)\<^sup>*\<^sup>* (fst ?a) (fst (adv bdo ?st))" using safe_advs(2) [OF safe] by metis
    from scan_iter.next_page [OF scan(1) False this r(5)] have it: "scan_iter bdo keeps c (fst ?a) (map sprint krs # pages)" .
    have st: "(adv bdo ^^ m) ?st = (adv bdo ^^ (m + Suc n)) st" by (simp only: funpow_add o_apply)
    have "concat (out @ out2) @ rest2 = batch @ concat (cs @ cs2)" using r(2) keys(3) by (metis append_assoc concat_append)
    moreover have "list_all2 (belongs rp ks) (concat (map sprint krs # pages)) (cs @ cs2)" using keys(4) r(3) by (simp add: list_all2_appendI)
    ultimately show ?thesis using r(1,4) it st unfolding shard_sent_def eq
      by (intro exI [of _ "m + Suc n"] exI [of _ "map sprint krs # pages"] exI [of _ "out @ out2"] exI [of _ rest2] exI [of _ "cs @ cs2"]) simp
  qed
qed

lemma adv_length: "length (snd ((adv bdo ^^ n) st)) = length (snd st) - n"
  by (induction n) (simp_all add: adv_def)

text \<open>When nobody else is left the iteration ends; until then every command uses up some of the schedule.\<close>

lemma snap_shard_quiet:
  assumes "reads_ok bdo" and "\<forall>k \<in> ks. unchanged bdo keeps rp k" and "keeps b" and "scan_pages bdo b c pages" and "length batch < batch_size"
  shows "shard_sent bdo keeps rp ks g c (b, []) s batch (snap_shard (beside bdo) clk (accepting g) c (b, []) s batch)"
  using assms(4,5)
proof (induction pages arbitrary: c s batch)
  case (Cons p pages)
  have still: "(adv bdo ^^ n) (b, []) = (b, [])" for n by (induction n) (simp_all add: adv_def)
  have a: "adv bdo (b, []) = (b, [])" using still [of 1] by simp
  show ?case
  proof (rule snap_shard_step [OF assms(1) _ assms(2) Cons.prems(2)])
    show "safe_st bdo keeps (b, [])" using assms(3) by (simp add: safe_st_def)
    fix n nc krs s and rest :: "bytes list list"
    assume "bdo (fst (adv bdo (b, []))) (scan_cmd c) = (fst (adv bdo (b, [])), Inr (RpArr [nc, RpArr krs]))" "cursor_of (sprint nc) \<noteq> 0"
      and len: "length rest < batch_size"
    then have "scan_pages bdo b (cursor_of (sprint nc)) pages" using Cons.prems(1) by (simp add: a)
    from Cons.IH [OF this len, of s] show "shard_sent bdo keeps rp ks g (cursor_of (sprint nc)) ((adv bdo ^^ Suc n) (b, [])) s rest
        (snap_shard (beside bdo) clk (accepting g) (cursor_of (sprint nc)) ((adv bdo ^^ Suc n) (b, [])) s rest)" unfolding still .
  qed
qed simp

lemma snap_shard_live:
  assumes "reads_ok bdo" and "\<forall>k \<in> ks. unchanged bdo keeps rp k" and "safe_st bdo keeps st" and "length batch < batch_size"
  shows "shard_sent bdo keeps rp ks g c st s batch (snap_shard (beside bdo) clk (accepting g) c st s batch)"
  using assms(3,4)
proof (induction "length (snd st)" arbitrary: c st s batch rule: less_induct)
  case less
  show ?case
  proof (cases "snd st = []")
    case True
    obtain pages where "scan_pages bdo (fst st) c pages" using reads_pages [OF assms(1)] by blast
    with snap_shard_quiet [OF assms(1,2) _ this less.prems(2)] less.prems(1) True show ?thesis
      by (cases st) (simp add: safe_st_def)
  next
    case False
    show ?thesis
    proof (rule snap_shard_step [OF assms(1) less.prems(1) assms(2) less.prems(2)])
      fix n nc krs s and rest :: "bytes list list"
      assume len: "length rest < batch_size"
      have "length (snd ((adv bdo ^^ Suc n) st)) < length (snd st)" using False unfolding adv_length by simp
      from less.hyps [OF this safe_advs(1) [OF less.prems(1)] len]
      show "shard_sent bdo keeps rp ks g (cursor_of (sprint nc)) ((adv bdo ^^ Suc n) st) s rest
        (snap_shard (beside bdo) clk (accepting g) (cursor_of (sprint nc)) ((adv bdo ^^ Suc n) st) s rest)" .
    qed
  qed
qed

section \<open>Properties\<close>

lemma list_all2_splits:
  assumes "list_all2 R ks cs" and "k \<in> set ks"
  shows "\<exists>xs c ys. concat cs = xs @ c @ ys \<and> R k c"
proof -
  obtain i where i: "i < length ks" "ks ! i = k" using assms(2) by (auto simp: in_set_conv_nth)
  then have "i < length cs" "R k (cs ! i)" using assms(1) by (auto simp: list_all2_conv_all_nth)
  moreover have "concat cs = concat (take i cs) @ cs ! i @ concat (drop (Suc i) cs)"
    using id_take_nth_drop [OF \<open>i < length cs\<close>] by (metis concat.simps(2) concat_append)
  ultimately show ?thesis by blast
qed


text \<open>A server with a counter that others increment and one string that nobody touches.\<close>

definition demo_busy :: "int \<Rightarrow> bytes list \<Rightarrow> int \<times> (go_error + reply)" where
  "demo_busy n as =
     (if hd as = ''INCR'' then (n + 1, Inr (RpInt (n + 1)))
      else (n, Inr (
        if hd as = ''SCAN'' then RpArr [RpStr (format_uint 0), RpArr [RpStr ''n'', RpStr ''k'']]
        else if hd as = ''TYPE'' then RpStr ''string''
        else if hd as = ''PTTL'' then RpInt (-1)
        else if as = [''GET'', ''k''] then RpStr ''v''
        else RpNil)))"

definition demo_busy_env :: "(int, unit, unit) env" where
  "demo_busy_env = \<lparr>ev_do = demo_busy, ev_forward = \<lambda>f u c. (u, Inr RpNil), ev_codec = wire, ev_upper = \<lambda>s. s,
     ev_quote = \<lambda>s. s, ev_wal_text = \<lambda>_. []\<rparr>"

lemma demo_busy_scan: "demo_busy b (scan_cmd c) = (b, Inr (RpArr [RpStr (format_uint 0), RpArr [RpStr ''n'', RpStr ''k'']]))"
  by (simp add: demo_busy_def)

lemma demo_busy_reads: "reads_ok demo_busy"
proof -
  have "cursor_of (format_uint 0) = 0" by (simp add: cursor_of_def parse_uint_format)
  then have "\<exists>pages. scan_pages demo_busy b c pages" for b c
    by (intro exI [of _ "[[''n'', ''k'']]"]) (simp add: demo_busy_scan)
  moreover have "fst (demo_busy b q) = b" if "q \<in> set (queries k)" for b q k using that by (auto simp: queries_def demo_busy_def)
  ultimately show ?thesis unfolding reads_ok_def by (simp add: demo_busy_def)
qed

lemma demo_busy_complete: "scan_complete demo_busy keeps {''k''}"
proof -
  have "''k'' \<in> set (concat pages)" if "scan_iter demo_busy keeps c b pages" for c b pages
    using that by cases (simp_all only: demo_busy_scan prod.inject sum.inject reply.inject list.inject, auto)
  then show ?thesis by (simp add: scan_complete_def)
qed


end
