(* ===== verification/Concurrency.thy ===== *)
theory Concurrency
  imports Dispatch
begin

text \<open>
  Concurrent use of one dispatcher (\<open>internal/proxy/dispatch.go\<close>): client connections, the
  \<open>Forward\<close> calls of downstream nodes and the follower's replay run in goroutines of their own and
  share the log and the backend. \<open>writeMu\<close> is held by the write branch of \<open>Dispatch\<close> around
  \<open>dispatchWrite\<close> and by \<open>DispatchWrite\<close>; \<open>do\<close> on the read branch and \<open>Apply\<close> do not take it.
  A step is what is atomic: taking or releasing the mutex, one \<open>WAL.Append\<close> (which holds the
  log's own mutex) or one command on the backend.
\<close>

section \<open>Threads\<close>

datatype task =
    LocalWrite command
  | ForwardedWrite "bytes list"
  | LocalRead "bytes list"
  | Replay walentry

type_synonym result = "go_error + reply"

text \<open>Where a goroutine stands; \<open>Logging\<close> keeps what is still to be appended.\<close>

datatype pc =
    Ready task
  | Logging task int "bytes list list"
  | Unlocking result
  | Finished result
  | Replaying walentry
  | Replayed "go_error option"

record ('b, 'f) conc =
  cs_disp :: "('b, 'f) dispatcher"
  cs_lock :: "nat option"
  cs_pc :: "nat \<Rightarrow> pc"
  cs_hist :: "(nat \<times> task \<times> int \<times> result) list"

definition conc_start :: "('b, 'f) dispatcher \<Rightarrow> (nat \<Rightarrow> task) \<Rightarrow> ('b, 'f) conc" where
  "conc_start d tasks = \<lparr>cs_disp = d, cs_lock = None, cs_pc = (\<lambda>i. Ready (tasks i)), cs_hist = []\<rparr>"

text \<open>What a write appends, and what it then does on the backend.\<close>

definition log_entries :: "('b, 'f, 'u) env \<Rightarrow> int \<Rightarrow> ('b, 'f) dispatcher \<Rightarrow> task \<Rightarrow> bytes list list outcome" where
  "log_entries ev now d t =
     (if dp_wal d = None then Done []
      else case t of
        LocalWrite c \<Rightarrow> normalize_expiry (ev_upper ev) (cmd_args c) now
      | ForwardedWrite as \<Rightarrow> Done [as]
      | _ \<Rightarrow> Done [])"

definition execute :: "('b, 'f, 'u) env \<Rightarrow> ('b, 'f) dispatcher \<Rightarrow> task \<Rightarrow> ('b, 'f) dispatcher \<times> result" where
  "execute ev d t =
     (case t of
        LocalWrite c \<Rightarrow> do_local ev d (cmd_args c)
      | LocalRead as \<Rightarrow> do_local ev d as
      | ForwardedWrite as \<Rightarrow>
          (case dp_backend d of
             None \<Rightarrow> (d, Inr (RpStr ''OK''))
           | Some b \<Rightarrow> (case ev_do ev b as of (b', r) \<Rightarrow> (d\<lparr>dp_backend := Some b'\<rparr>, r)))
      | Replay e \<Rightarrow> (d, Inr RpNil))"

definition is_write :: "task \<Rightarrow> bool" where
  "is_write t \<longleftrightarrow> (case t of LocalWrite _ \<Rightarrow> True | ForwardedWrite _ \<Rightarrow> True | _ \<Rightarrow> False)"

text \<open>\<open>cs_hist\<close> records each write and read when it takes effect, with its reply.\<close>

inductive conc_step :: "('b, 'f, 'u) env \<Rightarrow> ('b, 'f) conc \<Rightarrow> ('b, 'f) conc \<Rightarrow> bool" for ev where
  acquire: "cs_pc s i = Ready t \<Longrightarrow> is_write t \<Longrightarrow> cs_lock s = None \<Longrightarrow> log_entries ev now (cs_disp s) t = Done es \<Longrightarrow>
    conc_step ev s (s\<lparr>cs_lock := Some i, cs_pc := (cs_pc s)(i := Logging t now es)\<rparr>)"
| append_ok: "cs_pc s i = Logging t now (as # es) \<Longrightarrow> dp_wal (cs_disp s) = Some dw \<Longrightarrow>
    wal_append (ev_codec ev) dw \<lparr>seq_id = 0, args = as, timestamp_ms = now\<rparr> = (dw', e', Inr sq) \<Longrightarrow>
    conc_step ev s (s\<lparr>cs_disp := (cs_disp s)\<lparr>dp_wal := Some dw'\<rparr>, cs_pc := (cs_pc s)(i := Logging t now es)\<rparr>)"
| append_fails: "cs_pc s i = Logging t now (as # es) \<Longrightarrow> dp_wal (cs_disp s) = Some dw \<Longrightarrow>
    wal_append (ev_codec ev) dw \<lparr>seq_id = 0, args = as, timestamp_ms = now\<rparr> = (dw', e', Inl x) \<Longrightarrow>
    r = Inl (wal_append_error ev x) \<Longrightarrow>
    conc_step ev s (s\<lparr>cs_disp := (cs_disp s)\<lparr>dp_wal := Some dw'\<rparr>, cs_pc := (cs_pc s)(i := Unlocking r),
      cs_hist := cs_hist s @ [(i, t, now, r)]\<rparr>)"
| write_exec: "cs_pc s i = Logging t now [] \<Longrightarrow> execute ev (cs_disp s) t = (d', r) \<Longrightarrow>
    conc_step ev s (s\<lparr>cs_disp := d', cs_pc := (cs_pc s)(i := Unlocking r), cs_hist := cs_hist s @ [(i, t, now, r)]\<rparr>)"
| unlock: "cs_pc s i = Unlocking r \<Longrightarrow>
    conc_step ev s (s\<lparr>cs_lock := None, cs_pc := (cs_pc s)(i := Finished r)\<rparr>)"
| read: "cs_pc s i = Ready (LocalRead as) \<Longrightarrow> execute ev (cs_disp s) (LocalRead as) = (d', r) \<Longrightarrow>
    conc_step ev s (s\<lparr>cs_disp := d', cs_pc := (cs_pc s)(i := Finished r), cs_hist := cs_hist s @ [(i, LocalRead as, now, r)]\<rparr>)"
| replay_log: "cs_pc s i = Ready (Replay e) \<Longrightarrow> dp_relay (cs_disp s) \<Longrightarrow> dp_wal (cs_disp s) = Some dw \<Longrightarrow>
    wal_append (ev_codec ev) dw e = (dw', e', Inr sq) \<Longrightarrow>
    conc_step ev s (s\<lparr>cs_disp := (cs_disp s)\<lparr>dp_wal := Some dw'\<rparr>, cs_pc := (cs_pc s)(i := Replaying e')\<rparr>)"
| replay_log_fails: "cs_pc s i = Ready (Replay e) \<Longrightarrow> dp_relay (cs_disp s) \<Longrightarrow> dp_wal (cs_disp s) = Some dw \<Longrightarrow>
    wal_append (ev_codec ev) dw e = (dw', e', Inl x) \<Longrightarrow>
    conc_step ev s (s\<lparr>cs_disp := (cs_disp s)\<lparr>dp_wal := Some dw'\<rparr>, cs_pc := (cs_pc s)(i := Replayed (Some (GoErr (ev_wal_text ev x))))\<rparr>)"
| replay_plain: "cs_pc s i = Ready (Replay e) \<Longrightarrow> \<not> dp_relay (cs_disp s) \<Longrightarrow>
    conc_step ev s (s\<lparr>cs_pc := (cs_pc s)(i := Replaying e)\<rparr>)"
| replay_none: "cs_pc s i = Replaying e \<Longrightarrow> dp_backend (cs_disp s) = None \<Longrightarrow>
    conc_step ev s (s\<lparr>cs_pc := (cs_pc s)(i := Replayed None)\<rparr>)"
| replay_exec: "cs_pc s i = Replaying e \<Longrightarrow> dp_backend (cs_disp s) \<noteq> None \<Longrightarrow> exec_args ev (cs_disp s) (args e) = (d', x) \<Longrightarrow>
    conc_step ev s (s\<lparr>cs_disp := d', cs_pc := (cs_pc s)(i := Replayed x)\<rparr>)"

section \<open>The sequential program\<close>

text \<open>The tasks as the functions of the dispatcher, one call after the other.\<close>

definition perform :: "('b, 'f, 'u) env \<Rightarrow> int \<Rightarrow> task \<Rightarrow> ('b, 'f) dispatcher \<Rightarrow> (('b, 'f) dispatcher \<times> result) outcome" where
  "perform ev now t d =
     (case t of
        LocalWrite c \<Rightarrow> dispatch_local_write ev now d c
      | ForwardedWrite as \<Rightarrow> Done (dispatch_write ev now d as)
      | LocalRead as \<Rightarrow> Done (do_local ev d as)
      | Replay e \<Rightarrow> bind_outcome (apply_entry ev d e) (\<lambda>(d', e', x). Done (d', case x of None \<Rightarrow> Inr RpNil | Some y \<Rightarrow> Inl y)))"

fun seq_run :: "('b, 'f, 'u) env \<Rightarrow> ('b, 'f) dispatcher \<Rightarrow> (nat \<times> task \<times> int \<times> result) list \<Rightarrow> ('b, 'f) dispatcher option" where
  "seq_run ev d [] = Some d"
| "seq_run ev d ((i, t, now, r) # h) =
     (case perform ev now t d of
        Panic m \<Rightarrow> None
      | Done (d', r') \<Rightarrow> if r' = r then seq_run ev d' h else None)"

lemma seq_run_snoc:
  "seq_run ev d (h @ [(i, t, now, r)]) =
     (case seq_run ev d h of None \<Rightarrow> None | Some ds \<Rightarrow> (case perform ev now t ds of Done (d', r') \<Rightarrow> if r' = r then Some d' else None | Panic m \<Rightarrow> None))"
  by (induction ev d h rule: seq_run.induct) (auto split: outcome.splits)

lemma perform_write:
  assumes "is_write t"
  shows "perform ev now t d = bind_outcome (log_entries ev now d t) (\<lambda>es.
     case dp_wal d of
       None \<Rightarrow> Done (execute ev d t)
     | Some dw \<Rightarrow>
         (case append_entries (ev_codec ev) now dw es of
            (dw', Some x) \<Rightarrow> Done (d\<lparr>dp_wal := Some dw'\<rparr>, Inl (wal_append_error ev x))
          | (dw', None) \<Rightarrow> Done (execute ev (d\<lparr>dp_wal := Some dw'\<rparr>) t)))"
proof (cases t)
  case (LocalWrite c)
  then show ?thesis by (simp add: perform_def log_entries_def execute_def dispatch_local_write_def split: option.splits)
next
  case (ForwardedWrite as)
  then show ?thesis
    by (auto simp: perform_def log_entries_def execute_def dispatch_write_def split: option.splits prod.splits sum.splits)
qed (use assms in \<open>simp_all add: is_write_def\<close>)

lemma do_local_wal: "do_local ev (d\<lparr>dp_wal := w\<rparr>) as = ((fst (do_local ev d as))\<lparr>dp_wal := w\<rparr>, snd (do_local ev d as))"
  by (simp add: do_local_def split: option.splits prod.splits)

lemma do_local_dp_wal: "dp_wal (fst (do_local ev d as)) = dp_wal d"
  by (simp add: do_local_def split: option.splits prod.splits)

section \<open>Serialisation\<close>

text \<open>
  A write between its appends, against the state \<open>ds\<close> in which it has not begun: only the log
  differs, and what is still to be appended leads to the same log.
\<close>

definition midway :: "('b, 'f, 'u) env \<Rightarrow> int \<Rightarrow> task \<Rightarrow> bytes list list \<Rightarrow> ('b, 'f) dispatcher \<Rightarrow> ('b, 'f) dispatcher \<Rightarrow> bool" where
  "midway ev now t es ds d \<longleftrightarrow> is_write t \<and>
     (case dp_wal ds of
        None \<Rightarrow> es = [] \<and> d = ds
      | Some dw \<Rightarrow> (\<exists>whole dw'. log_entries ev now ds t = Done whole \<and> d = ds\<lparr>dp_wal := Some dw'\<rparr>
          \<and> append_entries (ev_codec ev) now dw whole = append_entries (ev_codec ev) now dw' es))"

definition in_section :: "pc \<Rightarrow> bool" where
  "in_section p \<longleftrightarrow> (case p of Logging _ _ _ \<Rightarrow> True | Unlocking _ \<Rightarrow> True | _ \<Rightarrow> False)"

definition agrees_with :: "('b, 'f, 'u) env \<Rightarrow> ('b, 'f) conc \<Rightarrow> ('b, 'f) dispatcher \<Rightarrow> bool" where
  "agrees_with ev s ds \<longleftrightarrow>
     (case cs_lock s of
        None \<Rightarrow> cs_disp s = ds
      | Some i \<Rightarrow> (case cs_pc s i of Logging t now es \<Rightarrow> midway ev now t es ds (cs_disp s) | _ \<Rightarrow> cs_disp s = ds))"

definition owns :: "('b, 'f) conc \<Rightarrow> bool" where
  "owns s \<longleftrightarrow> (\<forall>i. in_section (cs_pc s i) \<longleftrightarrow> cs_lock s = Some i)"

lemma owns_unique: "owns s \<Longrightarrow> in_section (cs_pc s i) \<Longrightarrow> cs_lock s = Some i"
  by (simp add: owns_def)

lemma in_section_simps [simp]:
  "in_section (Logging t now es)" "in_section (Unlocking r)" "\<not> in_section (Ready t)" "\<not> in_section (Finished r)"
  "\<not> in_section (Replaying e)" "\<not> in_section (Replayed x)"
  by (simp_all add: in_section_def)

definition no_replay :: "pc \<Rightarrow> bool" where
  "no_replay p \<longleftrightarrow> (case p of Ready (Replay e) \<Rightarrow> False | Replaying e \<Rightarrow> False | Replayed x \<Rightarrow> False | _ \<Rightarrow> True)"

lemma no_replay_simps:
  "\<not> no_replay (Ready (Replay e))" "\<not> no_replay (Replaying e)" "\<not> no_replay (Replayed x)"
  by (simp_all add: no_replay_def)

lemma midwayI:
  "is_write t \<Longrightarrow> dp_wal ds = Some dw \<Longrightarrow> log_entries ev now ds t = Done whole \<Longrightarrow> d = ds\<lparr>dp_wal := Some dw'\<rparr> \<Longrightarrow>
     append_entries (ev_codec ev) now dw whole = append_entries (ev_codec ev) now dw' es \<Longrightarrow> midway ev now t es ds d"
  unfolding midway_def by (simp del: split_paired_Ex) blast

lemma midway_start:
  assumes "is_write t" and "log_entries ev now ds t = Done es"
  shows "midway ev now t es ds ds"
proof (cases "dp_wal ds")
  case None
  with assms show ?thesis by (simp add: midway_def log_entries_def)
next
  case (Some dw)
  then show ?thesis by (intro midwayI [OF assms(1) Some assms(2), of _ dw]) simp_all
qed

lemma midway_append:
  assumes "midway ev now t (as # es) ds d" and "dp_wal d = Some dw"
    and "wal_append (ev_codec ev) dw \<lparr>seq_id = 0, args = as, timestamp_ms = now\<rparr> = (dw', e', Inr sq)"
  shows "midway ev now t es ds (d\<lparr>dp_wal := Some dw'\<rparr>)"
proof -
  from assms(1,2) obtain dw0 whole where
    "is_write t" "dp_wal ds = Some dw0" "log_entries ev now ds t = Done whole" "d = ds\<lparr>dp_wal := Some dw\<rparr>"
    "append_entries (ev_codec ev) now dw0 whole = append_entries (ev_codec ev) now dw (as # es)"
    by (auto simp: midway_def split: option.splits)
  with assms(3) show ?thesis by (intro midwayI [of t ds dw0 ev now whole _ dw']) simp_all
qed

lemma midway_append_fails:
  assumes "midway ev now t (as # es) ds d" and "dp_wal d = Some dw"
    and "wal_append (ev_codec ev) dw \<lparr>seq_id = 0, args = as, timestamp_ms = now\<rparr> = (dw', e', Inl x)"
  shows "perform ev now t ds = Done (d\<lparr>dp_wal := Some dw'\<rparr>, Inl (wal_append_error ev x))"
proof -
  from assms obtain dw0 whole where
    "is_write t" "dp_wal ds = Some dw0" "log_entries ev now ds t = Done whole" "d = ds\<lparr>dp_wal := Some dw\<rparr>"
    "append_entries (ev_codec ev) now dw0 whole = append_entries (ev_codec ev) now dw (as # es)"
    by (auto simp: midway_def split: option.splits)
  with assms(3) show ?thesis by (simp add: perform_write)
qed

lemma midway_exec:
  assumes "midway ev now t [] ds d"
  shows "perform ev now t ds = Done (execute ev d t)"
  using assms by (auto simp: midway_def perform_write log_entries_def split: option.splits)

lemma midway_read:
  assumes "midway ev now t es ds d"
  shows "midway ev now t es (fst (do_local ev ds as)) (fst (do_local ev d as)) \<and> snd (do_local ev d as) = snd (do_local ev ds as)"
proof (cases "dp_wal ds")
  case None
  with assms show ?thesis by (auto simp: midway_def do_local_dp_wal)
next
  case (Some dw)
  with assms obtain whole dw' where m: "is_write t" "log_entries ev now ds t = Done whole" "d = ds\<lparr>dp_wal := Some dw'\<rparr>"
    "append_entries (ev_codec ev) now dw whole = append_entries (ev_codec ev) now dw' es" by (auto simp: midway_def)
  have "log_entries ev now (fst (do_local ev ds as)) t = Done whole"
    using m(2) by (simp add: log_entries_def do_local_dp_wal)
  then have "midway ev now t es (fst (do_local ev ds as)) (fst (do_local ev d as))"
    using m Some by (intro midwayI [of t _ dw ev now whole _ dw']) (simp_all add: do_local_wal do_local_dp_wal)
  then show ?thesis by (simp add: m(3) do_local_wal)
qed

inductive_cases conc_stepE: "conc_step ev s s'"

text \<open>Every goroutine is in the history once its command took effect, once, with its reply.\<close>

definition in_hist :: "(nat \<times> task \<times> int \<times> result) list \<Rightarrow> nat \<Rightarrow> task \<Rightarrow> result \<Rightarrow> bool" where
  "in_hist h i t r \<longleftrightarrow> (\<exists>now. (i, t, now, r) \<in> set h)"

definition slot :: "(nat \<times> task \<times> int \<times> result) list \<Rightarrow> nat \<Rightarrow> task \<Rightarrow> pc \<Rightarrow> bool" where
  "slot h i tk p \<longleftrightarrow>
     (case p of
        Ready t \<Rightarrow> t = tk \<and> i \<notin> fst ` set h
      | Logging t now es \<Rightarrow> t = tk \<and> i \<notin> fst ` set h
      | Unlocking r \<Rightarrow> in_hist h i tk r
      | Finished r \<Rightarrow> in_hist h i tk r
      | _ \<Rightarrow> False)"

definition booked :: "(nat \<Rightarrow> task) \<Rightarrow> ('b, 'f) conc \<Rightarrow> bool" where
  "booked tasks s \<longleftrightarrow> distinct (map fst (cs_hist s)) \<and> (\<forall>i. slot (cs_hist s) i (tasks i) (cs_pc s i))"

text \<open>The mutex excludes: whatever runs beside, one goroutine at most is between lock and unlock.\<close>

lemma owns_keep:
  "owns s \<Longrightarrow> in_section p = in_section (cs_pc s i) \<Longrightarrow> cs_pc s' = (cs_pc s)(i := p) \<Longrightarrow> cs_lock s' = cs_lock s \<Longrightarrow> owns s'"
  by (simp add: owns_def)

lemma owns_step:
  assumes "conc_step ev s s'" and "owns s"
  shows "owns s'"
  using assms(1)
proof cases
  case (acquire i t now es)
  with assms(2) show ?thesis by (simp add: owns_def)
next
  case (unlock i r)
  then show ?thesis using assms(2) owns_unique [OF assms(2), of i] by (simp add: owns_def)
qed (rule owns_keep [OF assms(2)], simp_all)+


lemma agrees_read:
  assumes "agrees_with ev s ds" and "do_local ev (cs_disp s) as = (d', r)" and "cs_lock s \<noteq> Some i"
    and "cs_lock s' = cs_lock s" and "cs_pc s' = (cs_pc s)(i := p)" and "cs_disp s' = d'"
  shows "snd (do_local ev ds as) = r \<and> agrees_with ev s' (fst (do_local ev ds as))"
proof (cases "cs_lock s")
  case None
  with assms show ?thesis by (simp add: agrees_with_def)
next
  case (Some j)
  have d': "d' = fst (do_local ev (cs_disp s) as)" "r = snd (do_local ev (cs_disp s) as)" using assms(2) by simp_all
  show ?thesis
  proof (cases "cs_pc s j")
    case (Logging t now es)
    then have "midway ev now t es ds (cs_disp s)" using assms(1) Some by (simp add: agrees_with_def)
    from midway_read [OF this, of as] show ?thesis using assms(3-6) Some Logging d' by (simp add: agrees_with_def)
  qed (use assms Some d' in \<open>auto simp: agrees_with_def split: pc.splits\<close>)
qed

lemma agrees_step:
  assumes "conc_step ev s s'" and "owns s" and "\<forall>i. no_replay (cs_pc s i)"
    and "seq_run ev d (cs_hist s) = Some ds" and "agrees_with ev s ds"
  shows "\<exists>ds'. seq_run ev d (cs_hist s') = Some ds' \<and> agrees_with ev s' ds'"
  using assms(1)
proof cases
  case (acquire i t now es)
  then have "cs_disp s = ds" using assms(5) by (simp add: agrees_with_def)
  then show ?thesis using acquire midway_start [OF acquire(3,5)] assms(4) by (auto simp: agrees_with_def)
next
  case (append_ok i t now as es dw dw' e' sq)
  have l: "cs_lock s = Some i" using owns_unique [OF assms(2), of i] append_ok(2) by simp
  then have "midway ev now t (as # es) ds (cs_disp s)" using assms(5) append_ok(2) by (simp add: agrees_with_def)
  from midway_append [OF this append_ok(3,4)] show ?thesis using l append_ok(1) assms(4) by (auto simp: agrees_with_def)
next
  case (append_fails i t now as es dw dw' e' x r)
  have l: "cs_lock s = Some i" using owns_unique [OF assms(2), of i] append_fails(2) by simp
  then have "midway ev now t (as # es) ds (cs_disp s)" using assms(5) append_fails(2) by (simp add: agrees_with_def)
  from midway_append_fails [OF this append_fails(3,4)] show ?thesis
    using l append_fails(1,5) assms(4) by (auto simp: agrees_with_def seq_run_snoc)
next
  case (write_exec i t now d' r)
  have l: "cs_lock s = Some i" using owns_unique [OF assms(2), of i] write_exec(2) by simp
  then have "midway ev now t [] ds (cs_disp s)" using assms(5) write_exec(2) by (simp add: agrees_with_def)
  from midway_exec [OF this] show ?thesis using l write_exec(1,3) assms(4) by (auto simp: agrees_with_def seq_run_snoc)
next
  case (unlock i r)
  have "cs_lock s = Some i" using owns_unique [OF assms(2), of i] unlock(2) by simp
  then show ?thesis using unlock assms(4,5) by (auto simp: agrees_with_def)
next
  case (read i as d' r now)
  have l: "cs_lock s \<noteq> Some i" using assms(2) read(2) by (metis in_section_simps(3) owns_def)
  have "do_local ev (cs_disp s) as = (d', r)" using read(3) by (simp add: execute_def)
  from agrees_read [OF assms(5) this l, of s' "Finished r"] show ?thesis using read(1) assms(4)
    by (cases "do_local ev ds as") (auto simp: seq_run_snoc perform_def)
qed (metis assms(3) no_replay_simps)+


lemma slot_other: "slot h j tk p \<Longrightarrow> j \<noteq> i \<Longrightarrow> slot (h @ [(i, t, now, r)]) j tk p"
  by (auto simp: slot_def in_hist_def split: pc.splits)

lemma booked_keep:
  assumes "booked tasks s" and "cs_hist s' = cs_hist s" and "cs_pc s' = (cs_pc s)(i := p)"
    and "slot (cs_hist s) i (tasks i) (cs_pc s i) \<Longrightarrow> slot (cs_hist s) i (tasks i) p"
  shows "booked tasks s'"
  using assms by (simp add: booked_def)

lemma booked_add:
  assumes "booked tasks s" and "cs_hist s' = cs_hist s @ [(i, t, now, r)]" and "cs_pc s' = (cs_pc s)(i := p)"
    and "cs_pc s i = Ready t \<or> (\<exists>n es. cs_pc s i = Logging t n es)" and "p = Unlocking r \<or> p = Finished r"
  shows "booked tasks s'"
proof -
  have "slot (cs_hist s) i (tasks i) (cs_pc s i)" using assms(1) by (simp add: booked_def)
  then have new: "i \<notin> fst ` set (cs_hist s)" "t = tasks i" using assms(4)
    by (elim disjE exE; simp add: slot_def)+
  have "slot (cs_hist s') i (tasks i) p" using assms(2,5) new(2) by (auto simp: slot_def in_hist_def)
  with assms(1-3) new(1) show ?thesis by (simp add: booked_def slot_other)
qed

lemma booked_step:
  assumes "conc_step ev s s'" and "booked tasks s" and "\<forall>i. no_replay (cs_pc s i)"
  shows "booked tasks s'"
  using assms(1)
proof cases
  case (append_fails i t now as es dw dw' e' x r)
  then show ?thesis by (intro booked_add [OF assms(2), of s' i t now r]) auto
next
  case (write_exec i t now d' r)
  then show ?thesis by (intro booked_add [OF assms(2), of s' i t now r]) auto
next
  case (read i as d' r now)
  then show ?thesis by (intro booked_add [OF assms(2), of s' i "LocalRead as" now r]) auto
next
  case (acquire i t now es)
  then show ?thesis by (intro booked_keep [OF assms(2), of s' i]) (auto simp: slot_def)
next
  case (append_ok i t now as es dw dw' e' sq)
  then show ?thesis by (intro booked_keep [OF assms(2), of s' i]) (auto simp: slot_def)
next
  case (unlock i r)
  then show ?thesis by (intro booked_keep [OF assms(2), of s' i]) (auto simp: slot_def)
qed (metis assms(3) no_replay_simps)+

lemma no_replay_step:
  assumes "conc_step ev s s'" and "\<forall>i. no_replay (cs_pc s i)"
  shows "\<forall>i. no_replay (cs_pc s' i)"
  using assms(1) by cases (use assms(2) in \<open>simp add: no_replay_def; fail | metis no_replay_simps\<close>)+

definition conc_inv :: "('b, 'f, 'u) env \<Rightarrow> ('b, 'f) dispatcher \<Rightarrow> (nat \<Rightarrow> task) \<Rightarrow> ('b, 'f) conc \<Rightarrow> bool" where
  "conc_inv ev d tasks s \<longleftrightarrow> owns s \<and> (\<forall>i. no_replay (cs_pc s i)) \<and> booked tasks s
     \<and> (\<exists>ds. seq_run ev d (cs_hist s) = Some ds \<and> agrees_with ev s ds)"

interpretation conc: invariant "conc_step ev" "conc_inv ev d tasks" for ev d tasks
proof
  fix s s'
  assume "conc_inv ev d tasks s" and "conc_step ev s s'"
  then show "conc_inv ev d tasks s'" unfolding conc_inv_def using owns_step no_replay_step booked_step agrees_step by metis
qed

lemma conc_invariant:
  assumes "(conc_step ev)\<^sup>*\<^sup>* (conc_start d tasks) s" and "\<forall>i e. tasks i \<noteq> Replay e"
  shows "owns s \<and> (\<forall>i. no_replay (cs_pc s i)) \<and> booked tasks s \<and> (\<exists>ds. seq_run ev d (cs_hist s) = Some ds \<and> agrees_with ev s ds)"
proof -
  have "conc_inv ev d tasks (conc_start d tasks)" using assms(2)
    by (auto simp: conc_inv_def conc_start_def owns_def no_replay_def booked_def slot_def agrees_with_def split: task.splits)
  from conc.inv_run [OF assms(1) this] show ?thesis by (simp add: conc_inv_def)
qed

section \<open>Progress\<close>

text \<open>A goroutine in the critical section gets to its end by itself, and releases the mutex.\<close>

definition completes :: "('b, 'f, 'u) env \<Rightarrow> nat \<Rightarrow> ('b, 'f) conc \<Rightarrow> bool" where
  "completes ev i s \<longleftrightarrow> (\<exists>s' r. (conc_step ev)\<^sup>*\<^sup>* s s' \<and> cs_pc s' = (cs_pc s)(i := Finished r) \<and> cs_lock s' = None)"

lemma completes_step:
  assumes "conc_step ev s s1" and "cs_pc s1 = (cs_pc s)(i := p)" and "completes ev i s1"
  shows "completes ev i s"
proof -
  from assms(3) obtain s' r where "(conc_step ev)\<^sup>*\<^sup>* s1 s'" "cs_pc s' = (cs_pc s1)(i := Finished r)" "cs_lock s' = None"
    unfolding completes_def by blast
  then show ?thesis using assms(2) converse_rtranclp_into_rtranclp [of "conc_step ev", OF assms(1)]
    unfolding completes_def by (intro exI [of _ s'] exI [of _ r]) simp
qed

lemma unlock_completes: "cs_pc s i = Unlocking r \<Longrightarrow> completes ev i s"
  unfolding completes_def by (intro exI conjI, rule r_into_rtranclp, erule conc_step.unlock) simp_all

lemma section_completes:
  assumes "cs_pc s i = Logging t now es" and "es = [] \<or> dp_wal (cs_disp s) \<noteq> None"
  shows "completes ev i s"
  using assms
proof (induction es arbitrary: s)
  case Nil
  obtain d' r where "execute ev (cs_disp s) t = (d', r)" by fastforce
  from conc_step.write_exec [OF Nil(1) this] show ?case
    by (rule completes_step) (simp, rule unlock_completes, simp)
next
  case (Cons as es)
  then obtain dw where dw: "dp_wal (cs_disp s) = Some dw" by auto
  obtain dw' e' x where ap: "wal_append (ev_codec ev) dw \<lparr>seq_id = 0, args = as, timestamp_ms = now\<rparr> = (dw', e', x)"
    using prod_cases3 by blast
  show ?case
  proof (cases x)
    case (Inl y)
    from conc_step.append_fails [OF Cons.prems(1) dw ap [unfolded Inl] refl] show ?thesis
      by (rule completes_step) (simp, rule unlock_completes, simp)
  next
    case (Inr sq)
    from conc_step.append_ok [OF Cons.prems(1) dw ap [unfolded Inr]] show ?thesis
      by (rule completes_step) (simp, rule Cons.IH, simp_all)
  qed
qed

text \<open>The mutex gets free.\<close>

lemma lock_released:
  assumes "owns s" and "agrees_with ev s ds"
  shows "\<exists>s'. (conc_step ev)\<^sup>*\<^sup>* s s' \<and> cs_lock s' = None \<and> (\<forall>i. \<not> in_section (cs_pc s i) \<longrightarrow> cs_pc s' i = cs_pc s i)"
proof (cases "cs_lock s")
  case (Some j)
  then have j: "in_section (cs_pc s j)" using assms(1) by (simp add: owns_def)
  then consider t now es where "cs_pc s j = Logging t now es" | r where "cs_pc s j = Unlocking r"
    by (auto simp: in_section_def split: pc.splits)
  then have "completes ev j s"
  proof cases
    case 1
    then have "midway ev now t es ds (cs_disp s)" using assms(2) Some by (simp add: agrees_with_def)
    then have "es = [] \<or> dp_wal (cs_disp s) \<noteq> None" by (auto simp: midway_def split: option.splits)
    from section_completes [OF 1 this] show ?thesis .
  next
    case 2
    from unlock_completes [OF 2] show ?thesis .
  qed
  then obtain s' r where "(conc_step ev)\<^sup>*\<^sup>* s s'" "cs_pc s' = (cs_pc s)(j := Finished r)" "cs_lock s' = None"
    unfolding completes_def by blast
  then show ?thesis using j by (intro exI [of _ s']) auto
qed blast

lemma ready_write_finishes:
  assumes "cs_pc s i = Ready t" and "is_write t" and "cs_lock s = None" and "\<And>d. \<exists>es. log_entries ev now d t = Done es"
  shows "completes ev i s"
proof -
  obtain es where es: "log_entries ev now (cs_disp s) t = Done es" using assms(4) by blast
  have "es = [] \<or> dp_wal (cs_disp s) \<noteq> None" using es by (auto simp: log_entries_def split: if_splits)
  then show ?thesis by (intro completes_step [OF conc_step.acquire [OF assms(1-3) es]], simp, intro section_completes) simp_all
qed

section \<open>Properties\<close>

text \<open>C5 writes_are_serialised. However client writes, forwarded writes and reads interleave on one
  dispatcher, the log, the backend and every reply are those of the calls made one after the
  other, in the order in which they took effect; each call appears in that order once. In
  particular the log has the writes in the order in which the backend executed them.\<close>

theorem writes_are_serialised:
  assumes "(conc_step ev)\<^sup>*\<^sup>* (conc_start d tasks) s" and "\<forall>i e. tasks i \<noteq> Replay e"
  shows "\<exists>d'. seq_run ev d (cs_hist s) = Some d' \<and> (cs_lock s = None \<longrightarrow> cs_disp s = d')
    \<and> distinct (map fst (cs_hist s))
    \<and> (\<forall>i r. cs_pc s i = Finished r \<longrightarrow> (\<exists>now. (i, tasks i, now, r) \<in> set (cs_hist s)))"
proof -
  from conc_invariant [OF assms] obtain ds where i: "booked tasks s" "seq_run ev d (cs_hist s) = Some ds" "agrees_with ev s ds"
    by blast
  have "\<exists>now. (i, tasks i, now, r) \<in> set (cs_hist s)" if "cs_pc s i = Finished r" for i r
  proof -
    have "slot (cs_hist s) i (tasks i) (cs_pc s i)" using i(1) by (simp add: booked_def)
    with that show ?thesis by (simp add: slot_def in_hist_def)
  qed
  with i show ?thesis by (auto simp: booked_def agrees_with_def)
qed

text \<open>In every state that concurrent writes and reads can reach, every write
  whose arguments can be normalised can still run to its end and get a reply.\<close>

theorem writers_never_deadlock:
  assumes "(conc_step ev)\<^sup>*\<^sup>* (conc_start d tasks) s" and "\<forall>i e. tasks i \<noteq> Replay e"
    and "is_write (tasks i)" and "\<And>d. \<exists>es. log_entries ev now d (tasks i) = Done es"
  shows "\<exists>s' r. (conc_step ev)\<^sup>*\<^sup>* s s' \<and> cs_pc s' i = Finished r"
proof -
  from conc_invariant [OF assms(1,2)] obtain ds where i: "owns s" "booked tasks s" "agrees_with ev s ds" by blast
  have sl: "slot (cs_hist s) i (tasks i) (cs_pc s i)" using i(2) by (simp add: booked_def)
  from lock_released [OF i(1,3)] obtain s1 where
    s1: "(conc_step ev)\<^sup>*\<^sup>* s s1" "cs_lock s1 = None" "\<forall>i. \<not> in_section (cs_pc s i) \<longrightarrow> cs_pc s1 i = cs_pc s i" by blast
  show ?thesis
  proof (cases "cs_pc s i")
    case (Ready t)
    with sl have "t = tasks i" by (simp add: slot_def)
    then have "completes ev i s1" using Ready s1(2,3) assms(3,4) by (intro ready_write_finishes [of s1 i "tasks i" ev now]) simp_all
    then show ?thesis using rtranclp_trans [of "conc_step ev", OF s1(1)] unfolding completes_def by fastforce
  next
    case (Logging t now' es)
    then have "midway ev now' t es ds (cs_disp s)" using i(3) owns_unique [OF i(1), of i] by (simp add: agrees_with_def)
    then have "es = [] \<or> dp_wal (cs_disp s) \<noteq> None" by (auto simp: midway_def split: option.splits)
    from section_completes [OF Logging this, of ev] show ?thesis unfolding completes_def by fastforce
  next
    case (Unlocking r)
    from unlock_completes [OF this, of ev] show ?thesis unfolding completes_def by fastforce
  qed (use sl in \<open>auto simp: slot_def\<close>)
qed

text \<open>C33 relay_replay_races. \<open>Apply\<close> appends and executes without \<open>writeMu\<close>, which is said to serialise
  the two. On a relay with a backend, a forwarded write can come between the append and the
  execution of a replayed entry: the log that goes to the nodes below has the entry first, the
  backend executes it last.\<close>

theorem relay_replay_races:
  assumes "dp_relay d" and "dp_wal d = Some (dk, w)" and "dp_backend d = Some b"
    and "codec_ok (ev_codec ev)" and "wal_log (ev_codec ev) (dk, w) es" and "disk_fine dk" and "wal_ready w"
    and "unat (wl_next w) + 2 < 2 ^ 64"
    and "\<And>x n. x \<in> {e, \<lparr>seq_id = 0, args = a, timestamp_ms = now\<rparr>} \<Longrightarrow> \<exists>y. pb_marshal (ev_codec ev) (x\<lparr>seq_id := n\<rparr>) = Inr y"
    and "ev_do ev b a = (b1, r)" and "ev_do ev b1 (args e) = (b2, Inr r2)"
  shows "\<exists>s dw ys. (conc_step ev)\<^sup>*\<^sup>* (conc_start d (\<lambda>i. if i = 0 then Replay e else ForwardedWrite a)) s
    \<and> cs_pc s 0 = Replayed None \<and> cs_pc s 1 = Finished r
    \<and> dp_wal (cs_disp s) = Some dw \<and> wal_log (ev_codec ev) dw (es @ ys) \<and> map args ys = [args e, a]
    \<and> dp_backend (cs_disp s) = Some b2"
proof -
  let ?x = "\<lparr>seq_id = 0, args = a, timestamp_ms = now\<rparr>" and ?cd = "ev_codec ev"
  let ?tasks = "\<lambda>i::nat. if i = 0 then Replay e else ForwardedWrite a"
  have "\<exists>y. pb_marshal ?cd (z\<lparr>seq_id := n\<rparr>) = Inr y" if "z \<in> set [e, ?x]" for z n using assms(9) [of z n] that by simp
  from appends_succeed [OF assms(6,7) this] obtain dw2 ys where ap: "appends (wal_append ?cd) (dk, w) [e, ?x] = Some (dw2, ys)" by blast
  then obtain dw1 e1 n1 e2 n2 where w: "wal_append ?cd (dk, w) e = (dw1, e1, Inr n1)" "wal_append ?cd dw1 ?x = (dw2, e2, Inr n2)" "ys = [e1, e2]"
    by (auto split: prod.splits sum.splits)
  have log: "wal_log ?cd dw2 (es @ ys)" "map args ys = [args e, a]"
    using ordered_log.appends_rep [OF wal_ordered_log [OF assms(4)] assms(5) ap] assms(8) by (simp_all add: next_seq_def)
  then have e1: "args e1 = args e" by (simp add: w(3))
  let ?d1 = "d\<lparr>dp_wal := Some dw1\<rparr>" and ?d2 = "d\<lparr>dp_wal := Some dw2\<rparr>" and ?d3 = "d\<lparr>dp_wal := Some dw2, dp_backend := Some b1\<rparr>"
    and ?d4 = "d\<lparr>dp_wal := Some dw2, dp_backend := Some b2\<rparr>" and ?h = "[(1::nat, ForwardedWrite a, now, r)]" and ?p = "\<lambda>i. Ready (?tasks i)"
  let ?s1 = "\<lparr>cs_disp = ?d1, cs_lock = None, cs_pc = ?p(0 := Replaying e1), cs_hist = []\<rparr>"
    and ?s2 = "\<lparr>cs_disp = ?d1, cs_lock = Some 1, cs_pc = ?p(0 := Replaying e1, 1 := Logging (ForwardedWrite a) now [a]), cs_hist = []\<rparr>"
    and ?s3 = "\<lparr>cs_disp = ?d2, cs_lock = Some 1, cs_pc = ?p(0 := Replaying e1, 1 := Logging (ForwardedWrite a) now []), cs_hist = []\<rparr>"
    and ?s4 = "\<lparr>cs_disp = ?d3, cs_lock = Some 1, cs_pc = ?p(0 := Replaying e1, 1 := Unlocking r), cs_hist = ?h\<rparr>"
    and ?s5 = "\<lparr>cs_disp = ?d3, cs_lock = None, cs_pc = ?p(0 := Replaying e1, 1 := Finished r), cs_hist = ?h\<rparr>"
    and ?s6 = "\<lparr>cs_disp = ?d4, cs_lock = None, cs_pc = ?p(1 := Finished r, 0 := Replayed None), cs_hist = ?h\<rparr>"
  have "conc_step ev (conc_start d ?tasks) ?s1"
    using conc_step.replay_log [of "conc_start d ?tasks" 0 e _ ev dw1 e1 n1] assms(1,2) w(1) by (simp add: conc_start_def)
  moreover have "conc_step ev ?s1 ?s2"
    using conc_step.acquire [of ?s1 1 "ForwardedWrite a" ev now "[a]"] by (simp add: is_write_def log_entries_def)
  moreover have "conc_step ev ?s2 ?s3"
    using conc_step.append_ok [of ?s2 1 "ForwardedWrite a" now a "[]" dw1 ev dw2 e2 n2] w(2) by simp
  moreover have "conc_step ev ?s3 ?s4"
    using conc_step.write_exec [of ?s3 1 "ForwardedWrite a" now ev ?d3 r] assms(3,10) by (simp add: execute_def)
  moreover have "conc_step ev ?s4 ?s5" using conc_step.unlock [of ?s4 1 r ev] by simp
  moreover have "conc_step ev ?s5 ?s6"
    using conc_step.replay_exec [of ?s5 0 e1 ev ?d4 None] assms(11) by (simp add: exec_args_def e1 fun_upd_twist)
  ultimately have "(conc_step ev)\<^sup>*\<^sup>* (conc_start d ?tasks) ?s6" by (meson rtranclp.rtrancl_into_rtrancl rtranclp.rtrancl_refl)
  with log show ?thesis by (intro exI [of _ ?s6] exI [of _ dw2] exI [of _ ys]) simp
qed

section \<open>Witnesses\<close>

text \<open>Two clients that write and one that reads.\<close>

definition demo_tasks :: "nat \<Rightarrow> task" where
  "demo_tasks i = (if i = 0 then LocalRead [''GET'', ''k''] else ForwardedWrite [''SET'', ''k'', ''v''])"

lemma demo_tasks_plain: "\<forall>i e. demo_tasks i \<noteq> Replay e"
  by (simp add: demo_tasks_def)

lemma demo_log_entries: "\<exists>es. log_entries demo_env 7 d (demo_tasks 1) = Done es"
  by (simp add: log_entries_def demo_tasks_def)

theorem writers_never_deadlock_witness:
  "\<exists>s r. (conc_step demo_env)\<^sup>*\<^sup>* (conc_start (nd_disp (demo_node True None)) demo_tasks) s \<and> cs_pc s 1 = Finished r"
  by (rule writers_never_deadlock [OF rtranclp.rtrancl_refl demo_tasks_plain _ demo_log_entries])
    (simp add: demo_tasks_def is_write_def)

theorem writes_are_serialised_witness:
  "\<exists>s. (conc_step demo_env)\<^sup>*\<^sup>* (conc_start (nd_disp (demo_node True None)) demo_tasks) s \<and> cs_lock s = None
     \<and> seq_run demo_env (nd_disp (demo_node True None)) (cs_hist s) = Some (cs_disp s) \<and> (\<exists>now r. (1, demo_tasks 1, now, r) \<in> set (cs_hist s))"
proof -
  have "completes demo_env 1 (conc_start (nd_disp (demo_node True None)) demo_tasks)"
    by (rule ready_write_finishes [OF _ _ _ demo_log_entries]) (simp_all add: conc_start_def demo_tasks_def is_write_def)
  then obtain s r where s: "(conc_step demo_env)\<^sup>*\<^sup>* (conc_start (nd_disp (demo_node True None)) demo_tasks) s" "cs_pc s 1 = Finished r" "cs_lock s = None"
    unfolding completes_def by auto
  from writes_are_serialised [OF s(1) demo_tasks_plain] s(2,3) show ?thesis using s(1) by blast
qed

theorem relay_replay_races_witness:
  "\<exists>s dw ys. (conc_step demo_env)\<^sup>*\<^sup>*
       (conc_start ((nd_disp (demo_node False None))\<lparr>dp_relay := True\<rparr>) (\<lambda>i. if i = 0 then Replay demo_entry else ForwardedWrite [''SET'', ''k'', ''v''])) s
     \<and> cs_pc s 0 = Replayed None \<and> cs_pc s 1 = Finished (Inr (RpStr ''OK'')) \<and> dp_wal (cs_disp s) = Some dw \<and> wal_log wire dw ys \<and> length ys = 2"
proof -
  let ?d = "(nd_disp (demo_node False None))\<lparr>dp_relay := True\<rparr>"
  have m: "\<exists>y. pb_marshal (ev_codec demo_env) (x\<lparr>seq_id := n\<rparr>) = Inr y"
    if "x \<in> {demo_entry, \<lparr>seq_id = 0, args = [''SET'', ''k'', ''v''], timestamp_ms = 7\<rparr>}" for x n
    using that demo_marshal [of n] by (auto simp: demo_entry_def)
  obtain s dw ys where "(conc_step demo_env)\<^sup>*\<^sup>* (conc_start ?d (\<lambda>i. if i = 0 then Replay demo_entry else ForwardedWrite [''SET'', ''k'', ''v''])) s"
    "cs_pc s 0 = Replayed None" "cs_pc s 1 = Finished (Inr (RpStr ''OK''))" "dp_wal (cs_disp s) = Some dw" "wal_log wire dw ys"
    "map args ys = [args demo_entry, [''SET'', ''k'', ''v'']]"
    using relay_replay_races [of ?d demo_disk "demo_wal 1" "[]" demo_env "[]" demo_entry "[''SET'', ''k'', ''v'']" 7
        "[[''SET'', ''k'', ''v'']]" "Inr (RpStr ''OK'')" "[[''SET'', ''k'', ''v''], args demo_entry]" "RpStr ''OK''"]
      m wire_ok demo_log(2) [of wire 1] by auto
  moreover from this(6) have "length ys = 2" by (metis length_map length_Cons list.size(3) numeral_2_eq_2)
  ultimately show ?thesis by (intro exI conjI)
qed

end
