(* ===== verification/Lifecycle.thy ===== *)
theory Lifecycle
  imports Concurrency
begin

text \<open>
  The end of \<open>run\<close> (\<open>cmd/meridian/main.go\<close>) while calls are in progress. On cancellation \<open>Serve\<close> waits for the client connections and
  returns (see \<open>Frontend\<close>), a goroutine of its own calls \<open>GracefulStop\<close> of the gRPC server, which nobody waits for; the deferred calls of
  \<open>run\<close> then close the backend's client, and the process exits with whatever is still running. When accepting a connection fails without
  cancellation, \<open>Serve\<close> returns at once. A command on a closed client returns an error of the library and reaches no server.
  The calls are those of \<open>Concurrency\<close>.
\<close>

section \<open>Stages\<close>

datatype stage = Working | Cancelled | Served | Closed | Exited

record ('b, 'f) life =
  lf_conc :: "('b, 'f) conc"
  lf_stage :: stage
  lf_drained :: bool
  lf_stopped :: bool

definition life_start :: "('b, 'f) dispatcher \<Rightarrow> (nat \<Rightarrow> task) \<Rightarrow> ('b, 'f) life" where
  "life_start d tasks = \<lparr>lf_conc = conc_start d tasks, lf_stage = Working, lf_drained = False, lf_stopped = False\<rparr>"

definition client_closed :: go_error where
  "client_closed = GoErr ''redis: client is closed''"

definition closed_env :: "('b, 'f, 'u) env \<Rightarrow> ('b, 'f, 'u) env" where
  "closed_env ev = ev\<lparr>ev_do := \<lambda>b as. (b, Inl client_closed)\<rparr>"

definition of_client :: "task \<Rightarrow> bool" where
  "of_client t \<longleftrightarrow> (case t of LocalWrite _ \<Rightarrow> True | LocalRead _ \<Rightarrow> True | _ \<Rightarrow> False)"

text \<open>Calls that can no longer begin: of clients after \<open>Serve\<close> has waited for them, of downstream nodes after the gRPC server has stopped.\<close>

definition halted :: "('b, 'f) life \<Rightarrow> task \<Rightarrow> bool" where
  "halted s t \<longleftrightarrow> (case t of ForwardedWrite _ \<Rightarrow> lf_stopped s | Replay _ \<Rightarrow> False | _ \<Rightarrow> lf_drained s)"

definition idle :: "pc \<Rightarrow> bool" where
  "idle p \<longleftrightarrow> (case p of Ready _ \<Rightarrow> True | Finished _ \<Rightarrow> True | _ \<Rightarrow> False)"

definition current_env :: "('b, 'f, 'u) env \<Rightarrow> ('b, 'f) life \<Rightarrow> ('b, 'f, 'u) env" where
  "current_env ev s = (if lf_stage s = Closed then closed_env ev else ev)"

inductive life_step :: "('b, 'f, 'u) env \<Rightarrow> (nat \<Rightarrow> task) \<Rightarrow> ('b, 'f) life \<Rightarrow> ('b, 'f) life \<Rightarrow> bool" for ev tasks where
  work: "lf_stage s \<noteq> Exited \<Longrightarrow> conc_step (current_env ev s) (lf_conc s) c \<Longrightarrow>
    \<forall>i t. cs_pc (lf_conc s) i = Ready t \<longrightarrow> halted s t \<longrightarrow> cs_pc c i = Ready t \<Longrightarrow>
    life_step ev tasks s (s\<lparr>lf_conc := c\<rparr>)"
| cancelled: "lf_stage s = Working \<Longrightarrow> life_step ev tasks s (s\<lparr>lf_stage := Cancelled\<rparr>)"
| stopped: "lf_stage s \<notin> {Working, Exited} \<Longrightarrow> life_step ev tasks s (s\<lparr>lf_stopped := True\<rparr>)"
| drained: "lf_stage s = Cancelled \<Longrightarrow> \<forall>i. of_client (tasks i) \<longrightarrow> idle (cs_pc (lf_conc s) i) \<Longrightarrow>
    life_step ev tasks s (s\<lparr>lf_stage := Served, lf_drained := True\<rparr>)"
| accept_failed: "lf_stage s = Working \<Longrightarrow> life_step ev tasks s (s\<lparr>lf_stage := Served\<rparr>)"
| closed: "lf_stage s = Served \<Longrightarrow> life_step ev tasks s (s\<lparr>lf_stage := Closed\<rparr>)"
| exited: "lf_stage s = Closed \<Longrightarrow> life_step ev tasks s (s\<lparr>lf_stage := Exited\<rparr>)"

section \<open>Calls of clients\<close>

lemma finished_stays: "conc_step ev s s' \<Longrightarrow> cs_pc s i = Finished r \<Longrightarrow> cs_pc s' i = Finished r"
  by (erule conc_stepE) (auto split: if_splits)

text \<open>
  As long as the backend is open the calls run as in \<open>Concurrency\<close>; a regular shutdown closes it when the calls of clients are
  where they will stay.
\<close>

definition life_inv :: "('b, 'f, 'u) env \<Rightarrow> (nat \<Rightarrow> task) \<Rightarrow> ('b, 'f) conc \<Rightarrow> ('b, 'f) life \<Rightarrow> bool" where
  "life_inv ev tasks c0 s \<longleftrightarrow>
     (\<exists>c. (conc_step ev)\<^sup>*\<^sup>* c0 c \<and> (lf_stage s \<notin> {Closed, Exited} \<longrightarrow> c = lf_conc s)
        \<and> (lf_drained s \<longrightarrow> (\<forall>i. of_client (tasks i) \<longrightarrow> cs_pc (lf_conc s) i = cs_pc c i \<and> idle (cs_pc c i)))
        \<and> (\<forall>i t. cs_pc c i = Ready t \<longrightarrow> t = tasks i))"

lemma ready_task: "conc_step ev s s' \<Longrightarrow> \<forall>i t. cs_pc s i = Ready t \<longrightarrow> t = tasks i \<Longrightarrow> cs_pc s' i = Ready t \<Longrightarrow> t = tasks i"
  by (erule conc_stepE) (auto split: if_splits)

interpretation life: invariant "life_step ev tasks" "life_inv ev tasks c0" for ev tasks c0
proof
  fix s s'
  assume inv: "life_inv ev tasks c0 s" and st: "life_step ev tasks s s'"
  from inv obtain c where c: "(conc_step ev)\<^sup>*\<^sup>* c0 c" "lf_stage s \<notin> {Closed, Exited} \<longrightarrow> c = lf_conc s"
    "lf_drained s \<longrightarrow> (\<forall>i. of_client (tasks i) \<longrightarrow> cs_pc (lf_conc s) i = cs_pc c i \<and> idle (cs_pc c i))"
    "\<forall>i t. cs_pc c i = Ready t \<longrightarrow> t = tasks i" unfolding life_inv_def by (elim exE conjE) (rule that)
  from st show "life_inv ev tasks c0 s'"
  proof cases
    case (work c')
    have keep: "cs_pc c' i = cs_pc (lf_conc s) i" if "lf_drained s" "of_client (tasks i)" for i
    proof -
      have id: "idle (cs_pc c i)" and eq: "cs_pc (lf_conc s) i = cs_pc c i" using c(3) that by blast+
      have tk: "cs_pc c i = Ready t \<Longrightarrow> t = tasks i" for t using c(4) by blast
      consider t where "cs_pc (lf_conc s) i = Ready t" "t = tasks i" | r where "cs_pc (lf_conc s) i = Finished r"
        using id tk unfolding eq by (cases "cs_pc c i") (simp_all add: idle_def)
      then show ?thesis
      proof cases
        case 1
        then have "halted s t" using that by (auto simp: halted_def of_client_def split: task.splits)
        with 1 work(4) show ?thesis by metis
      next
        case 2
        from finished_stays [OF work(3) this] 2 show ?thesis by simp
      qed
    qed
    show ?thesis
    proof (cases "lf_stage s = Closed")
      case True
      then show ?thesis using c keep work(1) unfolding life_inv_def by (intro exI [of _ c]) auto
    next
      case False
      then have "conc_step ev c c'" "c = lf_conc s" using work(2,3) c(2) by (auto simp: current_env_def)
      then show ?thesis using c keep work(1) ready_task unfolding life_inv_def
        by (intro exI [of _ c']) (auto intro: rtranclp.rtrancl_into_rtrancl)
    qed
  next
    case drained
    then show ?thesis using c unfolding life_inv_def by (intro exI [of _ c]) auto
  qed (use c in \<open>auto simp: life_inv_def\<close>)
qed

section \<open>Properties\<close>


text \<open>C35 shutdown_logs_unexecuted_write. A forwarded write is not waited for: a regular shutdown can close the backend after the write
  was logged and before it is executed. The node that forwarded it gets an error, the backend never executes it, and the entry
  stays in the log, from which every follower does.\<close>

theorem shutdown_logs_unexecuted_write:
  assumes "dp_wal d = Some (dk, w)" and "dp_backend d = Some b" and "tasks i = ForwardedWrite a"
    and "codec_ok (ev_codec ev)" and "wal_log (ev_codec ev) (dk, w) es" and "disk_fine dk" and "wal_ready w" and "unat (wl_next w) + 1 < 2 ^ 64"
    and "pb_marshal (ev_codec ev) \<lparr>seq_id = wl_next w, args = a, timestamp_ms = now\<rparr> = Inr bytes"
  shows "\<exists>s dw y. (life_step ev tasks)\<^sup>*\<^sup>* (life_start d tasks) s \<and> lf_stage s = Exited \<and> lf_drained s
    \<and> cs_pc (lf_conc s) i = Finished (Inl client_closed) \<and> dp_backend (cs_disp (lf_conc s)) = Some b
    \<and> dp_wal (cs_disp (lf_conc s)) = Some dw \<and> wal_log (ev_codec ev) dw (es @ [y]) \<and> args y = a"
proof -
  let ?x = "\<lparr>seq_id = 0, args = a, timestamp_ms = now\<rparr>" let ?y = "?x\<lparr>seq_id := wl_next w\<rparr>" let ?t = "ForwardedWrite a"
  obtain dk' w' where app: "wal_append (ev_codec ev) (dk, w) ?x = ((dk', w'), ?y, Inr (wl_next w))"
    using wal_append_succeeds [OF assms(6,7), of "ev_codec ev" ?x bytes] assms(9) by auto
  from ordered_log.app_rep [OF wal_ordered_log [OF assms(4)] assms(5) app] assms(8)
  have log: "wal_log (ev_codec ev) (dk', w') (es @ [?y])" by (simp add: next_seq_def)
  let ?p = "\<lambda>i. Ready (tasks i)" and ?d = "d\<lparr>dp_wal := Some (dk', w')\<rparr>" and ?r = "Inl client_closed :: result"
  define c1 where "c1 = \<lparr>cs_disp = d, cs_lock = Some i, cs_pc = ?p(i := Logging ?t now [a]), cs_hist = []\<rparr>"
  define c2 where "c2 = \<lparr>cs_disp = ?d, cs_lock = Some i, cs_pc = ?p(i := Logging ?t now []), cs_hist = []\<rparr>"
  define c3 where "c3 = \<lparr>cs_disp = ?d, cs_lock = Some i, cs_pc = ?p(i := Unlocking ?r), cs_hist = [(i, ?t, now, ?r)]\<rparr>"
  define c4 where "c4 = \<lparr>cs_disp = ?d, cs_lock = None, cs_pc = ?p(i := Finished ?r), cs_hist = [(i, ?t, now, ?r)]\<rparr>"
  let ?s = "\<lambda>c st dr. \<lparr>lf_conc = c, lf_stage = st, lf_drained = dr, lf_stopped = False\<rparr>"
  have 1: "conc_step ev (conc_start d tasks) c1"
    using conc_step.acquire [of "conc_start d tasks" i ?t ev now "[a]"] assms(1,3) by (simp add: c1_def conc_start_def is_write_def log_entries_def)
  have 2: "conc_step ev c1 c2"
    using conc_step.append_ok [of c1 i ?t now a "[]" "(dk, w)" ev "(dk', w')" ?y "wl_next w"] assms(1) app by (simp add: c1_def c2_def)
  have 3: "conc_step (closed_env ev) c2 c3"
    using conc_step.write_exec [of c2 i ?t now "closed_env ev" ?d ?r] assms(2) by (simp add: c2_def c3_def execute_def closed_env_def)
  have 4: "conc_step (closed_env ev) c3 c4" using conc_step.unlock [of c3 i ?r "closed_env ev"] by (simp add: c3_def c4_def)
  have pcs: "cs_pc c2 j = Ready t \<Longrightarrow> cs_pc c3 j = Ready t" "cs_pc c3 j = Ready t \<Longrightarrow> cs_pc c4 j = Ready t" for j t
    by (auto simp: c2_def c3_def c4_def split: if_splits)
  have "life_step ev tasks (life_start d tasks) (?s c1 Working False)"
    using life_step.work [of "life_start d tasks" ev c1 tasks] 1 by (simp add: life_start_def current_env_def halted_def split: task.splits)
  moreover have "life_step ev tasks (?s c1 Working False) (?s c2 Working False)"
    using life_step.work [of "?s c1 Working False" ev c2 tasks] 2 by (simp add: current_env_def halted_def split: task.splits)
  moreover have "life_step ev tasks (?s c2 Working False) (?s c2 Cancelled False)"
    using life_step.cancelled [of "?s c2 Working False" ev tasks] by simp
  moreover have "life_step ev tasks (?s c2 Cancelled False) (?s c2 Served True)"
    using life_step.drained [of "?s c2 Cancelled False" tasks ev] assms(3) by (simp add: c2_def idle_def of_client_def split: task.splits)
  moreover have "life_step ev tasks (?s c2 Served True) (?s c2 Closed True)"
    using life_step.closed [of "?s c2 Served True" ev tasks] by simp
  moreover have "life_step ev tasks (?s c2 Closed True) (?s c3 Closed True)"
    using life_step.work [of "?s c2 Closed True" ev c3 tasks] 3 pcs(1) by (simp add: current_env_def)
  moreover have "life_step ev tasks (?s c3 Closed True) (?s c4 Closed True)"
    using life_step.work [of "?s c3 Closed True" ev c4 tasks] 4 pcs(2) by (simp add: current_env_def)
  moreover have "life_step ev tasks (?s c4 Closed True) (?s c4 Exited True)"
    using life_step.exited [of "?s c4 Closed True" ev tasks] by simp
  ultimately have "(life_step ev tasks)\<^sup>*\<^sup>* (life_start d tasks) (?s c4 Exited True)"
    by (meson rtranclp.rtrancl_into_rtrancl rtranclp.rtrancl_refl)
  with log assms(2) show ?thesis
    by (intro exI [of _ "?s c4 Exited True"] exI [of _ "(dk', w')"] exI [of _ ?y]) (simp add: c4_def)
qed

lemma demo_shutdown:
  "\<exists>s. (life_step demo_env demo_tasks)\<^sup>*\<^sup>* (life_start (nd_disp (demo_node True None)) demo_tasks) s \<and> lf_drained s"
proof -
  let ?s0 = "life_start (nd_disp (demo_node True None)) demo_tasks"
  have "life_step demo_env demo_tasks ?s0 (?s0\<lparr>lf_stage := Cancelled\<rparr>)" by (rule life_step.cancelled) (simp add: life_start_def)
  moreover have "life_step demo_env demo_tasks (?s0\<lparr>lf_stage := Cancelled\<rparr>) (?s0\<lparr>lf_stage := Cancelled, lf_stage := Served, lf_drained := True\<rparr>)"
    by (rule life_step.drained) (simp_all add: life_start_def conc_start_def idle_def)
  ultimately have "(life_step demo_env demo_tasks)\<^sup>*\<^sup>* ?s0 (?s0\<lparr>lf_stage := Cancelled, lf_stage := Served, lf_drained := True\<rparr>)"
    by (meson rtranclp.rtrancl_into_rtrancl rtranclp.rtrancl_refl)
  then show ?thesis by (intro exI [of _ "?s0\<lparr>lf_stage := Cancelled, lf_stage := Served, lf_drained := True\<rparr>"]) simp
qed


theorem shutdown_logs_unexecuted_write_witness:
  "\<exists>s dw y. (life_step demo_env demo_tasks)\<^sup>*\<^sup>* (life_start (nd_disp (demo_node True None)) demo_tasks) s \<and> lf_stage s = Exited
     \<and> dp_backend (cs_disp (lf_conc s)) = Some [] \<and> dp_wal (cs_disp (lf_conc s)) = Some dw \<and> wal_log wire dw [y] \<and> args y = [''SET'', ''k'', ''v'']"
proof -
  obtain b where b: "pb_marshal wire \<lparr>seq_id = 1, args = [''SET'', ''k'', ''v''], timestamp_ms = 7\<rparr> = Inr b" using demo_marshal_args by blast
  obtain s dw y where "(life_step demo_env demo_tasks)\<^sup>*\<^sup>* (life_start (nd_disp (demo_node True None)) demo_tasks) s" "lf_stage s = Exited"
    "dp_backend (cs_disp (lf_conc s)) = Some []" "dp_wal (cs_disp (lf_conc s)) = Some dw" "wal_log wire dw [y]" "args y = [''SET'', ''k'', ''v'']"
    using shutdown_logs_unexecuted_write [of "nd_disp (demo_node True None)" demo_disk "demo_wal 1" "[]" demo_tasks 1 "[''SET'', ''k'', ''v'']" demo_env "[]" 7 b]
      b wire_ok demo_log(2) [of wire 1] by (auto simp: demo_tasks_def)
  then show ?thesis by (intro exI conjI)
qed

end
