(* ===== verification/Metrics.thy ===== *)
theory Metrics
  imports Prelude
begin

text \<open>
  Metrics, \<open>internal/metrics/metrics.go\<close>: the collectors of the struct \<open>Metrics\<close>, their
  registration by \<open>New\<close>, the recorder methods and the HTTP handler. The Prometheus client is
  not part of the repository. Its registry is an argument, \<^emph>\<open>must labels r ds\<close> for
  \<open>WrapRegistererWith(labels, r).MustRegister(c)\<close> where \<open>ds\<close> are the descriptors of the
  collector \<open>c\<close> and \<open>None\<close> is the panic; \<open>registry_documented\<close> is what its documentation
  says. A recorder method is the list of calls it makes on collectors; the arguments
  of these calls are kept as they are before the conversion to \<open>float64\<close>.
\<close>

section \<open>Collectors\<close>

datatype metric_kind = Gauge | Counter | Histogram

text \<open>Bucket options; the start of \<open>ExponentialBuckets\<close> is in microseconds.\<close>

datatype buckets = NoBuckets | DefBuckets | ExponentialBuckets nat nat nat

record metric_opts =
  mo_kind :: metric_kind
  mo_name :: string
  mo_help :: string
  mo_labels :: "string list"
  mo_buckets :: buckets

definition mk_opts :: "metric_kind \<Rightarrow> string \<Rightarrow> string \<Rightarrow> string list \<Rightarrow> buckets \<Rightarrow> metric_opts" where
  "mk_opts k n h ls b = \<lparr>mo_kind = k, mo_name = n, mo_help = h, mo_labels = ls, mo_buckets = b\<rparr>"

text \<open>The fields of the struct \<open>Metrics\<close>, and the options \<open>New\<close> creates each with.\<close>

datatype collector =
    RespConnections | RespConnectionsTotal | RespDispatches | RespDispatchLatency | RespErrors
    | WALAppendTotal | WALAppendLatency | WALCurrentSeq | WALSegmentCount | WALReadBatches
    | WALReadEntries | ReplicationSubscribers | ReplicationStreamBatches | ReplicationStreamEntries
    | ReplicationForwards | ReplicationAcks | ReplicationLagHighest | FollowerLag
    | FollowerEntriesApplied | FollowerBatchesApplied | FollowerReconnects | BackendRequests
    | BackendErrors | BackendLatency | BackendHealthy | ForwardRequests | ForwardErrors | ForwardLatency
    | FullSyncInProgress | FullSyncTotal | FullSyncDuration | Info | FollowerLastAckTime
    | WALOldestSegmentAge

fun collector_opts :: "collector \<Rightarrow> metric_opts" where
  "collector_opts RespConnections = mk_opts Gauge ''meridian_resp_connections'' ''Active RESP client connections.'' [] NoBuckets"
| "collector_opts RespConnectionsTotal = mk_opts Counter ''meridian_resp_connections_total'' ''Total RESP connections accepted.'' [] NoBuckets"
| "collector_opts RespDispatches = mk_opts Counter ''meridian_resp_dispatches_total'' ''Commands dispatched by route.'' [''route''] NoBuckets"
| "collector_opts RespDispatchLatency = mk_opts Histogram ''meridian_resp_dispatch_seconds'' ''Dispatch latency by route.'' [''route''] DefBuckets"
| "collector_opts RespErrors = mk_opts Counter ''meridian_resp_errors_total'' ''RESP-layer errors by kind.'' [''kind''] NoBuckets"
| "collector_opts WALAppendTotal = mk_opts Counter ''meridian_wal_append_total'' ''Total WAL entries appended.'' [] NoBuckets"
| "collector_opts WALAppendLatency = mk_opts Histogram ''meridian_wal_append_seconds'' ''WAL append latency.'' [] (ExponentialBuckets 100 2 12)"
| "collector_opts WALCurrentSeq = mk_opts Gauge ''meridian_wal_current_seq'' ''Current WAL sequence number.'' [] NoBuckets"
| "collector_opts WALSegmentCount = mk_opts Gauge ''meridian_wal_segment_count'' ''Number of WAL segments.'' [] NoBuckets"
| "collector_opts WALReadBatches = mk_opts Counter ''meridian_wal_read_batches_total'' ''WAL read batches served.'' [] NoBuckets"
| "collector_opts WALReadEntries = mk_opts Counter ''meridian_wal_read_entries_total'' ''WAL entries served to subscribers.'' [] NoBuckets"
| "collector_opts ReplicationSubscribers = mk_opts Gauge ''meridian_replication_subscribers'' ''Active gRPC subscribers.'' [] NoBuckets"
| "collector_opts ReplicationStreamBatches = mk_opts Counter ''meridian_replication_stream_batches_total'' ''SyncBatch messages sent.'' [] NoBuckets"
| "collector_opts ReplicationStreamEntries = mk_opts Counter ''meridian_replication_stream_entries_total'' ''WAL entries streamed.'' [] NoBuckets"
| "collector_opts ReplicationForwards = mk_opts Counter ''meridian_replication_forwards_total'' ''Forward gRPC requests received.'' [] NoBuckets"
| "collector_opts ReplicationAcks = mk_opts Counter ''meridian_replication_acks_total'' ''Ack gRPC requests received.'' [] NoBuckets"
| "collector_opts ReplicationLagHighest = mk_opts Gauge ''meridian_replication_lag_highest'' ''Highest replication lag across followers.'' [] NoBuckets"
| "collector_opts Info = mk_opts Gauge ''meridian_info'' ''Instance information (always 1).'' [''cluster'', ''name'', ''role''] NoBuckets"
| "collector_opts FullSyncInProgress = mk_opts Gauge ''meridian_full_sync_in_progress'' ''Full syncs currently running.'' [] NoBuckets"
| "collector_opts FullSyncTotal = mk_opts Counter ''meridian_full_sync_total'' ''Total full syncs completed.'' [] NoBuckets"
| "collector_opts FullSyncDuration = mk_opts Histogram ''meridian_full_sync_duration_seconds'' ''Full sync completion duration.'' [] (ExponentialBuckets 1000000 2 12)"
| "collector_opts FollowerLag = mk_opts Gauge ''meridian_follower_lag'' ''Follower replication lag.'' [] NoBuckets"
| "collector_opts FollowerEntriesApplied = mk_opts Counter ''meridian_follower_entries_applied_total'' ''WAL entries applied by follower.'' [] NoBuckets"
| "collector_opts FollowerBatchesApplied = mk_opts Counter ''meridian_follower_batches_applied_total'' ''Batches applied by follower.'' [] NoBuckets"
| "collector_opts FollowerReconnects = mk_opts Counter ''meridian_follower_reconnects_total'' ''Follower reconnect attempts.'' [] NoBuckets"
| "collector_opts FollowerLastAckTime = mk_opts Gauge ''meridian_follower_last_ack_timestamp_seconds'' ''Last ack timestamp per follower.'' [''follower_id''] NoBuckets"
| "collector_opts WALOldestSegmentAge = mk_opts Gauge ''meridian_wal_oldest_segment_age_seconds'' ''Age of the oldest WAL segment.'' [] NoBuckets"
| "collector_opts BackendRequests = mk_opts Counter ''meridian_backend_requests_total'' ''Backend Redis requests.'' [] NoBuckets"
| "collector_opts BackendErrors = mk_opts Counter ''meridian_backend_errors_total'' ''Backend Redis errors.'' [] NoBuckets"
| "collector_opts BackendLatency = mk_opts Histogram ''meridian_backend_seconds'' ''Backend Redis request latency.'' [] DefBuckets"
| "collector_opts BackendHealthy = mk_opts Gauge ''meridian_backend_healthy'' ''Backend Redis reachability.'' [] NoBuckets"
| "collector_opts ForwardRequests = mk_opts Counter ''meridian_forward_requests_total'' ''Write-forward requests sent.'' [] NoBuckets"
| "collector_opts ForwardErrors = mk_opts Counter ''meridian_forward_errors_total'' ''Write-forward request errors.'' [] NoBuckets"
| "collector_opts ForwardLatency = mk_opts Histogram ''meridian_forward_seconds'' ''Write-forward latency.'' [] DefBuckets"

definition registered :: "collector list" where
  "registered =
     [Info, RespConnections, RespConnectionsTotal, RespDispatches, RespDispatchLatency, RespErrors,
      WALAppendTotal, WALAppendLatency, WALCurrentSeq, WALSegmentCount, WALReadBatches, WALReadEntries,
      WALOldestSegmentAge, ReplicationSubscribers, ReplicationStreamBatches, ReplicationStreamEntries,
      ReplicationForwards, ReplicationAcks, ReplicationLagHighest, FullSyncInProgress, FullSyncTotal,
      FullSyncDuration, FollowerLag, FollowerEntriesApplied, FollowerBatchesApplied, FollowerReconnects,
      FollowerLastAckTime, BackendRequests, BackendErrors, BackendLatency, BackendHealthy,
      ForwardRequests, ForwardErrors, ForwardLatency]"

section \<open>Registration\<close>

type_synonym label_pairs = "(string \<times> string) list"

record desc =
  ds_name :: string
  ds_help :: string
  ds_const :: label_pairs
  ds_vars :: "string list"

definition collector_desc :: "collector \<Rightarrow> desc" where
  "collector_desc c = \<lparr>ds_name = mo_name (collector_opts c), ds_help = mo_help (collector_opts c), ds_const = [],
     ds_vars = mo_labels (collector_opts c)\<rparr>"

definition wrap_desc :: "label_pairs \<Rightarrow> desc \<Rightarrow> desc" where
  "wrap_desc ls d = d\<lparr>ds_const := ls @ ds_const d\<rparr>"

text \<open>What the program takes from the client library.\<close>

record 'r prom =
  pm_must :: "label_pairs \<Rightarrow> 'r \<Rightarrow> desc list \<Rightarrow> 'r option"
  pm_go :: "desc list"
  pm_process :: "desc list"
  pm_build :: "desc list"

fun must_register_all :: "('r \<Rightarrow> desc list \<Rightarrow> 'r option) \<Rightarrow> 'r \<Rightarrow> desc list list \<Rightarrow> 'r outcome" where
  "must_register_all must r [] = Done r"
| "must_register_all must r (c # cs) =
     (case must r c of None \<Rightarrow> Panic ''MustRegister'' | Some r' \<Rightarrow> must_register_all must r' cs)"

definition metric_labels :: "string \<Rightarrow> string \<Rightarrow> label_pairs" where
  "metric_labels cluster node = [(''meridian_cluster'', cluster), (''meridian_node'', node)]"

definition own_descs :: "desc list list" where
  "own_descs = map (\<lambda>c. [collector_desc c]) registered"

definition metrics_new :: "'r prom \<Rightarrow> 'r \<Rightarrow> string \<Rightarrow> string \<Rightarrow> ((collector \<Rightarrow> metric_opts) \<times> 'r) outcome" where
  "metrics_new pm r cluster node =
     bind_outcome (must_register_all (pm_must pm (metric_labels cluster node)) r
         (own_descs @ [pm_go pm, pm_process pm, pm_build pm]))
       (\<lambda>r'. Done (collector_opts, r'))"

section \<open>Recorders\<close>

text \<open>A value on its way to \<open>float64\<close>, and the calls on a collector with its label values.\<close>

datatype mvalue = OfInt int | OfSeconds int

datatype mop =
    MInc collector "string list"
  | MDec collector "string list"
  | MAdd collector "string list" mvalue
  | MSet collector "string list" mvalue
  | MObserve collector "string list" mvalue

text \<open>The recorders are safe on a nil \<open>*Metrics\<close>: they do nothing.\<close>

definition on_metrics :: "'m option \<Rightarrow> mop list \<Rightarrow> mop list" where
  "on_metrics m ops = (if m = None then [] else ops)"

definition record_wal_append :: "'m option \<Rightarrow> u64 \<Rightarrow> int \<Rightarrow> mop list" where
  "record_wal_append m sq latency = on_metrics m
     [MInc WALAppendTotal [], MObserve WALAppendLatency [] (OfSeconds latency), MSet WALCurrentSeq [] (OfInt (uint sq))]"

definition record_wal_read :: "'m option \<Rightarrow> int \<Rightarrow> int \<Rightarrow> mop list" where
  "record_wal_read m batches entries = on_metrics m
     [MAdd WALReadBatches [] (OfInt batches), MAdd WALReadEntries [] (OfInt entries)]"

definition record_backend :: "'m option \<Rightarrow> int \<Rightarrow> bool \<Rightarrow> mop list" where
  "record_backend m latency isError = on_metrics m
     ([MInc BackendRequests [], MObserve BackendLatency [] (OfSeconds latency)] @ (if isError then [MInc BackendErrors []] else []))"

definition record_dispatch :: "'m option \<Rightarrow> string \<Rightarrow> int \<Rightarrow> mop list" where
  "record_dispatch m route latency = on_metrics m
     [MInc RespDispatches [route], MObserve RespDispatchLatency [route] (OfSeconds latency)]"

definition record_forward :: "'m option \<Rightarrow> int \<Rightarrow> bool \<Rightarrow> mop list" where
  "record_forward m latency isError = on_metrics m
     ([MInc ForwardRequests [], MObserve ForwardLatency [] (OfSeconds latency)] @ (if isError then [MInc ForwardErrors []] else []))"

definition record_subscribe_start :: "'m option \<Rightarrow> mop list" where
  "record_subscribe_start m = on_metrics m [MInc ReplicationSubscribers []]"

definition record_subscribe_end :: "'m option \<Rightarrow> mop list" where
  "record_subscribe_end m = on_metrics m [MDec ReplicationSubscribers []]"

definition record_stream_batch :: "'m option \<Rightarrow> int \<Rightarrow> mop list" where
  "record_stream_batch m entries = on_metrics m
     [MInc ReplicationStreamBatches [], MAdd ReplicationStreamEntries [] (OfInt entries)]"

definition record_stream_forward :: "'m option \<Rightarrow> mop list" where
  "record_stream_forward m = on_metrics m [MInc ReplicationForwards []]"

definition record_ack :: "'m option \<Rightarrow> u64 \<Rightarrow> mop list" where
  "record_ack m lag = on_metrics m [MInc ReplicationAcks [], MSet ReplicationLagHighest [] (OfInt (uint lag))]"

definition record_follower_applied :: "'m option \<Rightarrow> int \<Rightarrow> int \<Rightarrow> mop list" where
  "record_follower_applied m batches entries = on_metrics m
     [MAdd FollowerBatchesApplied [] (OfInt batches), MAdd FollowerEntriesApplied [] (OfInt entries)]"

definition record_follower_reconnect :: "'m option \<Rightarrow> mop list" where
  "record_follower_reconnect m = on_metrics m [MInc FollowerReconnects []]"

definition record_resp_open :: "'m option \<Rightarrow> mop list" where
  "record_resp_open m = on_metrics m [MInc RespConnections [], MInc RespConnectionsTotal []]"

definition record_resp_close :: "'m option \<Rightarrow> mop list" where
  "record_resp_close m = on_metrics m [MDec RespConnections []]"

definition record_full_sync_start :: "'m option \<Rightarrow> mop list" where
  "record_full_sync_start m = on_metrics m [MInc FullSyncInProgress []]"

definition record_full_sync_end :: "'m option \<Rightarrow> int \<Rightarrow> mop list" where
  "record_full_sync_end m dur = on_metrics m
     [MDec FullSyncInProgress [], MInc FullSyncTotal [], MObserve FullSyncDuration [] (OfSeconds dur)]"

definition record_ack_time :: "'m option \<Rightarrow> int \<Rightarrow> string \<Rightarrow> mop list" where
  "record_ack_time m now followerID = on_metrics m [MSet FollowerLastAckTime [followerID] (OfInt now)]"

definition record_oldest_segment_age :: "'m option \<Rightarrow> int \<Rightarrow> mop list" where
  "record_oldest_segment_age m age = on_metrics m [MSet WALOldestSegmentAge [] (OfSeconds age)]"

lemmas recorder_defs = on_metrics_def record_wal_append_def record_wal_read_def record_backend_def record_dispatch_def
  record_forward_def record_subscribe_start_def record_subscribe_end_def record_stream_batch_def record_stream_forward_def
  record_ack_def record_follower_applied_def record_follower_reconnect_def record_resp_open_def record_resp_close_def
  record_full_sync_start_def record_full_sync_end_def record_ack_time_def record_oldest_segment_age_def

section \<open>The HTTP handler\<close>

datatype http_handler = PromHandler | StaticReply nat string | PprofIndex | PprofCmdline | PprofProfile | PprofSymbol | PprofTrace

definition http_routes :: "(string \<times> http_handler) list" where
  "http_routes =
     [(''/metrics'', PromHandler), (''/healthz'', StaticReply 200 ''ok''), (''/readyz'', StaticReply 200 ''ready''),
      (''/debug/pprof/'', PprofIndex), (''/debug/pprof/cmdline'', PprofCmdline), (''/debug/pprof/profile'', PprofProfile),
      (''/debug/pprof/symbol'', PprofSymbol), (''/debug/pprof/trace'', PprofTrace)]"

text \<open>
  \<open>http.ServeMux\<close> on a cleaned path: a pattern that ends in a slash matches every path below
  it, any other pattern only itself, and the longest matching pattern wins.
\<close>

definition mux_matches :: "string \<Rightarrow> string \<Rightarrow> bool" where
  "mux_matches path pat = (if pat \<noteq> [] \<and> last pat = CHR ''/'' then prefix pat path else path = pat)"

definition mux_handler :: "string \<Rightarrow> http_handler option" where
  "mux_handler path =
     map_option snd (foldl (\<lambda>best r.
        if mux_matches path (fst r) \<and> (case best of None \<Rightarrow> True | Some b \<Rightarrow> length (fst b) < length (fst r))
        then Some r else best) None http_routes)"

section \<open>The registry\<close>

text \<open>
  The documented criteria: two descriptors in one registry that share a name must have the
  same help text and the same label names, and differ in the values of the constant labels.
\<close>

definition desc_agrees :: "desc \<Rightarrow> desc \<Rightarrow> bool" where
  "desc_agrees d e \<longleftrightarrow> ds_help d = ds_help e \<and> fst ` set (ds_const d) = fst ` set (ds_const e)
     \<and> set (ds_vars d) = set (ds_vars e) \<and> set (ds_const d) \<noteq> set (ds_const e)"

definition admissible :: "desc set \<Rightarrow> desc set \<Rightarrow> bool" where
  "admissible D R \<longleftrightarrow> (\<forall>d\<in>D. (\<forall>e\<in>R. ds_name d = ds_name e \<longrightarrow> desc_agrees d e)
     \<and> (\<forall>e\<in>D. d \<noteq> e \<and> ds_name d = ds_name e \<longrightarrow> desc_agrees d e))"

definition name_char :: "char \<Rightarrow> bool" where
  "name_char c \<longleftrightarrow> c = CHR ''_'' \<or> 97 \<le> byte_val c \<and> byte_val c \<le> 122"

text \<open>A sufficient condition for a descriptor to be valid by itself.\<close>

definition desc_valid :: "desc \<Rightarrow> bool" where
  "desc_valid d \<longleftrightarrow> ds_name d \<noteq> [] \<and> list_all name_char (ds_name d)
     \<and> list_all (\<lambda>l. l \<noteq> [] \<and> list_all name_char l) (map fst (ds_const d) @ ds_vars d)
     \<and> distinct (map fst (ds_const d) @ ds_vars d)"

text \<open>\<open>contents r\<close> are the descriptors registered in \<open>r\<close>.\<close>

definition registry_documented :: "(label_pairs \<Rightarrow> 'r \<Rightarrow> desc list \<Rightarrow> 'r option) \<Rightarrow> ('r \<Rightarrow> desc set) \<Rightarrow> bool" where
  "registry_documented must contents \<longleftrightarrow> (\<forall>ls r ds.
     case must ls r ds of
       Some r' \<Rightarrow> admissible (wrap_desc ls ` set ds) (contents r) \<and> contents r' = contents r \<union> wrap_desc ls ` set ds
     | None \<Rightarrow> \<not> (admissible (wrap_desc ls ` set ds) (contents r) \<and> (\<forall>d\<in>set ds. desc_valid (wrap_desc ls d))))"

lemma registered_someD:
  "registry_documented must contents \<Longrightarrow> must ls r ds = Some r' \<Longrightarrow>
     admissible (wrap_desc ls ` set ds) (contents r) \<and> contents r' = contents r \<union> wrap_desc ls ` set ds"
  unfolding registry_documented_def by (elim allE [of _ ls] allE [of _ r] allE [of _ ds]) simp

lemma registered_ok:
  assumes "registry_documented must contents" and "admissible (wrap_desc ls ` set ds) (contents r)"
    and "\<forall>d\<in>set ds. desc_valid (wrap_desc ls d)"
  obtains r' where "must ls r ds = Some r'" and "contents r' = contents r \<union> wrap_desc ls ` set ds"
proof (cases "must ls r ds")
  case None
  then have "\<not> (admissible (wrap_desc ls ` set ds) (contents r) \<and> (\<forall>d\<in>set ds. desc_valid (wrap_desc ls d)))"
    using assms(1) unfolding registry_documented_def by (elim allE [of _ ls] allE [of _ r] allE [of _ ds]) simp
  with assms(2,3) show thesis by blast
next
  case (Some r')
  with that registered_someD [OF assms(1) Some] show thesis by blast
qed

lemma wrap_desc_simps [simp]:
  "ds_name (wrap_desc ls d) = ds_name d" "ds_const (wrap_desc ls d) = ls @ ds_const d" "ds_vars (wrap_desc ls d) = ds_vars d"
  by (simp_all add: wrap_desc_def)

lemma must_register_all_append:
  "must_register_all must r (cs @ ds) = bind_outcome (must_register_all must r cs) (\<lambda>r'. must_register_all must r' ds)"
  by (induction cs arbitrary: r) (auto split: option.splits)

text \<open>Collectors with fresh names, all different, are registered.\<close>

lemma must_register_fresh:
  assumes "registry_documented must contents" and "distinct (map ds_name (concat cs))"
    and "\<forall>d\<in>set (concat cs). desc_valid (wrap_desc ls d) \<and> ds_name d \<notin> ds_name ` contents r"
  shows "\<exists>r'. must_register_all (must ls) r cs = Done r' \<and> contents r' = contents r \<union> wrap_desc ls ` set (concat cs)"
  using assms(2,3)
proof (induction cs arbitrary: r)
  case (Cons c cs)
  have "admissible (wrap_desc ls ` set c) (contents r)"
    unfolding admissible_def
  proof (intro ballI conjI impI)
    fix d e
    assume "d \<in> wrap_desc ls ` set c" and "e \<in> contents r" and "ds_name d = ds_name e"
    then obtain d' where "d' \<in> set c" and "ds_name d' \<in> ds_name ` contents r" by auto
    then show "desc_agrees d e" using Cons.prems(2) by simp
  next
    fix d e
    assume "d \<in> wrap_desc ls ` set c" and "e \<in> wrap_desc ls ` set c" and de: "d \<noteq> e \<and> ds_name d = ds_name e"
    then obtain d' e' where "d' \<in> set c" "e' \<in> set c" "d = wrap_desc ls d'" "e = wrap_desc ls e'" by blast
    moreover have "inj_on ds_name (set c)" using Cons.prems(1) by (simp add: distinct_map)
    ultimately have "d' = e'" using de by (auto dest: inj_onD)
    with de \<open>d = wrap_desc ls d'\<close> \<open>e = wrap_desc ls e'\<close> show "desc_agrees d e" by simp
  qed
  then obtain r1 where r1: "must ls r c = Some r1" "contents r1 = contents r \<union> wrap_desc ls ` set c"
    using registered_ok [OF assms(1)] Cons.prems(2) by (metis UnI1 concat.simps(2) set_append)
  have "\<forall>d\<in>set (concat cs). desc_valid (wrap_desc ls d) \<and> ds_name d \<notin> ds_name ` contents r1"
  proof
    fix d
    assume "d \<in> set (concat cs)"
    moreover from this have "ds_name d \<notin> ds_name ` set c" using Cons.prems(1) by auto
    ultimately show "desc_valid (wrap_desc ls d) \<and> ds_name d \<notin> ds_name ` contents r1"
      using Cons.prems(2) by (auto simp: r1(2) image_image image_Un)
  qed
  from Cons.IH [OF _ this] Cons.prems(1) r1 show ?case by (auto simp: Un_assoc image_Un)
qed simp

lemma concat_own: "concat own_descs = map collector_desc registered"
  by (simp add: own_descs_def concat_map_singleton)

lemma registered_complete: "distinct registered" "set registered = UNIV"
proof -
  show "distinct registered" by (simp add: registered_def)
  have "c \<in> set registered" for c by (cases c) (simp_all add: registered_def)
  then show "set registered = UNIV" by blast
qed

text \<open>Name and labels of every collector are valid, and no two collectors share a name.\<close>

lemma collector_names_distinct: "distinct (map ds_name (map collector_desc registered))"
  by (simp add: registered_def mk_opts_def collector_desc_def)

lemma collector_desc_valid: "desc_valid (wrap_desc (metric_labels cl nd) (collector_desc c))"
  by (cases c) (simp_all add: desc_valid_def wrap_desc_def metric_labels_def collector_desc_def mk_opts_def name_char_def byte_val_def)

lemma collector_prefixed: "prefix ''meridian_'' (ds_name (collector_desc c))"
  by (cases c) (simp_all add: collector_desc_def mk_opts_def)

lemma must_register_all_mono:
  assumes "registry_documented must contents" and "must_register_all (must ls) r cs = Done r'"
  shows "contents r \<subseteq> contents r'"
  using assms(2)
proof (induction cs arbitrary: r)
  case (Cons c cs)
  then show ?case using registered_someD [OF assms(1)] by (fastforce split: option.splits)
qed simp

section \<open>Properties\<close>

text \<open>On a registry of its own, \<open>New\<close> does not panic: the 34 collectors
  of the struct, each registered once under a name of its own, and the three collectors of the
  library end up in it, all under the labels of the node; provided the descriptors of
  the library's collectors are valid and have names of their own.\<close>

theorem metrics_new_registers:
  assumes "registry_documented (pm_must pm) contents" and "contents r = {}"
    and "distinct (map ds_name (pm_go pm @ pm_process pm @ pm_build pm))"
    and "\<forall>d\<in>set (pm_go pm @ pm_process pm @ pm_build pm).
      desc_valid (wrap_desc (metric_labels cluster node) d) \<and> \<not> prefix ''meridian_'' (ds_name d)"
  shows "\<exists>r'. metrics_new pm r cluster node = Done (collector_opts, r')
    \<and> contents r' = wrap_desc (metric_labels cluster node) ` (range collector_desc \<union> set (pm_go pm @ pm_process pm @ pm_build pm))
    \<and> inj (\<lambda>c. ds_name (collector_desc c))"
proof -
  let ?lib = "pm_go pm @ pm_process pm @ pm_build pm"
  have cc: "concat (own_descs @ [pm_go pm, pm_process pm, pm_build pm]) = map collector_desc registered @ ?lib"
    by (simp add: concat_own)
  have "ds_name ` set (map collector_desc registered) \<inter> ds_name ` set ?lib = {}"
    using assms(4) collector_prefixed by (auto simp del: set_append) (metis collector_prefixed)
  then have "distinct (map ds_name (map collector_desc registered @ ?lib))"
    using assms(3) collector_names_distinct unfolding map_append [of ds_name "map collector_desc registered"] distinct_append set_map
    by blast
  moreover have "\<forall>d\<in>set (map collector_desc registered @ ?lib). desc_valid (wrap_desc (metric_labels cluster node) d)
      \<and> ds_name d \<notin> ds_name ` contents r"
    using assms(2,4) collector_desc_valid by auto
  ultimately obtain r' where "must_register_all (pm_must pm (metric_labels cluster node)) r
        (own_descs @ [pm_go pm, pm_process pm, pm_build pm]) = Done r'"
      "contents r' = wrap_desc (metric_labels cluster node) ` set (map collector_desc registered @ ?lib)"
    using must_register_fresh [OF assms(1), of "own_descs @ [pm_go pm, pm_process pm, pm_build pm]" "metric_labels cluster node" r]
    unfolding cc assms(2) by auto
  moreover have "inj (\<lambda>c. ds_name (collector_desc c))"
    using collector_names_distinct registered_complete(2) by (simp add: distinct_map comp_def)
  ultimately show ?thesis by (simp add: metrics_new_def registered_complete)
qed

text \<open>
  On the registry \<open>New\<close> really uses, the library's default one, it panics: the Go collector is registered
  there already, without the node's labels, and descriptors of one name must have the same
  label names.
\<close>

lemma metrics_new_default:
  assumes "registry_documented (pm_must pm) contents" and "d \<in> set (pm_go pm)" and "d \<in> contents r"
    and "''meridian_cluster'' \<notin> fst ` set (ds_const d)"
  shows "\<exists>m. metrics_new pm r cluster node = Panic m"
proof (cases "must_register_all (pm_must pm (metric_labels cluster node)) r own_descs")
  case (Panic m)
  then show ?thesis by (simp add: metrics_new_def must_register_all_append)
next
  case (Done r1)
  let ?ls = "metric_labels cluster node"
  have "d \<in> contents r1" using must_register_all_mono [OF assms(1) Done] assms(3) by blast
  moreover have "''meridian_cluster'' \<in> fst ` set (ds_const (wrap_desc ?ls d))" by (simp add: metric_labels_def)
  then have "\<not> desc_agrees (wrap_desc ?ls d) d" using assms(4) unfolding desc_agrees_def by blast
  ultimately have "\<not> admissible (wrap_desc ?ls ` set (pm_go pm)) (contents r1)"
    using assms(2) unfolding admissible_def by (metis imageI wrap_desc_simps(1))
  then have "pm_must pm ?ls r1 (pm_go pm) = None"
    using registered_someD [OF assms(1)] by (metis not_Some_eq)
  with Done show ?thesis by (simp add: metrics_new_def must_register_all_append)
qed

text \<open>A registry with the documented behaviour, and a client library with one Go descriptor.\<close>

definition demo_must :: "label_pairs \<Rightarrow> desc list \<Rightarrow> desc list \<Rightarrow> desc list option" where
  "demo_must ls r ds =
     (if admissible (wrap_desc ls ` set ds) (set r) \<and> list_all (\<lambda>d. desc_valid (wrap_desc ls d)) ds
      then Some (r @ map (wrap_desc ls) ds) else None)"

definition go_info :: desc where
  "go_info = \<lparr>ds_name = ''go_info'', ds_help = ''Information about the Go environment.'', ds_const = [(''version'', ''go'')], ds_vars = []\<rparr>"

definition demo_prom :: "desc list prom" where
  "demo_prom = \<lparr>pm_must = demo_must, pm_go = [go_info], pm_process = [], pm_build = []\<rparr>"

lemma demo_must_documented: "registry_documented demo_must set"
  by (simp add: registry_documented_def demo_must_def list_all_iff)

theorem metrics_new_registers_witness:
  "\<exists>r'. metrics_new demo_prom [] ''c'' ''n'' = Done (collector_opts, r')
    \<and> set r' = wrap_desc (metric_labels ''c'' ''n'') ` (range collector_desc \<union> {go_info})"
proof -
  have "desc_valid (wrap_desc (metric_labels ''c'' ''n'') go_info)" "\<not> prefix ''meridian_'' (ds_name go_info)"
    by (simp_all add: desc_valid_def wrap_desc_def metric_labels_def go_info_def name_char_def byte_val_def)
  then show ?thesis
    using metrics_new_registers [of demo_prom set "[]" "''c''" "''n''"] demo_must_documented
    by (auto simp: demo_prom_def)
qed

text \<open>
  A call that the library accepts: the operation fits the kind of the collector and there are as
  many label values as labels (\<open>WithLabelValues\<close> panics otherwise).
\<close>

definition op_fits :: "metric_kind \<Rightarrow> collector \<Rightarrow> string list \<Rightarrow> bool" where
  "op_fits k c ls \<longleftrightarrow> mo_kind (collector_opts c) = k \<and> length ls = length (mo_labels (collector_opts c))"

fun well_typed_op :: "mop \<Rightarrow> bool" where
  "well_typed_op (MInc c ls) = (op_fits Gauge c ls \<or> op_fits Counter c ls)"
| "well_typed_op (MDec c ls) = op_fits Gauge c ls"
| "well_typed_op (MAdd c ls v) = op_fits Counter c ls"
| "well_typed_op (MSet c ls v) = op_fits Gauge c ls"
| "well_typed_op (MObserve c ls v) = op_fits Histogram c ls"

text \<open>Every call the recorder methods make, on whatever arguments, fits
  the collector that \<open>New\<close> created: counters are only incremented or added to, gauges only
  set, incremented or decremented, histograms only observed, and the number of label values is
  the number of labels; so no recorder panics. On a nil receiver no call is made.\<close>

theorem recorders_are_well_typed:
  "list_all well_typed_op
     (record_wal_append m sq t @ record_wal_read m b n @ record_backend m t err @ record_dispatch m route t
      @ record_forward m t err @ record_subscribe_start m @ record_subscribe_end m @ record_stream_batch m n
      @ record_stream_forward m @ record_ack m lag @ record_follower_applied m b n @ record_follower_reconnect m
      @ record_resp_open m @ record_resp_close m @ record_full_sync_start m @ record_full_sync_end m t
      @ record_ack_time m now fid @ record_oldest_segment_age m t)
   \<and> record_wal_append (None :: 'm option) sq t @ record_wal_read (None :: 'm option) b n @ record_backend (None :: 'm option) t err
      @ record_dispatch (None :: 'm option) route t @ record_forward (None :: 'm option) t err
      @ record_subscribe_start (None :: 'm option) @ record_subscribe_end (None :: 'm option)
      @ record_stream_batch (None :: 'm option) n @ record_stream_forward (None :: 'm option) @ record_ack (None :: 'm option) lag
      @ record_follower_applied (None :: 'm option) b n @ record_follower_reconnect (None :: 'm option)
      @ record_resp_open (None :: 'm option) @ record_resp_close (None :: 'm option)
      @ record_full_sync_start (None :: 'm option) @ record_full_sync_end (None :: 'm option) t
      @ record_ack_time (None :: 'm option) now fid @ record_oldest_segment_age (None :: 'm option) t = []"
  by (simp add: recorder_defs op_fits_def mk_opts_def)

text \<open>The health endpoints answer 200 whatever the state of the node; profiles are served too.\<close>

lemma mux_examples:
  "mux_handler ''/healthz'' = Some (StaticReply 200 ''ok'')" "mux_handler ''/readyz'' = Some (StaticReply 200 ''ready'')"
  "mux_handler ''/metrics'' = Some PromHandler" "mux_handler ''/debug/pprof/heap'' = Some PprofIndex"
  "mux_handler ''/debug/pprof/profile'' = Some PprofProfile" "mux_handler ''/nope'' = None"
  by (simp_all add: mux_handler_def http_routes_def mux_matches_def)

section \<open>Levels\<close>

text \<open>How often a collector was incremented more than decremented, and the last value set.\<close>

fun level :: "collector \<Rightarrow> mop list \<Rightarrow> int" where
  "level c [] = 0"
| "level c (MInc c' ls # ops) = (if c' = c then 1 else 0) + level c ops"
| "level c (MDec c' ls # ops) = (if c' = c then -1 else 0) + level c ops"
| "level c (op # ops) = level c ops"

fun last_set :: "collector \<Rightarrow> mop list \<Rightarrow> mvalue option" where
  "last_set c [] = None"
| "last_set c (op # ops) =
     (case last_set c ops of
        Some v \<Rightarrow> Some v
      | None \<Rightarrow> (case op of MSet c' ls v \<Rightarrow> if c' = c then Some v else None | _ \<Rightarrow> None))"

lemma level_append [simp]: "level c (xs @ ys) = level c xs + level c ys"
  by (induction c xs rule: level.induct) auto

lemma last_set_append: "last_set c (xs @ ys) = (case last_set c ys of Some v \<Rightarrow> Some v | None \<Rightarrow> last_set c xs)"
  by (induction xs) (auto split: option.splits)

end
