(* ===== verification/Frontend.thy ===== *)
theory Frontend
  imports Server Metrics
begin

text \<open>
  The RESP front-end with many clients, \<open>internal/server/server.go\<close>: \<open>Serve\<close> accepts connections,
  starts a goroutine with \<open>handle\<close> for each, counts them in a \<open>WaitGroup\<close>, and on
  cancellation waits for them. All share one dispatcher. The state is what \<open>Serve\<close> and the
  goroutines keep; a step is one action of one of them. A command is one step
  (\<open>Concurrency\<close> shows that writes and reads on one dispatcher are as if done one at a time).
\<close>

section \<open>State\<close>

text \<open>
  A connection: accepted, being served, or with its handler returned but \<open>wg.Done\<close> not yet
  called. \<open>cn_cmds\<close> records the commands dispatched for it.
\<close>

datatype conn_phase = Accepted | Serving | Leaving

record connection =
  cn_phase :: conn_phase
  cn_input :: input
  cn_writer :: writer
  cn_sess :: session
  cn_cmds :: "command list"

datatype serve_phase = Accepting | Draining | Returned "string option"

record ('b, 'f, 'u) frontend =
  fe_disp :: "('b, 'f) dispatcher"
  fe_up :: 'u
  fe_conns :: "nat \<rightharpoonup> connection"
  fe_next :: nat
  fe_wg :: nat
  fe_cancelled :: bool
  fe_ln_closed :: bool
  fe_phase :: serve_phase
  fe_ops :: "mop list"

definition new_frontend :: "('b, 'f) dispatcher \<Rightarrow> 'u \<Rightarrow> ('b, 'f, 'u) frontend" where
  "new_frontend d u = \<lparr>fe_disp = d, fe_up = u, fe_conns = Map.empty, fe_next = 0, fe_wg = 0, fe_cancelled = False,
     fe_ln_closed = False, fe_phase = Accepting, fe_ops = []\<rparr>"

definition accepted :: "bytes \<Rightarrow> string option \<Rightarrow> nat option \<Rightarrow> connection" where
  "accepted b fin left = \<lparr>cn_phase = Accepted, cn_input = new_resp_reader b fin, cn_writer = new_writer left,
     cn_sess = new_session, cn_cmds = []\<rparr>"

definition conn_node :: "('b, 'f, 'u) frontend \<Rightarrow> connection \<Rightarrow> ('b, 'f, 'u) node" where
  "conn_node s c = \<lparr>nd_disp = fe_disp s, nd_up = fe_up s, nd_writer = cn_writer c, nd_sess = cn_sess c\<rparr>"

text \<open>
  What the deferred goroutine of \<open>handle\<close> does on cancellation: it closes the connection. Of the
  input, what was received before is still read, then reads fail; nothing more is sent.
\<close>

definition cut_off :: "nat \<Rightarrow> connection \<Rightarrow> connection" where
  "cut_off k c = c\<lparr>cn_input := \<lparr>in_bytes = take k (in_bytes (cn_input c)), in_fin = Some ''use of closed network connection''\<rparr>,
     cn_writer := (cn_writer c)\<lparr>wr_left := Some 0\<rparr>\<rparr>"

definition set_conn :: "nat \<Rightarrow> connection \<Rightarrow> ('b, 'f, 'u) frontend \<Rightarrow> ('b, 'f, 'u) frontend" where
  "set_conn i c s = s\<lparr>fe_conns := (fe_conns s)(i \<mapsto> c)\<rparr>"

text \<open>After one command: the shared state and the connection's own.\<close>

definition after_command :: "nat \<Rightarrow> connection \<Rightarrow> command \<Rightarrow> input \<Rightarrow> ('b, 'f, 'u) node \<Rightarrow> ('b, 'f, 'u) frontend \<Rightarrow> ('b, 'f, 'u) frontend" where
  "after_command i c cmd inp n s =
     (set_conn i (c\<lparr>cn_input := inp, cn_writer := nd_writer n, cn_sess := nd_sess n, cn_cmds := cn_cmds c @ [cmd]\<rparr>) s)
       \<lparr>fe_disp := nd_disp n, fe_up := nd_up n\<rparr>"

text \<open>The handler returns: the deferred \<open>RecordRespClose\<close>.\<close>

definition leave :: "'m option \<Rightarrow> nat \<Rightarrow> ('b, 'f, 'u) frontend \<Rightarrow> ('b, 'f, 'u) frontend" where
  "leave m i s =
     (case fe_conns s i of
        None \<Rightarrow> s
      | Some c \<Rightarrow> (set_conn i (c\<lparr>cn_phase := Leaving\<rparr>) s)\<lparr>fe_ops := fe_ops s @ record_resp_close m\<rparr>)"

section \<open>Steps\<close>

datatype fe_event =
    EvAccept nat | EvOpen nat | EvSkip nat | EvCommand nat command | EvLast nat command | EvReadError nat | EvDone nat
  | EvCut nat | EvCancel | EvListenerClose | EvAcceptError string | EvDrained | EvElsewhere

text \<open>
  \<open>EvElsewhere\<close> is what the rest of the node does with the dispatcher: replay, forwarded writes.
  It does not touch the authenticator.
\<close>

inductive fe_step :: "('b, 'f, 'u) env \<Rightarrow> 'm option \<Rightarrow> fe_event \<Rightarrow> ('b, 'f, 'u) frontend \<Rightarrow> ('b, 'f, 'u) frontend \<Rightarrow> bool" for ev m where
  accept: "fe_phase s = Accepting \<Longrightarrow> \<not> fe_ln_closed s \<Longrightarrow>
    fe_step ev m (EvAccept (fe_next s)) s
      ((set_conn (fe_next s) (accepted b fin left) s)\<lparr>fe_next := fe_next s + 1, fe_wg := fe_wg s + 1\<rparr>)"
| open_conn: "fe_conns s i = Some c \<Longrightarrow> cn_phase c = Accepted \<Longrightarrow>
    fe_step ev m (EvOpen i) s ((set_conn i (c\<lparr>cn_phase := Serving\<rparr>) s)\<lparr>fe_ops := fe_ops s @ record_resp_open m\<rparr>)"
| skip: "fe_conns s i = Some c \<Longrightarrow> cn_phase c = Serving \<Longrightarrow> read_command (cn_input c) = Done (Inr cmd, inp) \<Longrightarrow> cmd_args cmd = [] \<Longrightarrow>
    fe_step ev m (EvSkip i) s (set_conn i (c\<lparr>cn_input := inp\<rparr>) s)"
| command: "fe_conns s i = Some c \<Longrightarrow> cn_phase c = Serving \<Longrightarrow> read_command (cn_input c) = Done (Inr cmd, inp) \<Longrightarrow> cmd_args cmd \<noteq> [] \<Longrightarrow>
    serve_command ev now cmd (conn_node s c) = Done (n, None) \<Longrightarrow>
    fe_step ev m (EvCommand i cmd) s (after_command i c cmd inp n s)"
| last_command: "fe_conns s i = Some c \<Longrightarrow> cn_phase c = Serving \<Longrightarrow> read_command (cn_input c) = Done (Inr cmd, inp) \<Longrightarrow> cmd_args cmd \<noteq> [] \<Longrightarrow>
    serve_command ev now cmd (conn_node s c) = Done (n, Some x) \<Longrightarrow>
    fe_step ev m (EvLast i cmd) s (leave m i (after_command i c cmd inp n s))"
| read_error: "fe_conns s i = Some c \<Longrightarrow> cn_phase c = Serving \<Longrightarrow> read_command (cn_input c) = Done (Inl e, inp) \<Longrightarrow>
    fe_step ev m (EvReadError i) s (leave m i s)"
| wg_done: "fe_conns s i = Some c \<Longrightarrow> cn_phase c = Leaving \<Longrightarrow>
    fe_step ev m (EvDone i) s (s\<lparr>fe_conns := (fe_conns s)(i := None), fe_wg := fe_wg s - 1\<rparr>)"
| cut_conn: "fe_cancelled s \<Longrightarrow> fe_conns s i = Some c \<Longrightarrow> cn_phase c = Serving \<Longrightarrow>
    fe_step ev m (EvCut i) s (set_conn i (cut_off k c) s)"
| cancel: "fe_step ev m EvCancel s (s\<lparr>fe_cancelled := True\<rparr>)"
| listener_close: "fe_cancelled s \<Longrightarrow> fe_step ev m EvListenerClose s (s\<lparr>fe_ln_closed := True\<rparr>)"
| accept_error: "fe_phase s = Accepting \<Longrightarrow>
    fe_step ev m (EvAcceptError e) s (s\<lparr>fe_phase := if fe_cancelled s then Draining else Returned (Some e)\<rparr>)"
| drained: "fe_phase s = Draining \<Longrightarrow> fe_wg s = 0 \<Longrightarrow> fe_step ev m EvDrained s (s\<lparr>fe_phase := Returned None\<rparr>)"
| elsewhere: "dp_auth d' = dp_auth (fe_disp s) \<Longrightarrow> fe_step ev m EvElsewhere s (s\<lparr>fe_disp := d'\<rparr>)"

inductive fe_run :: "('b, 'f, 'u) env \<Rightarrow> 'm option \<Rightarrow> ('b, 'f, 'u) frontend \<Rightarrow> ('b, 'f, 'u) frontend \<Rightarrow> bool" for ev m s0 where
  start: "fe_run ev m s0 s0"
| more: "fe_run ev m s0 s \<Longrightarrow> fe_step ev m l s s' \<Longrightarrow> fe_run ev m s0 s'"

lemma fe_run_trans: "fe_run ev m s1 s2 \<Longrightarrow> fe_run ev m s0 s1 \<Longrightarrow> fe_run ev m s0 s2"
  by (induction rule: fe_run.induct) (auto intro: fe_run.more)

inductive_cases fe_stepE: "fe_step ev m l s s'"

lemmas conn_defs = set_conn_def after_command_def accepted_def cut_off_def conn_node_def

section \<open>Invariants\<close>

definition serving :: "('b, 'f, 'u) frontend \<Rightarrow> nat set" where
  "serving s = {i. \<exists>c. fe_conns s i = Some c \<and> cn_phase c = Serving}"

definition counted :: "'m option \<Rightarrow> ('b, 'f, 'u) frontend \<Rightarrow> bool" where
  "counted m s \<longleftrightarrow> finite (dom (fe_conns s)) \<and> fe_wg s = card (dom (fe_conns s)) \<and> (\<forall>i \<in> dom (fe_conns s). i < fe_next s)
     \<and> level RespConnections (fe_ops s) = (if m = None then 0 else int (card (serving s)))"

definition phased :: "('b, 'f, 'u) frontend \<Rightarrow> bool" where
  "phased s \<longleftrightarrow> (fe_phase s = Draining \<longrightarrow> fe_cancelled s) \<and> (fe_phase s = Returned None \<longrightarrow> fe_cancelled s \<and> fe_conns s = Map.empty)"

text \<open>A pair of words of a command, or the default user, that the authenticator accepts.\<close>

definition vouched :: "authenticator option \<Rightarrow> command \<Rightarrow> bool" where
  "vouched au c \<longleftrightarrow> (\<exists>u \<in> presented c. \<exists>p \<in> presented c. au_verify (the au) u p = None)"

definition isolated :: "authenticator option \<Rightarrow> ('b, 'f, 'u) frontend \<Rightarrow> bool" where
  "isolated au s \<longleftrightarrow> dp_auth (fe_disp s) = au
     \<and> (\<forall>i c. fe_conns s i = Some c \<longrightarrow> authed (cn_sess c) \<longrightarrow> (\<exists>cmd \<in> set (cn_cmds c). vouched au cmd))"

lemma serving_finite: "finite (dom (fe_conns s)) \<Longrightarrow> finite (serving s)"
  by (rule finite_subset [of _ "dom (fe_conns s)"]) (auto simp: serving_def)

text \<open>A step that changes one connection, and how many are served then.\<close>

lemma serving_upd:
  "serving (s\<lparr>fe_conns := (fe_conns s)(i := x)\<rparr>) =
     (if \<exists>c. x = Some c \<and> cn_phase c = Serving then insert i (serving s) else serving s - {i})"
  by (auto simp: serving_def)

lemma serving_cong: "fe_conns s' = fe_conns s \<Longrightarrow> serving s' = serving s"
  by (simp add: serving_def)

lemma level_resp [simp]:
  "level RespConnections (record_resp_open m) = (if m = None then 0 else 1)"
  "level RespConnections (record_resp_close m) = (if m = None then 0 else -1)"
  by (simp_all add: record_resp_open_def record_resp_close_def on_metrics_def)

definition weight :: "connection \<Rightarrow> int" where
  "weight c = (if cn_phase c = Serving then 1 else 0)"

lemma counted_upd:
  assumes "counted m s" and "fe_conns s i = Some c" and "fe_conns s' = (fe_conns s)(i \<mapsto> c')"
    and "fe_wg s' = fe_wg s" and "fe_next s' = fe_next s"
    and "level RespConnections (fe_ops s') = level RespConnections (fe_ops s) + (if m = None then 0 else weight c' - weight c)"
  shows "counted m s'"
proof -
  have dom: "dom (fe_conns s') = dom (fe_conns s)" using assms(2,3) by auto
  have fin: "finite (serving s)" using assms(1) by (simp add: counted_def serving_finite)
  have i: "i \<in> serving s \<longleftrightarrow> cn_phase c = Serving" using assms(2) by (simp add: serving_def)
  have "serving s' = (if cn_phase c' = Serving then insert i (serving s) else serving s - {i})"
    using assms(3) serving_upd [of s i "Some c'"] serving_cong [of s' "s\<lparr>fe_conns := (fe_conns s)(i \<mapsto> c')\<rparr>"] by simp
  then have "int (card (serving s')) = int (card (serving s)) + weight c' - weight c"
    using fin i card_Suc_Diff1 [OF fin, of i] by (auto simp: weight_def insert_absorb)
  then show ?thesis using assms(1,4-6) dom by (simp add: counted_def)
qed

lemma counted_cong:
  "counted m s \<Longrightarrow> fe_conns s' = fe_conns s \<Longrightarrow> fe_wg s' = fe_wg s \<Longrightarrow> fe_next s' = fe_next s \<Longrightarrow> fe_ops s' = fe_ops s \<Longrightarrow> counted m s'"
  using serving_cong [of s' s] by (simp add: counted_def)

lemma leave_simps:
  assumes "fe_conns s i = Some c"
  shows "leave m i s = s\<lparr>fe_conns := (fe_conns s)(i \<mapsto> c\<lparr>cn_phase := Leaving\<rparr>), fe_ops := fe_ops s @ record_resp_close m\<rparr>"
  using assms by (simp add: leave_def set_conn_def)

lemma counted_leave:
  assumes "counted m s" and "fe_conns s i = Some c" and "cn_phase c = Serving"
  shows "counted m (leave m i s)"
  unfolding leave_simps [OF assms(2)]
  by (rule counted_upd [OF assms(1,2), of _ "c\<lparr>cn_phase := Leaving\<rparr>"]) (simp_all add: weight_def assms(3))

lemma counted_command:
  assumes "counted m s" and "fe_conns s i = Some c" and "cn_phase c = Serving"
  shows "counted m (after_command i c cmd inp n s)"
  by (rule counted_upd [OF assms(1,2), of _ "c\<lparr>cn_input := inp, cn_writer := nd_writer n, cn_sess := nd_sess n, cn_cmds := cn_cmds c @ [cmd]\<rparr>"])
    (simp_all add: after_command_def set_conn_def weight_def)

lemma counted_step:
  assumes "fe_step ev m l s s'" and "counted m s"
  shows "counted m s'"
  using assms(1)
proof cases
  case (accept b fin left)
  let ?s = "s\<lparr>fe_conns := (fe_conns s)(fe_next s \<mapsto> accepted b fin left)\<rparr>"
  have n: "fe_next s \<notin> dom (fe_conns s)" using assms(2) by (auto simp: counted_def)
  then have "serving s' = serving s"
    using accept(2) serving_upd [of s "fe_next s" "Some (accepted b fin left)"] serving_cong [of s' ?s]
    by (auto simp: set_conn_def accepted_def serving_def)
  then show ?thesis using accept(2) assms(2) n by (auto simp: counted_def set_conn_def less_Suc_eq)
next
  case (open_conn i c)
  then show ?thesis by (intro counted_upd [OF assms(2), of i c s' "c\<lparr>cn_phase := Serving\<rparr>"]) (simp_all add: set_conn_def weight_def)
next
  case (skip i c cmd inp)
  then show ?thesis by (intro counted_upd [OF assms(2), of i c s' "c\<lparr>cn_input := inp\<rparr>"]) (simp_all add: set_conn_def weight_def)
next
  case (command i c cmd inp now n)
  then show ?thesis using counted_command [OF assms(2)] by simp
next
  case (last_command i c cmd inp now n x)
  from counted_command [OF assms(2) last_command(3,4)] last_command(2,4) show ?thesis
    by (auto simp: after_command_def set_conn_def intro!: counted_leave)
next
  case (read_error i c e inp)
  then show ?thesis using counted_leave [OF assms(2)] by simp
next
  case (wg_done i c)
  let ?s = "s\<lparr>fe_conns := (fe_conns s)(i := None)\<rparr>"
  have "serving s' = serving s - {i}" using wg_done(2) serving_upd [of s i None] serving_cong [of s' ?s] by simp
  moreover have "i \<notin> serving s" using wg_done(3,4) by (simp add: serving_def)
  moreover have "dom (fe_conns s') = dom (fe_conns s) - {i}" "i \<in> dom (fe_conns s)" using wg_done(2,3) by auto
  ultimately show ?thesis using assms(2) wg_done(2) by (simp add: counted_def)
next
  case (cut_conn i c k)
  then show ?thesis by (intro counted_upd [OF assms(2), of i c s' "cut_off k c"]) (simp_all add: set_conn_def weight_def cut_off_def)
qed (rule counted_cong [OF assms(2)]; simp)+

lemma phased_step:
  assumes "fe_step ev m l s s'" and "phased s" and "counted m s"
  shows "phased s'"
  using assms(1)
proof cases
  case drained
  then have "card (dom (fe_conns s)) = 0" "finite (dom (fe_conns s))" using assms(3) by (simp_all add: counted_def)
  then have "fe_conns s = Map.empty" by (simp only: card_0_eq dom_eq_empty_conv)
  with drained assms(2) show ?thesis by (simp add: phased_def)
qed (use assms(2) in \<open>auto simp: phased_def conn_defs leave_def split: option.splits if_splits\<close>)

text \<open>What one command does to a session: authenticated afterwards only with credentials in it.\<close>

lemma dispatch_vouched:
  assumes "dispatch ev now c n = Done (n', e)" and "authed (nd_sess n')"
  shows "authed (nd_sess n) \<or> vouched (dp_auth (nd_disp n)) c"
  using dispatch_session [OF assms(1)] assms(2) handle_auth_presented handle_hello_presented unfolding vouched_def by metis

lemma serve_command_vouched:
  assumes "serve_command ev now c n = Done (n', r)" and "authed (nd_sess n')"
  shows "authed (nd_sess n) \<or> vouched (dp_auth (nd_disp n)) c"
  using serve_command_dispatch [OF assms(1)] assms(2) dispatch_vouched by (elim exE conjE) (fastforce split: if_splits)

lemma serve_command_auth:
  "serve_command ev now c n = Done (n', r) \<Longrightarrow> dp_auth (nd_disp n') = dp_auth (nd_disp n)"
  using serve_command_dispatch dispatch_keeps by fastforce

lemma serve_command_returns: "dispatch ev now c n = Done (n1, e) \<Longrightarrow> \<exists>n' r. serve_command ev now c n = Done (n', r)"
  by (cases e) (simp_all add: serve_command_def Let_def split: dispatch_error.split)

lemma isolated_command:
  assumes "isolated au s" and "fe_conns s i = Some c" and "serve_command ev now cmd (conn_node s c) = Done (n, r)"
  shows "isolated au (after_command i c cmd inp n s)"
proof -
  have au: "dp_auth (fe_disp s) = au" using assms(1) by (simp add: isolated_def)
  have "dp_auth (nd_disp n) = au" using serve_command_auth [OF assms(3)] au by (simp add: conn_node_def)
  moreover have "\<exists>x \<in> set (cn_cmds c @ [cmd]). vouched au x" if "authed (nd_sess n)"
    using serve_command_vouched [OF assms(3) that] assms(1,2) au by (auto simp: conn_node_def isolated_def)
  ultimately show ?thesis using assms(1) by (simp add: isolated_def after_command_def set_conn_def)
qed

lemma isolated_leave: "isolated au s \<Longrightarrow> isolated au (leave m i s)"
  by (auto simp: isolated_def leave_def set_conn_def split: option.splits)

lemma isolated_step:
  assumes "fe_step ev m l s s'" and "isolated au s"
  shows "isolated au s'"
  using assms(1)
proof cases
  case (command i c cmd inp now n)
  then show ?thesis using isolated_command [OF assms(2)] by simp
next
  case (last_command i c cmd inp now n x)
  then show ?thesis using isolated_leave [OF isolated_command [OF assms(2)]] by simp
next
  case (read_error i c e inp)
  then show ?thesis using isolated_leave [OF assms(2)] by simp
qed (use assms(2) in \<open>auto simp: isolated_def set_conn_def accepted_def new_session_def cut_off_def split: if_splits\<close>)

definition fe_inv :: "'m option \<Rightarrow> authenticator option \<Rightarrow> ('b, 'f, 'u) frontend \<Rightarrow> bool" where
  "fe_inv m au s \<longleftrightarrow> counted m s \<and> phased s \<and> isolated au s"

interpretation front: invariant "\<lambda>s s'. \<exists>l. fe_step ev m l s s'" "fe_inv m au" for ev m au
  by unfold_locales (auto simp: fe_inv_def intro: counted_step phased_step isolated_step)

lemma fe_run_rtranclp: "fe_run ev m s0 s \<Longrightarrow> (\<lambda>s s'. \<exists>l. fe_step ev m l s s')\<^sup>*\<^sup>* s0 s"
  by (induction rule: fe_run.induct) (auto intro: rtranclp.rtrancl_into_rtrancl)

lemma fe_invariant:
  assumes "fe_run ev m (new_frontend d u) s"
  shows "counted m s \<and> phased s \<and> isolated (dp_auth d) s"
proof -
  have "fe_inv m (dp_auth d) (new_frontend d u)"
    by (simp add: fe_inv_def counted_def phased_def isolated_def new_frontend_def serving_def)
  from front.inv_run [OF fe_run_rtranclp [OF assms] this] show ?thesis by (simp add: fe_inv_def)
qed

section \<open>Properties\<close>

text \<open>C6 strangers_change_nothing. However many clients share the front-end and whatever else the node
  does: when credentials are required, a command of a connection none of whose own commands
  contained valid credentials, this one included, changes neither the dispatcher nor anything
  upstream. No connection profits from the authentication of another.\<close>

theorem strangers_change_nothing:
  assumes "fe_run ev m (new_frontend d u) s" and "auth_required (dp_auth d)"
    and "fe_step ev m (EvCommand i cmd) s s' \<or> fe_step ev m (EvLast i cmd) s s'"
    and "fe_conns s i = Some c" and "\<forall>x \<in> set (cn_cmds c @ [cmd]). \<not> vouched (dp_auth d) x"
  shows "fe_disp s' = fe_disp s \<and> fe_up s' = fe_up s"
proof -
  have iso: "dp_auth (fe_disp s) = dp_auth d" "\<not> authed (cn_sess c)"
    using fe_invariant [OF assms(1)] assms(4,5) by (auto simp: isolated_def)
  have unchanged: "nd_disp n = fe_disp s \<and> nd_up n = fe_up s"
    if sc: "serve_command ev now cmd (conn_node s c) = Done (n, r)" for now n r
  proof -
    obtain n1 e where d: "dispatch ev now cmd (conn_node s c) = Done (n1, e)" "nd_disp n = nd_disp n1" "nd_up n = nd_up n1"
      using serve_command_dispatch [OF sc] by auto
    have "nd_disp n1 = nd_disp (conn_node s c) \<and> nd_up n1 = nd_up (conn_node s c) \<and> \<not> authed (nd_sess n1)"
      by (rule dispatch_unauthenticated [OF _ _ _ d(1)]) (use iso assms(2,5) in \<open>auto simp: conn_node_def vouched_def\<close>)
    with d(2,3) show ?thesis by (simp add: conn_node_def)
  qed
  from assms(3) show ?thesis
  proof
    assume "fe_step ev m (EvCommand i cmd) s s'"
    then show ?thesis using assms(4) unchanged by cases (auto simp: after_command_def)
  next
    assume "fe_step ev m (EvLast i cmd) s s'"
    then show ?thesis
      by cases (use assms(4) unchanged in \<open>auto simp: after_command_def leave_def set_conn_def\<close>)
  qed
qed

text \<open>C17 gauge_counts_connections. At every moment the connection gauge is the number of connections
  being served, and the \<open>WaitGroup\<close> counts the goroutines; \<open>Serve\<close> returns nil only after
  cancellation, with every connection drained and the gauge back at zero.\<close>

theorem gauge_counts_connections:
  assumes "fe_run ev (Some m) (new_frontend d u) s"
  shows "level RespConnections (fe_ops s) = int (card (serving s)) \<and> fe_wg s = card (dom (fe_conns s))
    \<and> (fe_phase s = Returned None \<longrightarrow> fe_cancelled s \<and> fe_conns s = Map.empty \<and> level RespConnections (fe_ops s) = 0)"
proof -
  have i: "counted (Some m) s" "phased s" using fe_invariant [OF assms] by auto
  have "serving s = {}" if "fe_conns s = Map.empty" using that by (simp add: serving_def)
  with i show ?thesis by (auto simp: counted_def phased_def)
qed

section \<open>Shutdown\<close>

definition quiet :: "('b, 'f, 'u) env \<Rightarrow> 'm option \<Rightarrow> nat \<Rightarrow> ('b, 'f, 'u) frontend \<Rightarrow> bool" where
  "quiet ev m i s \<longleftrightarrow> (\<exists>s'. fe_run ev m s s' \<and> fe_conns s' = (fe_conns s)(i := None) \<and> fe_cancelled s' \<and> fe_phase s' = fe_phase s)"

lemma quiet_step:
  assumes "fe_step ev m l s s1" and "fe_conns s1 = (fe_conns s)(i \<mapsto> c)" and "fe_phase s1 = fe_phase s" and "quiet ev m i s1"
  shows "quiet ev m i s"
proof -
  from assms(4) obtain s' where "fe_run ev m s1 s'" "fe_conns s' = (fe_conns s1)(i := None)" "fe_cancelled s'" "fe_phase s' = fe_phase s1"
    unfolding quiet_def by blast
  moreover have "fe_run ev m s s1" by (rule fe_run.more [OF fe_run.start assms(1)])
  ultimately show ?thesis unfolding quiet_def using assms(2,3) by (intro exI [of _ s']) (simp add: fe_run_trans)
qed

lemma read_cut: "read_command (cn_input (cut_off 0 c)) = Done (Inl (ENet ''use of closed network connection''),
    \<lparr>in_bytes = [], in_fin = Some ''use of closed network connection''\<rparr>)"
  by (simp add: cut_off_def read_command_def read_line_def read_bytes_nl_def end_error_def)

lemma quiet_leaving: "fe_conns s i = Some c \<Longrightarrow> cn_phase c = Leaving \<Longrightarrow> fe_cancelled s \<Longrightarrow> quiet ev m i s"
  unfolding quiet_def by (intro exI conjI, rule fe_run.more [OF fe_run.start], erule (1) fe_step.wg_done) simp_all

lemma quiet_serving:
  assumes "fe_conns s i = Some c" and "cn_phase c = Serving" and "fe_cancelled s"
  shows "quiet ev m i s"
proof (rule quiet_step [OF fe_step.cut_conn [OF assms(3,1,2), of ev m 0], where i = i and c = "cut_off 0 c"])
  let ?s = "set_conn i (cut_off 0 c) s"
  have c: "fe_conns ?s i = Some (cut_off 0 c)" "cn_phase (cut_off 0 c) = Serving" using assms(2) by (simp_all add: set_conn_def cut_off_def)
  show "quiet ev m i ?s"
    by (rule quiet_step [OF fe_step.read_error [OF c read_cut], where i = i and c = "(cut_off 0 c)\<lparr>cn_phase := Leaving\<rparr>"])
      (simp_all add: leave_simps [OF c(1)], rule quiet_leaving [where c = "(cut_off 0 c)\<lparr>cn_phase := Leaving\<rparr>"], simp_all add: assms(3) set_conn_def)
qed (simp_all add: set_conn_def)

lemma quiet_any:
  assumes "fe_conns s i = Some c" and "fe_cancelled s"
  shows "quiet ev m i s"
proof (cases "cn_phase c")
  case Accepted
  show ?thesis
    by (rule quiet_step [OF fe_step.open_conn [OF assms(1) Accepted], where i = i and c = "c\<lparr>cn_phase := Serving\<rparr>"])
      (simp_all add: set_conn_def, rule quiet_serving [where c = "c\<lparr>cn_phase := Serving\<rparr>"], simp_all add: assms(2))
next
  case Serving
  show ?thesis by (rule quiet_serving [OF assms(1) Serving assms(2)])
next
  case Leaving
  show ?thesis by (rule quiet_leaving [OF assms(1) Leaving assms(2)])
qed

lemma all_quiet:
  assumes "finite (dom (fe_conns s))" and "fe_cancelled s"
  shows "\<exists>s'. fe_run ev m s s' \<and> fe_conns s' = Map.empty \<and> fe_cancelled s' \<and> fe_phase s' = fe_phase s"
  using assms
proof (induction "card (dom (fe_conns s))" arbitrary: s)
  case 0
  then have "fe_conns s = Map.empty" by simp
  then show ?case using 0 fe_run.start by blast
next
  case (Suc k)
  then obtain i c where i: "fe_conns s i = Some c" by (metis card.empty domIff dom_eq_empty_conv nat.distinct(1) option.exhaust)
  from quiet_any [OF i Suc.prems(2), of ev m] obtain s1 where
    s1: "fe_run ev m s s1" "fe_conns s1 = (fe_conns s)(i := None)" "fe_cancelled s1" "fe_phase s1 = fe_phase s" unfolding quiet_def by blast
  have "k = card (dom (fe_conns s1))" "finite (dom (fe_conns s1))"
    using Suc.hyps(2) Suc.prems(1) s1(2) i by (simp_all add: card_Diff_singleton domI)
  from Suc.hyps(1) [OF this s1(3)] s1(1,4) show ?case by (auto intro: fe_run_trans)
qed


section \<open>Witnesses\<close>

text \<open>A client that sends a \<open>SET\<close> without credentials, accepted and being served.\<close>

definition demo_conn :: connection where
  "demo_conn = (accepted (encode_command [''SET'', ''k'', ''v'']) None None)\<lparr>cn_phase := Serving\<rparr>"

definition demo_front :: "authenticator option \<Rightarrow> (bytes list list, unit, command list) frontend" where
  "demo_front au = new_frontend (nd_disp (demo_node True au)) []"

lemma demo_served:
  "\<exists>s. fe_run ev m (demo_front au) s \<and> fe_conns s = [0 \<mapsto> demo_conn] \<and> fe_disp s = nd_disp (demo_node True au) \<and> fe_up s = []
     \<and> fe_phase s = Accepting"
proof -
  let ?b = "encode_command [''SET'', ''k'', ''v'']"
  let ?s1 = "(set_conn 0 (accepted ?b None None) (demo_front au))\<lparr>fe_next := 1, fe_wg := 1\<rparr>"
  have a: "fe_step ev m (EvAccept 0) (demo_front au) ?s1"
    using fe_step.accept [of "demo_front au" ev m ?b None None] by (simp add: demo_front_def new_frontend_def)
  have c: "fe_conns ?s1 0 = Some (accepted ?b None None)" by (simp add: set_conn_def)
  have "fe_step ev m (EvOpen 0) ?s1 ((set_conn 0 demo_conn ?s1)\<lparr>fe_ops := fe_ops ?s1 @ record_resp_open m\<rparr>)"
    unfolding demo_conn_def by (rule fe_step.open_conn [OF c]) (simp add: accepted_def)
  from fe_run.more [OF fe_run.more [OF fe_run.start a] this]
  show ?thesis by (intro exI conjI) (assumption, simp_all add: set_conn_def demo_front_def new_frontend_def)
qed

theorem strangers_change_nothing_witness:
  "\<exists>s s' l. fe_run demo_env (Some ()) (demo_front (Some demo_auth)) s \<and> fe_step demo_env (Some ()) l s s'
     \<and> l \<in> {EvCommand 0 demo_set, EvLast 0 demo_set} \<and> fe_disp s' = fe_disp s"
proof -
  obtain s where s: "fe_run demo_env (Some ()) (demo_front (Some demo_auth)) s" "fe_conns s = [0 \<mapsto> demo_conn]"
    "fe_disp s = nd_disp (demo_node True (Some demo_auth))" "fe_up s = []" using demo_served by blast
  have c: "fe_conns s 0 = Some demo_conn" "cn_phase demo_conn = Serving" using s(2) by (simp_all add: demo_conn_def)
  have rd: "read_command (cn_input demo_conn) = Done (Inr demo_set, \<lparr>in_bytes = [], in_fin = None\<rparr>)"
    using read_command_encode [of "[''SET'', ''k'', ''v'']" "[]" None]
    by (simp add: demo_conn_def accepted_def new_resp_reader_def demo_set_def args_ok_def arg_ok_def max_alloc_def)
  have req: "auth_required (Some demo_auth)"
    by (simp add: auth_required_def demo_auth_def static_authenticator_def static_required_def demo_static_def)
  have "dispatch demo_env 0 demo_set (conn_node s demo_conn) \<noteq> Panic x" for x
    using req s(3) by (simp add: dispatch_def conn_node_def Let_def demo_conn_def accepted_def new_session_def)
  then obtain n1 e where "dispatch demo_env 0 demo_set (conn_node s demo_conn) = Done (n1, e)"
    by (cases "dispatch demo_env 0 demo_set (conn_node s demo_conn)") auto
  from serve_command_returns [OF this] obtain n r where n: "serve_command demo_env 0 demo_set (conn_node s demo_conn) = Done (n, r)" by blast
  have st: "\<exists>l s'. fe_step demo_env (Some ()) l s s' \<and> l \<in> {EvCommand 0 demo_set, EvLast 0 demo_set}"
  proof (cases r)
    case None
    from fe_step.command [OF c rd _ n [unfolded None], of "Some ()"] show ?thesis by auto
  next
    case (Some x)
    from fe_step.last_command [OF c rd _ n [unfolded Some], of "Some ()"] show ?thesis by auto
  qed
  have v: "\<forall>x \<in> set (cn_cmds demo_conn @ [demo_set]). \<not> vouched (Some demo_auth) x"
    by (simp add: demo_conn_def accepted_def vouched_def presented_def default_user_def demo_auth_def static_authenticator_def
        static_verify_def demo_static_def has_prefix_def)
  from st obtain l s' where "fe_step demo_env (Some ()) l s s'" "l \<in> {EvCommand 0 demo_set, EvLast 0 demo_set}" by blast
  moreover from this strangers_change_nothing [OF s(1) [unfolded demo_front_def] _ _ c(1)] v req
  have "fe_disp s' = fe_disp s" by auto
  ultimately show ?thesis using s(1) by blast
qed

theorem gauge_counts_connections_witness:
  "\<exists>s. fe_run demo_env (Some ()) (demo_front None) s \<and> level RespConnections (fe_ops s) = 1 \<and> fe_wg s = 1"
proof -
  obtain s where s: "fe_run demo_env (Some ()) (demo_front None) s" "fe_conns s = [0 \<mapsto> demo_conn]" using demo_served by blast
  have "serving s = {0}" "dom (fe_conns s) = {0}" using s(2) by (auto simp: serving_def demo_conn_def split: if_splits)
  with gauge_counts_connections [OF s(1) [unfolded demo_front_def]] s(1) show ?thesis by auto
qed


end
