(* ===== verification/Shards.thy ===== *)
theory Shards
  imports Snapshot
begin

text \<open>
  The shards of a cluster backend (\<open>Backend.shards\<close>, \<open>internal/proxy/dispatch.go\<close>).
  \<open>ForEachMaster\<close> of the client library calls its argument on the masters concurrently, one
  goroutine each, and returns when all have; the closure the repository passes appends to one captured slice
  without a lock. An append is a load of the slice and a store, between which other
  goroutines run.
\<close>

section \<open>Walking the masters\<close>

datatype 'b walker = Calling 'b | Loaded 'b "'b list" | CallDone

record 'b walk =
  wk_out :: "'b list"
  wk_calls :: "'b walker list"

definition walk_start :: "'b list \<Rightarrow> 'b walk" where
  "walk_start ms = \<lparr>wk_out = [], wk_calls = map Calling ms\<rparr>"

inductive walk_step :: "'b walk \<Rightarrow> 'b walk \<Rightarrow> bool" where
  load_out: "i < length (wk_calls w) \<Longrightarrow> wk_calls w ! i = Calling m \<Longrightarrow>
    walk_step w (w\<lparr>wk_calls := (wk_calls w)[i := Loaded m (wk_out w)]\<rparr>)"
| store_out: "i < length (wk_calls w) \<Longrightarrow> wk_calls w ! i = Loaded m out \<Longrightarrow>
    walk_step w (w\<lparr>wk_out := out @ [m], wk_calls := (wk_calls w)[i := CallDone]\<rparr>)"

definition all_called :: "'b walk \<Rightarrow> bool" where
  "all_called w \<longleftrightarrow> list_all (\<lambda>c. c = CallDone) (wk_calls w)"

text \<open>
  What \<open>shards\<close> may return: nothing on a nil backend or a client that cannot walk masters
  (\<open>masters = None\<close>), else what is in the slice when all calls have returned.
\<close>

definition shards_return :: "'b list option \<Rightarrow> 'b list \<Rightarrow> bool" where
  "shards_return masters out \<longleftrightarrow>
     (case masters of
        None \<Rightarrow> out = []
      | Some ms \<Rightarrow> (\<exists>w. walk_step\<^sup>*\<^sup>* (walk_start ms) w \<and> all_called w \<and> wk_out w = out))"

section \<open>Runs\<close>

lemma walk_all_load:
  "walk_step\<^sup>*\<^sup>* \<lparr>wk_out = out, wk_calls = pre @ map Calling ms\<rparr> \<lparr>wk_out = out, wk_calls = pre @ map (\<lambda>m. Loaded m out) ms\<rparr>"
proof (induction ms arbitrary: pre)
  case (Cons m ms)
  have "walk_step \<lparr>wk_out = out, wk_calls = pre @ map Calling (m # ms)\<rparr> \<lparr>wk_out = out, wk_calls = (pre @ [Loaded m out]) @ map Calling ms\<rparr>"
    using walk_step.load_out [of "length pre" "\<lparr>wk_out = out, wk_calls = pre @ map Calling (m # ms)\<rparr>" m] by simp
  from converse_rtranclp_into_rtranclp [of walk_step, OF this Cons.IH] show ?case by simp
qed simp

lemma walk_one_by_one:
  "list_all (\<lambda>c. c = CallDone) pre \<Longrightarrow>
     \<exists>w. walk_step\<^sup>*\<^sup>* \<lparr>wk_out = out, wk_calls = pre @ map Calling ms\<rparr> w \<and> all_called w \<and> wk_out w = out @ ms"
proof (induction ms arbitrary: pre out)
  case Nil
  then show ?case by (intro exI [of _ "\<lparr>wk_out = out, wk_calls = pre\<rparr>"]) (simp add: all_called_def)
next
  case (Cons m ms)
  let ?w0 = "\<lparr>wk_out = out, wk_calls = pre @ map Calling (m # ms)\<rparr>" and ?w1 = "\<lparr>wk_out = out, wk_calls = pre @ Loaded m out # map Calling ms\<rparr>"
    and ?w2 = "\<lparr>wk_out = out @ [m], wk_calls = (pre @ [CallDone]) @ map Calling ms\<rparr>"
  have "walk_step ?w0 ?w1" using walk_step.load_out [of "length pre" ?w0 m] by simp
  moreover have "walk_step ?w1 ?w2" using walk_step.store_out [of "length pre" ?w1 m out] by simp
  moreover obtain w where "walk_step\<^sup>*\<^sup>* ?w2 w" "all_called w" "wk_out w = (out @ [m]) @ ms"
    using Cons.IH [of "pre @ [CallDone]" "out @ [m]"] Cons.prems by auto
  ultimately show ?case by (intro exI [of _ w]) (auto intro: converse_rtranclp_into_rtranclp)
qed

text \<open>Goroutines that have all loaded the empty slice: the one that stores last wins.\<close>

lemma walk_last_store_wins:
  assumes "i < length cs" and "cs ! i = Loaded m []" and "\<forall>c \<in> set cs. c = CallDone \<or> (\<exists>x. c = Loaded x [])"
  shows "\<exists>w. walk_step\<^sup>*\<^sup>* \<lparr>wk_out = out, wk_calls = cs\<rparr> w \<and> all_called w \<and> wk_out w = [m]"
  using assms
proof (induction "card {j. j < length cs \<and> j \<noteq> i \<and> cs ! j \<noteq> CallDone}" arbitrary: cs out)
  case 0
  then have others: "\<forall>j < length cs. j \<noteq> i \<longrightarrow> cs ! j = CallDone" by auto
  let ?w = "\<lparr>wk_out = [m], wk_calls = cs[i := CallDone]\<rparr>"
  have "walk_step \<lparr>wk_out = out, wk_calls = cs\<rparr> ?w"
    using walk_step.store_out [of i "\<lparr>wk_out = out, wk_calls = cs\<rparr>" m "[]"] 0 by simp
  moreover have "all_called ?w" using others by (simp add: all_called_def list_all_length) (metis nth_list_update_eq nth_list_update_neq)
  ultimately show ?case by (intro exI [of _ ?w]) auto
next
  case (Suc k)
  then have "{j. j < length cs \<and> j \<noteq> i \<and> cs ! j \<noteq> CallDone} \<noteq> {}" by (metis card.empty nat.distinct(1))
  then obtain j where j: "j < length cs" "j \<noteq> i" "cs ! j \<noteq> CallDone" by blast
  then obtain x where x: "cs ! j = Loaded x []" using Suc.prems(3) nth_mem by blast
  have st: "walk_step \<lparr>wk_out = out, wk_calls = cs\<rparr> \<lparr>wk_out = [x], wk_calls = cs[j := CallDone]\<rparr>"
    using walk_step.store_out [of j "\<lparr>wk_out = out, wk_calls = cs\<rparr>" x "[]"] j(1) x by simp
  have "{l. l < length (cs[j := CallDone]) \<and> l \<noteq> i \<and> cs[j := CallDone] ! l \<noteq> CallDone} = {l. l < length cs \<and> l \<noteq> i \<and> cs ! l \<noteq> CallDone} - {j}"
    using j(1) by (auto simp: nth_list_update split: if_splits)
  then have "k = card {l. l < length (cs[j := CallDone]) \<and> l \<noteq> i \<and> cs[j := CallDone] ! l \<noteq> CallDone}"
    using Suc.hyps(2) j by simp
  from Suc.hyps(1) [OF this, of "[x]"] Suc.prems j(2) set_update_subset_insert [of cs j CallDone] obtain w where
    "walk_step\<^sup>*\<^sup>* \<lparr>wk_out = [x], wk_calls = cs[j := CallDone]\<rparr> w" "all_called w" "wk_out w = [m]" by auto
  with st show ?case by (blast intro: converse_rtranclp_into_rtranclp)
qed

lemma shards_in_turn: "shards_return (Some ms) ms"
  using walk_one_by_one [of "[]" "[]" ms] by (auto simp: shards_return_def walk_start_def)

lemma shards_lost: "i < length ms \<Longrightarrow> shards_return (Some ms) [ms ! i]"
proof -
  assume i: "i < length ms"
  have "walk_step\<^sup>*\<^sup>* (walk_start ms) \<lparr>wk_out = [], wk_calls = map (\<lambda>m. Loaded m []) ms\<rparr>"
    using walk_all_load [of "[]" "[]" ms] by (simp add: walk_start_def)
  moreover obtain w where "walk_step\<^sup>*\<^sup>* \<lparr>wk_out = [], wk_calls = map (\<lambda>m. Loaded m []) ms\<rparr> w" "all_called w" "wk_out w = [ms ! i]"
    using walk_last_store_wins [of i "map (\<lambda>m. Loaded m []) ms" "ms ! i" "[]"] i by auto
  ultimately show ?thesis unfolding shards_return_def by (auto intro: rtranclp_trans)
qed

section \<open>Properties\<close>

text \<open>C32 racing_shards_lose_keys. Whichever master of a cluster one chooses, \<open>shards\<close> can return that
  one alone, since its calls append to one slice without a lock; the full sync that follows then sends the
  keys of this master only and reports success. Called in turn, all masters are returned.\<close>

theorem racing_shards_lose_keys:
  assumes "i < length ms" and "dp_backend d = Some b" and "list_all2 (shard_reads (ev_do ev) clk) ms kcss"
  shows "\<exists>found out. shards_return (Some ms) found
    \<and> stream_snapshot ev (\<lambda>_. found) clk d (accepting g) s = Some (Done (d, foldl g s out, None))
    \<and> concat out = concat (map snd (kcss ! i)) \<and> shards_return (Some ms) ms"
proof -
  have "list_all2 (shard_reads (ev_do ev) clk) [ms ! i] [kcss ! i]" using assms(1,3) by (simp add: list_all2_conv_all_nth)
  from stream_snapshot_accepting [of d b "[ms ! i]" "\<lambda>_. [ms ! i]", OF assms(2) _ this, of g s] obtain out where
    "stream_snapshot ev (\<lambda>_. [ms ! i]) clk d (accepting g) s = Some (Done (d, foldl g s out, None))"
    "concat out = concat (map snd (kcss ! i))" by auto
  with shards_lost [OF assms(1)] shards_in_turn show ?thesis by blast
qed

theorem racing_shards_lose_keys_witness:
  "\<exists>found out. shards_return (Some [(), ()]) found
    \<and> stream_snapshot demo_snap_env (\<lambda>_. found) (\<lambda>_. 5) (new_dispatcher (Some ()) new_router None True None False False) collect []
      = Some (Done (new_dispatcher (Some ()) new_router None True None False False, out, None))
    \<and> concat out = [[''SET'', ''k'', ''v''], [''PEXPIREAT'', ''k'', format_int 1005]]"
proof -
  let ?d = "new_dispatcher (Some ()) new_router None True None False False :: (unit, unit) dispatcher"
  let ?c = "[(''k'', [[''SET'', ''k'', ''v''], [''PEXPIREAT'', ''k'', format_int 1005]])]"
  have "dp_backend ?d = Some ()" by (simp add: new_dispatcher_def)
  moreover have "list_all2 (shard_reads (ev_do demo_snap_env) (\<lambda>_. 5)) [(), ()] [?c, ?c]"
    using demo_shard_reads by (simp add: demo_snap_env_def)
  ultimately show ?thesis
    using racing_shards_lose_keys [of 1 "[(), ()]" ?d "()" demo_snap_env "\<lambda>_. 5" "[?c, ?c]" "\<lambda>s batch. s @ [batch]" "[]"] by auto
qed

end
