(* ===== verification/Acks.thy ===== *)
theory Acks
  imports Node Metrics
begin

text \<open>
  Acknowledgements: the follower's \<open>ackLoop\<close> (\<open>internal/sync/follower.go\<close>) sends its durable
  position on every tick while batches are applied beside it; \<open>Ack\<close> of the primary
  (\<open>internal/sync/server.go\<close>) keeps the highest position per follower and reports metrics. Calls take
  time and may be lost, so a request is in flight between the two.
\<close>

section \<open>The loop and its calls\<close>

record ('s, 'b, 'f) acking =
  ak_repl :: "'s repl"
  ak_flight :: "ack_request list"
  ak_server :: "('b, 'f) sync_server"

text \<open>
  \<open>moved\<close> is a step of replication (see \<open>Follower\<close>), crashes of the follower included; \<open>tick\<close>
  one round of \<open>ackLoop\<close>, \<open>delivered\<close> its call arriving, \<open>lost\<close> the call failing, which only
  logs a warning; \<open>others\<close> are calls of followers with other identities, \<open>served\<close> whatever else
  the primary does with its log and backend.
\<close>

inductive ack_step :: "'s applier_fn \<Rightarrow> ('s, 'b, 'f) acking \<Rightarrow> ('s, 'b, 'f) acking \<Rightarrow> bool" for app where
  moved: "repl_step app (ak_repl s) r \<Longrightarrow> ack_step app s (s\<lparr>ak_repl := r\<rparr>)"
| tick: "ack_step app s (s\<lparr>ak_flight := ak_flight s @ [ack_tick (rp_fl (ak_repl s))]\<rparr>)"
| delivered: "ak_flight s = pre @ req # post \<Longrightarrow> ack (ak_server s) req = Done (sv, lag) \<Longrightarrow>
    ack_step app s (s\<lparr>ak_flight := pre @ post, ak_server := sv\<rparr>)"
| lost: "ak_flight s = pre @ req # post \<Longrightarrow> ack_step app s (s\<lparr>ak_flight := pre @ post\<rparr>)"
| others: "ar_follower_id req \<noteq> fc_id (rp_fl (ak_repl s)) \<Longrightarrow> ack (ak_server s) req = Done (sv, lag) \<Longrightarrow>
    ack_step app s (s\<lparr>ak_server := sv\<rparr>)"
| served: "sv_watermarks sv = sv_watermarks (ak_server s) \<Longrightarrow> ack_step app s (s\<lparr>ak_server := sv\<rparr>)"

section \<open>The acknowledged position\<close>

text \<open>Replication keeps the watermark durable and never takes it back.\<close>

lemma apply_batch_watermark:
  assumes "apply_batch app fl b = Done (fl', r)" and "wm_rep (fc_disk fl) (fc_watermark fl)"
  shows "wm_rep (fc_disk fl') (fc_watermark fl') \<and> wm_applied (fc_watermark fl) \<le> wm_applied (fc_watermark fl') \<and> fc_id fl' = fc_id fl"
  using assms wm_set_rep
  by (fastforce simp: apply_batch_def Let_def elim!: bind_outcome_DoneE split: option.splits if_splits prod.splits)

lemma repl_step_watermark:
  assumes "repl_step app s s'" and "wm_rep (fc_disk (rp_fl s)) (fc_watermark (rp_fl s))"
  shows "wm_rep (fc_disk (rp_fl s')) (fc_watermark (rp_fl s'))
    \<and> wm_applied (fc_watermark (rp_fl s)) \<le> wm_applied (fc_watermark (rp_fl s')) \<and> fc_id (rp_fl s') = fc_id (rp_fl s)"
  using assms(1)
proof cases
  case (delivered c b k fl)
  then show ?thesis using apply_batch_watermark [OF delivered(5) assms(2)] by simp
next
  case (failed c b k fl x)
  then show ?thesis using apply_batch_watermark [OF failed(5) assms(2)] by simp
next
  case (restarted dk w)
  have "wm_value (disk_bytes dk (wm_path (fc_watermark (rp_fl s)))) = Inr (wm_applied (fc_watermark (rp_fl s)))"
    using crash_wm_rep [OF assms(2) restarted(2)] .
  with open_watermark_rep [OF restarted(4)] restarted show ?thesis by (simp add: wm_rep_def)
qed (use assms(2) in simp_all)

definition ack_inv :: "('s, 'b, 'f) acking \<Rightarrow> bool" where
  "ack_inv s \<longleftrightarrow>
     (let fl = rp_fl (ak_repl s) in
      wm_rep (fc_disk fl) (fc_watermark fl)
      \<and> (\<forall>req \<in> set (ak_flight s). ar_follower_id req = fc_id fl \<and> applied_seq req \<le> wm_applied (fc_watermark fl))
      \<and> acked (ak_server s) (fc_id fl) \<le> wm_applied (fc_watermark fl))"

lemma ack_done:
  assumes "sv_wal sv = Some dw"
  obtains sv' where "ack sv req = Done (sv', next_seq dw - applied_seq req)" and "sv_wal sv' = Some dw"
proof -
  let ?sv = "if acked sv (ar_follower_id req) < applied_seq req
    then sv\<lparr>sv_watermarks := (sv_watermarks sv)(ar_follower_id req \<mapsto> applied_seq req)\<rparr> else sv"
  have "sv_wal ?sv = Some dw" using assms by (simp add: sv_wal_def)
  then show thesis by (intro that [of ?sv]) (simp_all add: ack_def Let_def)
qed

lemma ack_acked:
  assumes "ack sv req = Done (sv', lag)"
  shows "acked sv' who = (if who = ar_follower_id req then max (acked sv who) (applied_seq req) else acked sv who)"
  using assms by (auto simp: ack_def Let_def acked_def max_def not_less split: option.splits if_splits)

lemma ack_step_inv:
  assumes "ack_step app s s'" and "ack_inv s"
  shows "ack_inv s'"
  using assms(1)
proof cases
  case (moved r)
  note w = repl_step_watermark [OF moved(2)]
  show ?thesis using moved assms(2) w by (auto simp: ack_inv_def Let_def intro: order_trans)
next
  case tick
  then show ?thesis using assms(2) by (auto simp: ack_inv_def Let_def ack_tick_def)
next
  case (delivered pre req post sv lag)
  then show ?thesis using assms(2) ack_acked [OF delivered(3)] by (auto simp: ack_inv_def Let_def)
next
  case (lost pre req post)
  then show ?thesis using assms(2) by (auto simp: ack_inv_def Let_def)
next
  case (others req sv lag)
  then show ?thesis using assms(2) ack_acked [OF others(3)] by (auto simp: ack_inv_def Let_def)
next
  case (served sv)
  then show ?thesis using assms(2) by (auto simp: ack_inv_def Let_def acked_def)
qed

interpretation acks: invariant "ack_step app" ack_inv for app
  by unfold_locales (rule ack_step_inv)

text \<open>Seen from the follower and its log, acknowledging is nothing.\<close>

lemma ack_run_repl: "(ack_step app)\<^sup>*\<^sup>* s s' \<Longrightarrow> (repl_step app)\<^sup>*\<^sup>* (ak_repl s) (ak_repl s')"
proof (induction rule: rtranclp_induct)
  case (step s1 s2)
  from step(2) have "(repl_step app)\<^sup>*\<^sup>* (ak_repl s1) (ak_repl s2)" by cases auto
  with step.IH show ?case by auto
qed simp

section \<open>Properties\<close>


lemma demo_server_wal: "sv_wal (demo_server dw) = Some dw"
  by (simp add: sv_wal_def demo_server_def new_server_def new_dispatcher_def)


section \<open>Metrics of acknowledgements\<close>

text \<open>The recorder calls of one \<open>Ack\<close>, and of a sequence of them.\<close>

definition ack_records :: "'m option \<Rightarrow> int \<Rightarrow> ack_request \<Rightarrow> u64 \<Rightarrow> mop list" where
  "ack_records m now req lag = record_ack m lag @ record_ack_time m now (ar_follower_id req)"

fun serve_acks :: "'m option \<Rightarrow> int \<Rightarrow> ('b, 'f) sync_server \<Rightarrow> ack_request list \<Rightarrow> (('b, 'f) sync_server \<times> mop list) outcome" where
  "serve_acks m now sv [] = Done (sv, [])"
| "serve_acks m now sv (req # reqs) =
     bind_outcome (ack sv req) (\<lambda>(sv1, lag).
       bind_outcome (serve_acks m now sv1 reqs) (\<lambda>(sv2, ops). Done (sv2, ack_records m now req lag @ ops)))"

lemma serve_acks_snoc:
  assumes "sv_wal sv = Some dw"
  shows "\<exists>sv' ops. serve_acks m now sv (reqs @ [req]) = Done (sv', ops @ ack_records m now req (next_seq dw - applied_seq req))
    \<and> (m \<noteq> None \<longrightarrow> level ReplicationAcks ops = int (length reqs))"
  using assms
proof (induction reqs arbitrary: sv)
  case Nil
  then obtain sv' where "ack sv req = Done (sv', next_seq dw - applied_seq req)" by (rule ack_done)
  then show ?case by (intro exI [of _ sv'] exI [of _ "[]"]) simp
next
  case (Cons r reqs)
  obtain sv1 where a: "ack sv r = Done (sv1, next_seq dw - applied_seq r)" "sv_wal sv1 = Some dw"
    using ack_done [OF Cons.prems] by blast
  from Cons.IH [OF a(2)] obtain sv' ops where
    o: "serve_acks m now sv1 (reqs @ [req]) = Done (sv', ops @ ack_records m now req (next_seq dw - applied_seq req))"
    "m \<noteq> None \<longrightarrow> level ReplicationAcks ops = int (length reqs)" by blast
  then show ?case using a(1)
    by (intro exI [of _ sv'] exI [of _ "ack_records m now r (next_seq dw - applied_seq r) @ ops"])
      (auto simp: ack_records_def record_ack_def record_ack_time_def on_metrics_def)
qed

text \<open>The gauge that is documented as the highest lag of all followers is the
  lag of whichever follower acknowledged last, computed without a sign: whatever the others
  reported, it is the next sequence number minus the position, modulo 2 to the 64. So it is never
  zero while the follower is not ahead, and 1 for a follower that has everything.\<close>

theorem lag_gauge_is_last_ack:
  assumes "sv_wal sv = Some dw"
  shows "\<exists>sv' ops. serve_acks (Some m) now sv (reqs @ [req]) = Done (sv', ops)
    \<and> last_set ReplicationLagHighest ops = Some (OfInt ((uint (next_seq dw) - uint (applied_seq req)) mod 2 ^ 64))
    \<and> level ReplicationAcks ops = int (length reqs) + 1
    \<and> (applied_seq req + 1 = next_seq dw \<longrightarrow> last_set ReplicationLagHighest ops = Some (OfInt 1))"
proof -
  from serve_acks_snoc [OF assms, of "Some m" now reqs req] obtain sv' ops where
    o: "serve_acks (Some m) now sv (reqs @ [req]) = Done (sv', ops @ ack_records (Some m) now req (next_seq dw - applied_seq req))"
    "level ReplicationAcks ops = int (length reqs)" by auto
  let ?ops = "ops @ ack_records (Some m) now req (next_seq dw - applied_seq req)"
  have ls: "last_set ReplicationLagHighest ?ops = Some (OfInt (uint (next_seq dw - applied_seq req)))"
    by (simp add: last_set_append ack_records_def record_ack_def record_ack_time_def on_metrics_def)
  have "level ReplicationAcks ?ops = int (length reqs) + 1"
    using o(2) by (simp add: ack_records_def record_ack_def record_ack_time_def on_metrics_def)
  moreover have "uint (next_seq dw - applied_seq req) = (uint (next_seq dw) - uint (applied_seq req)) mod 2 ^ 64"
    by (simp add: uint_word_ariths)
  moreover have "next_seq dw - applied_seq req = 1" if "applied_seq req + 1 = next_seq dw" using that [symmetric] by simp
  ultimately show ?thesis using o(1) ls by (intro exI [of _ sv'] exI [of _ ?ops]) auto
qed

theorem lag_gauge_is_last_ack_witness:
  "\<exists>sv' ops. serve_acks (Some ()) 0 (demo_server (demo_disk, demo_wal 1))
      [\<lparr>ar_follower_id = ''slow'', applied_seq = 5\<rparr>, \<lparr>ar_follower_id = ''f'', applied_seq = 0\<rparr>] = Done (sv', ops)
     \<and> last_set ReplicationLagHighest ops = Some (OfInt 1)"
proof -
  have n: "next_seq (demo_disk, demo_wal 1) = 1" by (simp add: next_seq_def demo_wal_def)
  from lag_gauge_is_last_ack [OF demo_server_wal [of "(demo_disk, demo_wal 1)"], of "()" 0 "[\<lparr>ar_follower_id = ''slow'', applied_seq = 5\<rparr>]" "\<lparr>ar_follower_id = ''f'', applied_seq = 0\<rparr>"] n
  show ?thesis by auto
qed

section \<open>Identities\<close>

lemma start_follower_id:
  assumes "start_follower wd c d = Inr (Some fl)"
  shows "fc_id fl = cf_grpc_listen c"
  using assms by (auto simp: start_follower_def new_follower_def split: if_splits sum.splits)

text \<open>\<open>run\<close> gives a follower the address its gRPC server listens on as its
  identity. Followers on different machines that listen on the same port, as in the example
  configurations, have the same identity: when the one that is ahead has acknowledged, the
  primary's record for the other is beyond what that one has applied, and its own acknowledgement does
  not change it.\<close>

theorem shared_identity_hides_lag:
  assumes "start_follower wd1 c1 d1 = Inr (Some fl1)" and "start_follower wd2 c2 d2 = Inr (Some fl2)"
    and "cf_grpc_listen c1 = cf_grpc_listen c2" and "wm_applied (fc_watermark fl1) < wm_applied (fc_watermark fl2)"
    and "sv_wal sv = Some dw"
  shows "\<exists>sv1 l1 sv2 l2. ack sv (ack_tick fl2) = Done (sv1, l1) \<and> ack sv1 (ack_tick fl1) = Done (sv2, l2)
    \<and> wm_applied (fc_watermark fl1) < acked sv1 (fc_id fl1) \<and> acked sv2 (fc_id fl1) = acked sv1 (fc_id fl1)"
proof -
  have id: "fc_id fl1 = fc_id fl2" using start_follower_id assms(1-3) by metis
  obtain sv1 where 1: "ack sv (ack_tick fl2) = Done (sv1, next_seq dw - applied_seq (ack_tick fl2))" "sv_wal sv1 = Some dw"
    using ack_done [OF assms(5)] by blast
  obtain sv2 where 2: "ack sv1 (ack_tick fl1) = Done (sv2, next_seq dw - applied_seq (ack_tick fl1))"
    using ack_done [OF 1(2)] by blast
  have "acked sv1 (fc_id fl1) = max (acked sv (fc_id fl1)) (wm_applied (fc_watermark fl2))"
    using ack_acked [OF 1(1)] id by (simp add: ack_tick_def)
  moreover have "acked sv2 (fc_id fl1) = max (acked sv1 (fc_id fl1)) (wm_applied (fc_watermark fl1))"
    using ack_acked [OF 2] by (simp add: ack_tick_def)
  ultimately show ?thesis using 1(1) 2 assms(4) by (auto simp: max_def)
qed

lemma demo_start_follower:
  "\<exists>fl. start_follower demo_world (demo_config [''p:7000'']) d = Inr (Some fl) \<and> wm_applied (fc_watermark fl) = 0"
proof -
  have "disk_file demo_disk p = None" for p by (simp add: disk_file_def demo_disk_def)
  then show ?thesis
    by (simp add: start_follower_def is_primary_def upstream_addrs_def demo_config_def demo_world_def new_follower_def
        open_watermark_def file_open_def faulty_def demo_disk_def disk_file_def)
qed

text \<open>A follower that has applied five entries.\<close>

definition demo_ahead :: "unit world" where
  "demo_ahead = demo_world\<lparr>wd_state := \<lparr>dk_files = [((''d/state'', ''watermark''), \<lparr>fd_bytes = format_uint 5, fd_synced = 1\<rparr>)],
     dk_space = None, dk_faults = []\<rparr>\<rparr>"

lemma demo_start_ahead:
  "\<exists>fl. start_follower demo_ahead (demo_config [''p:7000'']) d = Inr (Some fl) \<and> wm_applied (fc_watermark fl) = 5"
proof -
  have five: "wm_value (Some (format_uint 5)) = Inr 5" using wm_value_format [of 5] by simp
  have "disk_bytes (wd_state demo_ahead) (''d/state'', ''watermark'') = Some (format_uint 5)"
    by (simp add: demo_ahead_def disk_bytes_def disk_file_def)
  with five open_watermark_value [of "(''d/state'', ''watermark'')" "wd_state demo_ahead" 5]
  have "open_watermark (wd_state demo_ahead) (''d/state'', ''watermark'') = Inr \<lparr>wm_path = (''d/state'', ''watermark''), wm_applied = 5\<rparr>"
    by (simp add: demo_ahead_def)
  moreover have "state_dir (demo_config [''p:7000'']) = ''d/state''" by (simp add: state_dir_def demo_config_def)
  ultimately show ?thesis
    by (simp add: start_follower_def is_primary_def upstream_addrs_def demo_config_def new_follower_def)
qed

theorem shared_identity_hides_lag_witness:
  "\<exists>fl1 fl2 sv1 l1. start_follower demo_world (demo_config [''p:7000'']) (new_dispatcher None new_router None False None True False) = Inr (Some fl1)
     \<and> start_follower demo_ahead (demo_config [''p:7000'']) (new_dispatcher None new_router None False None True False) = Inr (Some fl2)
     \<and> ack (demo_server (demo_disk, demo_wal 1)) (ack_tick fl2) = Done (sv1, l1) \<and> wm_applied (fc_watermark fl1) < acked sv1 (fc_id fl1)"
proof -
  let ?d = "new_dispatcher None new_router None False None True False :: (unit, grpc_forwarder) dispatcher"
  obtain fl1 fl2 where fl: "start_follower demo_world (demo_config [''p:7000'']) ?d = Inr (Some fl1)" "wm_applied (fc_watermark fl1) = 0"
    "start_follower demo_ahead (demo_config [''p:7000'']) ?d = Inr (Some fl2)" "wm_applied (fc_watermark fl2) = 5"
    using demo_start_follower demo_start_ahead by blast
  from shared_identity_hides_lag [OF fl(1,3) refl _ demo_server_wal [of "(demo_disk, demo_wal 1)"]] fl(2,4)
  show ?thesis using fl(1,3) by auto
qed

section \<open>Connections of the follower\<close>

text \<open>
  The client connections \<open>runOnce\<close> leaves open: one that could not be made or on which \<open>Subscribe\<close>
  fails is closed; one whose stream opened is not closed on any of the returns that follow.
\<close>

definition run_once_conns :: "upstream \<Rightarrow> (nat \<Rightarrow> nat) \<Rightarrow> 's follower \<Rightarrow> nat" where
  "run_once_conns up pick fl =
     (let addrs = fc_owner_addrs fl in
      if addrs = [] then 0
      else case up (addrs ! pick (length addrs)) (subscribe_req fl) of Inl _ \<Rightarrow> 0 | Inr _ \<Rightarrow> 1)"

fun run_conns :: "'s applier_fn \<Rightarrow> (upstream \<times> (nat \<Rightarrow> nat)) list \<Rightarrow> 's follower \<Rightarrow> nat outcome" where
  "run_conns app [] fl = Done 0"
| "run_conns app ((up, pick) # rest) fl =
     bind_outcome (run_once app up pick fl) (\<lambda>(fl', connected, err).
       bind_outcome (run_conns app rest fl') (\<lambda>n. Done (run_once_conns up pick fl + n)))"

lemma apply_batch_addrs: "apply_batch app fl b = Done (fl', r) \<Longrightarrow> fc_owner_addrs fl' = fc_owner_addrs fl"
  by (auto simp: apply_batch_def Let_def elim!: bind_outcome_DoneE split: option.splits if_splits prod.splits)

lemma run_batches_addrs: "run_batches app fl bs fin = Done (fl', r) \<Longrightarrow> fc_owner_addrs fl' = fc_owner_addrs fl"
  by (induction bs arbitrary: fl) (auto elim!: bind_outcome_DoneE split: option.splits dest!: apply_batch_addrs)

lemma run_once_addrs: "run_once app up pick fl = Done (fl', c, r) \<Longrightarrow> fc_owner_addrs fl' = fc_owner_addrs fl"
  by (auto simp: run_once_def Let_def elim!: bind_outcome_DoneE split: if_splits sum.splits prod.splits dest!: run_batches_addrs)

text \<open>Every time the follower's stream opens and breaks, one client
  connection stays open: after any number of reconnects to upstreams that accept the subscription
  there are as many open connections as attempts.\<close>

theorem reconnects_leak_connections:
  assumes "follower_run app backoff atts fl = Done (fl', waits)" and "fc_owner_addrs fl \<noteq> []"
    and "\<And>up pick a r. (up, pick) \<in> set atts \<Longrightarrow> \<not> isl (up a r)"
  shows "run_conns app atts fl = Done (length atts)"
  using assms
proof (induction atts arbitrary: backoff fl fl' waits)
  case (Cons x atts)
  obtain up pick where x: "x = (up, pick)" by fastforce
  from Cons.prems(1) obtain fl1 c r bo w where ro: "run_once app up pick fl = Done (fl1, c, r)" "follower_run app bo atts fl1 = Done (fl', w)"
    by (auto simp: x elim!: bind_outcome_DoneE)
  have "fc_owner_addrs fl1 \<noteq> []" using run_once_addrs [OF ro(1)] Cons.prems(2) by simp
  from Cons.IH [OF ro(2) this] Cons.prems(3) have "run_conns app atts fl1 = Done (length atts)" by auto
  moreover have "\<not> isl (up (fc_owner_addrs fl ! pick (length (fc_owner_addrs fl))) (subscribe_req fl))" 
    by (rule Cons.prems(3) [of up pick]) (simp add: x)
  then have "run_once_conns up pick fl = 1"
    using Cons.prems(2) by (auto simp: run_once_conns_def Let_def split: sum.splits)
  ultimately show ?case using ro(1) by (simp add: x)
qed simp

theorem reconnects_leak_connections_witness:
  "\<exists>fl' waits. follower_run (apply_entry counter_env) min_backoff (replicate 3 (\<lambda>_ _. Inr ([], None), \<lambda>_. 0)) (demo_follower 0) = Done (fl', waits)
     \<and> run_conns (apply_entry counter_env) (replicate 3 (\<lambda>_ _. Inr ([], None), \<lambda>_. 0)) (demo_follower 0) = Done 3"
proof -
  let ?a = "replicate 3 (\<lambda>_ _. Inr ([], None), \<lambda>_. 0) :: (upstream \<times> (nat \<Rightarrow> nat)) list"
  obtain fl' waits where r: "follower_run (apply_entry counter_env) min_backoff ?a (demo_follower 0) = Done (fl', waits)"
    by (simp add: numeral_3_eq_3 run_once_def Let_def)
  from reconnects_leak_connections [OF r] r show ?thesis by auto
qed

end
