(* ===== verification/Observe.thy ===== *)
theory Observe
  imports Repl_Server Metrics
begin

text \<open>
  The recorder calls of the handlers: \<open>Dispatch\<close> and \<open>do\<close> (\<open>internal/proxy/dispatch.go\<close>), \<open>Forward\<close> of
  the write forwarder (\<open>internal/proxy/forward.go\<close>), \<open>Subscribe\<close>, \<open>fullSync\<close> and \<open>Forward\<close> of the
  replication server (\<open>internal/sync/server.go\<close>), each beside the handler it belongs to; and the
  forwarder's \<open>Close\<close>. \<open>t\<close> is the measured duration.
\<close>

section \<open>The dispatcher\<close>

definition do_records :: "('b, 'f, 'u) env \<Rightarrow> 'm option \<Rightarrow> int \<Rightarrow> ('b, 'f) dispatcher \<Rightarrow> bytes list \<Rightarrow> mop list" where
  "do_records ev m t d as =
     (case dp_backend d of None \<Rightarrow> [] | Some b \<Rightarrow> record_backend m t (isl (snd (ev_do ev b as))))"

definition write_records :: "('b, 'f, 'u) env \<Rightarrow> 'm option \<Rightarrow> int \<Rightarrow> int \<Rightarrow> ('b, 'f) dispatcher \<Rightarrow> command \<Rightarrow> mop list" where
  "write_records ev m t now d c =
     (case dp_wal d of
        None \<Rightarrow> do_records ev m t d (cmd_args c)
      | Some dw \<Rightarrow>
          (case normalize_expiry (ev_upper ev) (cmd_args c) now of
             Panic _ \<Rightarrow> []
           | Done es \<Rightarrow> (case append_entries (ev_codec ev) now dw es of (_, Some _) \<Rightarrow> [] | (_, None) \<Rightarrow> do_records ev m t d (cmd_args c))))"

definition dispatch_records :: "('b, 'f, 'u) env \<Rightarrow> 'm option \<Rightarrow> int \<Rightarrow> int \<Rightarrow> command \<Rightarrow> ('b, 'f, 'u) node \<Rightarrow> mop list" where
  "dispatch_records ev m t now c n =
     (let name = cmd_name (ev_upper ev) c; d = nd_disp n in
      if name \<in> {''AUTH'', ''HELLO'', ''QUIT'', ''RESET''} then []
      else if auth_required (dp_auth d) \<and> \<not> authed (nd_sess n) then []
      else if name \<in> {''PING'', ''ECHO'', ''SELECT''} then []
      else case decide (ev_upper ev) (dp_router d) name of
        RouteDeny \<Rightarrow> record_dispatch m ''deny'' 0
      | RouteRead \<Rightarrow> do_records ev m t d (cmd_args c) @ record_dispatch m ''read'' t
      | RouteWrite \<Rightarrow>
          if \<not> dp_primary d then []
          else (case match_route (dp_routes d) (cmd_args c) of
              (Some f, pre) \<Rightarrow> record_dispatch m (''write.'' @ pre) t
            | (None, _) \<Rightarrow>
                (case dispatch_local_write ev now d c of
                   Panic _ \<Rightarrow> []
                 | Done _ \<Rightarrow> write_records ev m t now d c @ record_dispatch m ''write'' t)))"

section \<open>The forwarder\<close>

definition forward_records :: "(string \<Rightarrow> string option) \<Rightarrow> ('u \<Rightarrow> forward_request \<Rightarrow> 'u \<times> (string + forward_reply)) \<Rightarrow>
    'm option \<Rightarrow> int \<Rightarrow> grpc_forwarder \<Rightarrow> 'u \<Rightarrow> command \<Rightarrow> mop list" where
  "forward_records dial rpc m t g u c =
     (case grpc_client dial g of
        (_, Some _) \<Rightarrow> record_forward m t True
      | (_, None) \<Rightarrow>
          (case rpc u \<lparr>fr_args = cmd_args c\<rparr> of
             (_, Inl _) \<Rightarrow> record_forward m t True
           | (_, Inr r) \<Rightarrow>
               if is_nil r then []
               else if fr_value r \<noteq> [] \<and> hd (fr_value r) = CHR ''-'' then record_forward m t True
               else record_forward m t False))"

text \<open>\<open>Close\<close> closes the connection, if there is one, but keeps it and the client.\<close>

definition grpc_close :: "(string \<Rightarrow> string option) \<Rightarrow> grpc_forwarder \<Rightarrow> grpc_forwarder \<times> string option" where
  "grpc_close cl g = (g, if gf_connected g then cl (gf_addr g) else None)"

lemma closed_client_is_reused: "gf_connected g \<Longrightarrow> grpc_client dial (fst (grpc_close cl g)) = (g, None)"
  by (simp add: grpc_close_def grpc_client_def)

section \<open>The replication server\<close>

definition takes_full_sync :: "('b, 'f) sync_server \<Rightarrow> subscribe_request \<Rightarrow> bool" where
  "takes_full_sync sv req \<longleftrightarrow>
     (case sv_wal sv of
        None \<Rightarrow> False
      | Some dw \<Rightarrow> from_seq req = 0 \<or> 0 < min_seq dw \<and> from_seq req < min_seq dw)"

text \<open>The calls of one \<open>Subscribe\<close> until it returns, or so far (\<open>ended = False\<close>).\<close>

definition subscribe_records :: "'m option \<Rightarrow> int \<Rightarrow> ('b, 'f) sync_server \<Rightarrow> subscribe_request \<Rightarrow> bool \<Rightarrow> mop list" where
  "subscribe_records m dur sv req ended =
     record_subscribe_start m
     @ (if takes_full_sync sv req then record_full_sync_start m @ record_full_sync_end m dur else [])
     @ (if ended then record_subscribe_end m else [])"

definition sv_forward_records :: "'m option \<Rightarrow> mop list" where
  "sv_forward_records m = record_stream_forward m"

section \<open>Properties\<close>

lemma level_simps [simp]:
  "level ForwardRequests (record_forward (Some m) t e) = 1" "level ForwardErrors (record_forward (Some m) t e) = (if e then 1 else 0)"
  "level ReplicationSubscribers (record_subscribe_start (Some m)) = 1" "level ReplicationSubscribers (record_subscribe_end (Some m)) = -1"
  "level c (record_full_sync_start (Some m) @ record_full_sync_end (Some m) t) = (if c = FullSyncTotal then 1 else 0)"
  "level FullSyncTotal (record_subscribe_start (Some m)) = 0" "level FullSyncTotal (record_subscribe_end (Some m)) = 0"
  by (simp_all add: recorder_defs)

text \<open>\<open>Forward\<close> counts every request once, and as an error exactly when it
  returns one, with one exception: a request the upstream answers with nil, which is returned as an
  error, is not counted at all.\<close>

theorem forward_metrics_miss_nil:
  assumes "grpc_forward dial rpc g u c = (g', u', res)"
  shows "let ops = forward_records dial rpc (Some m) t g u c;
      nil = (snd (grpc_client dial g) = None \<and> (\<exists>v r. rpc u \<lparr>fr_args = cmd_args c\<rparr> = (v, Inr r) \<and> is_nil r))
    in (nil \<longrightarrow> ops = [] \<and> res = Inl redis_nil_lookalike)
      \<and> (\<not> nil \<longrightarrow> level ForwardRequests ops = 1 \<and> level ForwardErrors ops = (if isl res then 1 else 0))"
  using assms
  by (auto simp: grpc_forward_def forward_records_def Let_def split: prod.splits option.splits sum.splits if_splits)

theorem forward_metrics_miss_nil_witness:
  "forward_records (\<lambda>_. None) (\<lambda>u r. (u, Inr \<lparr>fr_value = [], is_nil = True\<rparr>)) (Some ()) 0 (new_grpc_forwarder ''a'') () demo_set = []"
proof -
  let ?rpc = "\<lambda>u r. (u, Inr \<lparr>fr_value = [], is_nil = True\<rparr>) :: unit \<times> (string + forward_reply)"
  obtain g' u' res where "grpc_forward (\<lambda>_. None) ?rpc (new_grpc_forwarder ''a'') () demo_set = (g', u', res)" by (metis prod_cases3)
  from forward_metrics_miss_nil [OF this, of "()" 0] show ?thesis
    by (simp add: Let_def grpc_client_def new_grpc_forwarder_def)
qed

text \<open>The gauges of subscribers and running full syncs return to their level; a full sync that is
  begun counts as completed, whether it succeeded or not.\<close>

lemma subscribe_records_levels:
  "level ReplicationSubscribers (subscribe_records (Some m) dur sv req ended) = (if ended then 0 else 1)
   \<and> level FullSyncInProgress (subscribe_records (Some m) dur sv req ended) = 0
   \<and> level FullSyncTotal (subscribe_records (Some m) dur sv req ended) = (if takes_full_sync sv req then 1 else 0)"
  by (simp add: subscribe_records_def recorder_defs)

lemma recorder_typed [simp]:
  "list_all well_typed_op (record_backend m t err)" "list_all well_typed_op (record_dispatch m route t)"
  "list_all well_typed_op (record_forward m t err)" "list_all well_typed_op (record_subscribe_start m)"
  "list_all well_typed_op (record_subscribe_end m)" "list_all well_typed_op (record_full_sync_start m)"
  "list_all well_typed_op (record_full_sync_end m t)" "list_all well_typed_op (record_stream_forward m)"
  by (simp_all add: recorder_defs op_fits_def mk_opts_def)

lemma do_records_typed [simp]: "list_all well_typed_op (do_records ev m t d as)"
  by (simp add: do_records_def split: option.split)

lemma write_records_typed [simp]: "list_all well_typed_op (write_records ev m t now d c)"
  by (simp add: write_records_def split: option.split outcome.split prod.split)

lemma handler_records_typed:
  "list_all well_typed_op (dispatch_records ev m t now c n)" "list_all well_typed_op (forward_records dial rpc m t g u c)"
  "list_all well_typed_op (subscribe_records m dur sv req ended)" "list_all well_typed_op (sv_forward_records m)"
  by (simp_all add: dispatch_records_def forward_records_def subscribe_records_def sv_forward_records_def Let_def
      split: option.split outcome.split prod.split sum.split route.split)

text \<open>Writes on a node that is not the primary are not counted as dispatched; every other routed command is, once.\<close>

lemma dispatches_counted:
  assumes "name = cmd_name (ev_upper ev) c"
    and "name \<notin> {''AUTH'', ''HELLO'', ''QUIT'', ''RESET'', ''PING'', ''ECHO'', ''SELECT''}"
    and "\<not> auth_required (dp_auth (nd_disp n)) \<or> authed (nd_sess n)" and "dispatch_routed ev now c n = Done r"
  shows "level RespDispatches (dispatch_records ev (Some m) t now c n) =
    (if decide (ev_upper ev) (dp_router (nd_disp n)) name = RouteWrite \<and> \<not> dp_primary (nd_disp n) then 0 else 1)"
  using assms
  by (auto simp: dispatch_records_def write_records_def do_records_def dispatch_routed_def recorder_defs Let_def
      split: option.splits outcome.splits prod.splits route.splits)

end
