(* ===== verification/Cli.thy ===== *)
theory Cli
  imports Node Metrics
begin


text \<open>
  The program from its command line to its exit status: \<open>main\<close> and the outer part of \<open>run\<close>
  (\<open>cmd/meridian/main.go\<close>). \<open>flag.Parse\<close> is modelled as the standard library has it for the two
  flags of the program; the exit status of a panic is 2, as the Go runtime has it. What blocks until the
  end (\<open>Serve\<close> of the front-end or of the load balancer's gRPC server) is the argument \<open>serve\<close>.
\<close>

section \<open>Flags\<close>

record flags =
  fg_config :: string
  fg_version :: bool
  fg_args :: "string list"

definition no_flags :: flags where
  "no_flags = \<lparr>fg_config = [], fg_version = False, fg_args = []\<rparr>"

definition parse_bool :: "string \<Rightarrow> bool option" where
  "parse_bool s =
     (if s \<in> {''1'', ''t'', ''T'', ''true'', ''TRUE'', ''True''} then Some True
      else if s \<in> {''0'', ''f'', ''F'', ''false'', ''FALSE'', ''False''} then Some False
      else None)"

text \<open>One argument: not a flag, the terminator, malformed, or a name with its value if it has one.\<close>

datatype flag_word = NotFlag | Terminator | BadSyntax | FlagName string "string option"

definition flag_word :: "string \<Rightarrow> flag_word" where
  "flag_word s =
     (if length s < 2 \<or> hd s \<noteq> CHR ''-'' then NotFlag
      else if s = ''--'' then Terminator
      else let name = (if s ! 1 = CHR ''-'' then drop 2 s else drop 1 s) in
        if name = [] \<or> hd name = CHR ''-'' \<or> hd name = CHR ''='' then BadSyntax
        else let n = takeWhile (\<lambda>c. c \<noteq> CHR ''='') name in
          FlagName n (if n = name then None else Some (drop (Suc (length n)) name)))"

text \<open>\<open>Inl\<close> is the status with which \<open>flag.Parse\<close> exits: 0 after printing the help, else 2.\<close>

function parse_flags :: "flags \<Rightarrow> string list \<Rightarrow> nat + flags" where
  "parse_flags f [] = Inr f"
| "parse_flags f (s # rest) =
     (case flag_word s of
        NotFlag \<Rightarrow> Inr (f\<lparr>fg_args := s # rest\<rparr>)
      | Terminator \<Rightarrow> Inr (f\<lparr>fg_args := rest\<rparr>)
      | BadSyntax \<Rightarrow> Inl 2
      | FlagName n v \<Rightarrow>
          if n = ''config'' then
            (case (v, rest) of
               (Some x, _) \<Rightarrow> parse_flags (f\<lparr>fg_config := x\<rparr>) rest
             | (None, x # rest') \<Rightarrow> parse_flags (f\<lparr>fg_config := x\<rparr>) rest'
             | (None, []) \<Rightarrow> Inl 2)
          else if n = ''version'' then
            (case parse_bool (case v of None \<Rightarrow> ''true'' | Some x \<Rightarrow> x) of
               Some b \<Rightarrow> parse_flags (f\<lparr>fg_version := b\<rparr>) rest
             | None \<Rightarrow> Inl 2)
          else if n = ''help'' \<or> n = ''h'' then Inl 0
          else Inl 2)"
  by pat_completeness auto
termination by (relation "measure (\<lambda>(f, as). length as)") auto

section \<open>run\<close>

definition node_role :: "config \<Rightarrow> string" where
  "node_role c = (if cf_relay c then ''relay'' else if is_lb c then ''lb'' else if is_primary c then ''primary'' else ''follower'')"

datatype run_error = RunStart start_error | RunServe string

text \<open>
  \<open>run\<close> registers the metrics before anything else; \<open>start_node\<close> is the rest up to the servers.
  The calls on metrics that \<open>run\<close> makes itself come with the result.
\<close>

definition run_ops :: "config \<Rightarrow> mop list" where
  "run_ops c = MSet Info [cf_cluster c, cf_name c, node_role c] (OfInt 1)
     # (if \<not> is_lb c \<and> has_backend c then [MSet BackendHealthy [] (OfInt 1)] else [])"

definition run :: "'r prom \<Rightarrow> 'r \<Rightarrow> 'b world \<Rightarrow> ('b started \<Rightarrow> string option) \<Rightarrow> config \<Rightarrow> (mop list \<times> run_error option) outcome" where
  "run pm reg wd serve c =
     bind_outcome (metrics_new pm reg (cf_cluster c) (cf_name c)) (\<lambda>m.
       bind_outcome (start_node wd c) (\<lambda>st.
         case st of
           Inl e \<Rightarrow>
             Done (case e of
                     StPing _ \<Rightarrow> [MSet Info [cf_cluster c, cf_name c, node_role c] (OfInt 1)]
                   | _ \<Rightarrow> run_ops c,
                   Some (RunStart e))
         | Inr x \<Rightarrow> Done (run_ops c, map_option RunServe (serve x))))"

text \<open>The ticker that reports the log every 15 seconds.\<close>

definition wal_tick :: "disk \<times> wal \<Rightarrow> mop list" where
  "wal_tick dw = [MSet WALSegmentCount [] (OfInt (int (segment_count (snd dw)))), MSet WALCurrentSeq [] (OfInt (uint (next_seq dw)))]"

text \<open>What the metrics endpoint serves, when one is configured.\<close>

definition metrics_endpoint :: "config \<Rightarrow> string \<Rightarrow> http_handler option" where
  "metrics_endpoint c path = (if cf_metrics_listen c = [] then None else mux_handler path)"

section \<open>main\<close>

datatype printed = PrVersion | PrUsage | PrConfigError load_error | PrRunError run_error | PrNothing | PrPanic string

definition config_path :: "flags \<Rightarrow> string option" where
  "config_path f = (if fg_config f \<noteq> [] then Some (fg_config f) else case fg_args f of [] \<Rightarrow> None | a # _ \<Rightarrow> Some a)"

definition main :: "(string \<Rightarrow> load_error + config) \<Rightarrow> (config \<Rightarrow> (mop list \<times> run_error option) outcome) \<Rightarrow> string list \<Rightarrow> printed \<times> nat" where
  "main ld rn argv =
     (case parse_flags no_flags argv of
        Inl status \<Rightarrow> (PrUsage, status)
      | Inr f \<Rightarrow>
          if fg_version f then (PrVersion, 0)
          else case config_path f of
            None \<Rightarrow> (PrUsage, 2)
          | Some path \<Rightarrow>
              (case ld path of
                 Inl e \<Rightarrow> (PrConfigError e, 1)
               | Inr c \<Rightarrow>
                   (case rn c of
                      Panic m \<Rightarrow> (PrPanic m, 2)
                    | Done (_, Some e) \<Rightarrow> (PrRunError e, 1)
                    | Done (_, None) \<Rightarrow> (PrNothing, 0))))"

section \<open>Properties\<close>

lemma parse_config_flag: "parse_flags no_flags [''-config'', p] = Inr (no_flags\<lparr>fg_config := p\<rparr>)"
  "parse_flags no_flags [''--config='' @ p] = Inr (no_flags\<lparr>fg_config := p\<rparr>)"
  by (simp_all add: flag_word_def Let_def)

lemma parse_other_flags:
  "parse_flags no_flags [''-version''] = Inr (no_flags\<lparr>fg_version := True\<rparr>)" "parse_flags no_flags [''-h''] = Inl 0"
  "parse_flags no_flags [''-config''] = Inl 2" "parse_flags no_flags [''-verbose''] = Inl 2"
  "parse_flags no_flags [''c.json'', ''-version''] = Inr (no_flags\<lparr>fg_args := [''c.json'', ''-version'']\<rparr>)"
  by (simp_all add: flag_word_def Let_def parse_bool_def)

text \<open>C28 main_panics_at_start. With the library's default registry, which \<open>main\<close> uses and in which
  the Go collector is registered from the start, the program never starts a node: whatever
  configuration it loads and whatever it finds, it panics in \<open>metrics.New\<close> and exits with status 2.\<close>

theorem main_panics_at_start:
  assumes "registry_documented (pm_must pm) contents" and "d \<in> set (pm_go pm)" and "d \<in> contents reg"
    and "''meridian_cluster'' \<notin> fst ` set (ds_const d)"
    and "parse_flags no_flags argv = Inr f" and "\<not> fg_version f" and "config_path f = Some path" and "load rf getenv decode path = Inr c"
  shows "\<exists>m. main (load rf getenv decode) (run pm reg wd serve) argv = (PrPanic m, 2)"
proof -
  obtain m where "metrics_new pm reg (cf_cluster c) (cf_name c) = Panic m"
    using metrics_new_default [OF assms(1-4)] by blast
  then show ?thesis using assms(5-8) by (simp add: main_def run_def)
qed

theorem main_panics_at_start_witness:
  "\<exists>m. main (load (\<lambda>_. Inr ''{}'') (\<lambda>_. []) (\<lambda>_. Inr (demo_config []))) (run demo_prom [go_info] demo_world (\<lambda>_. None)) [''-config'', ''c.json''] = (PrPanic m, 2)"
proof (rule main_panics_at_start [OF _ _ _ _ parse_config_flag(1)])
  show "registry_documented (pm_must demo_prom) set" by (simp add: demo_prom_def demo_must_documented)
  show "go_info \<in> set (pm_go demo_prom)" "go_info \<in> set [go_info]" by (simp_all add: demo_prom_def)
  show "''meridian_cluster'' \<notin> fst ` set (ds_const go_info)" by (simp add: go_info_def)
  show "load (\<lambda>_. Inr ''{}'') (\<lambda>_. []) (\<lambda>_. Inr (demo_config [])) ''c.json'' = Inr (demo_config [])"
    by (simp add: load_def demo_valid)
qed (simp_all add: no_flags_def config_path_def)


end
