(* ===== verification/Spec2Isabelle.thy ===== *)
theory Spec2Isabelle
  imports Node Relay Live_Snapshot Lifecycle Frontend Shards Acks Observe Cli
begin

text \<open>
  A verification development for the Redis replication bridge: a proxy that speaks the Redis
  protocol to clients, executes commands on a Redis backend, records every write in a
  write-ahead log and streams that log to follower nodes.

  \<^bold>\<open>The program.\<close> A client connection is served by \<open>internal/server/server.go\<close>: it reads a command
  (\<open>internal/resp/resp.go\<close>) and hands it to the dispatcher (\<open>internal/proxy/dispatch.go\<close>), which
  answers connection commands itself (\<open>internal/proxy/auth.go\<close>, with the credentials of
  \<open>internal/auth/auth.go\<close>), looks up the route of any other command (\<open>internal/proxy/router.go\<close>),
  and executes a read on the local backend. A write is forwarded upstream by a node that is not
  the primary, or by the primary when a key prefix is routed elsewhere
  (\<open>internal/proxy/forward.go\<close>); otherwise the primary normalises relative expiries, appends the
  command to its log (\<open>internal/wal/wal.go\<close>, records framed by \<open>internal/wal/recordio.go\<close>) and
  executes it. The replication server (\<open>internal/sync/server.go\<close>) streams the log to subscribers,
  after a snapshot of the backend if need be, and accepts acknowledgements and forwarded
  writes. A follower (\<open>internal/sync/follower.go\<close>) subscribes at its watermark
  (\<open>internal/sync/watermark.go\<close>), applies the batches through the dispatcher's \<open>Apply\<close>, which on
  a relay also appends to the local log, and retries with backoff. \<open>cmd/meridian/main.go\<close> puts
  the parts together as the configuration (\<open>internal/config/config.go\<close>) says. Handlers report to
  the Prometheus collectors of \<open>internal/metrics/metrics.go\<close>.

  \<^bold>\<open>The theories.\<close>
  \<^item> \<open>Prelude\<close>, \<open>Gostrings\<close>, \<open>Framing\<close>: bytes, 64-bit integers, panics as an \<open>outcome\<close>, the parts of
    \<open>strconv\<close> and \<open>strings\<close> the code calls; a locale for codecs whose encodings can be read one
    after the other, interpreted on the command and the record format.
  \<^item> \<open>Recordio\<close>: \<open>AppendRecord\<close>, the buffered reader and \<open>Scan\<close>, equal to a reference parser for every
    way the input is cut into reads; \<open>Disk\<close>: files with their synced part, faults, crashes.
  \<^item> \<open>Message\<close>, \<open>Wire\<close>: the protocol messages; marshalling is an argument with the contract
    \<open>codec_ok\<close>, and \<open>Wire\<close> is an encoding that meets it, for the witnesses.
  \<^item> \<open>Wal\<close>, \<open>Wal_Log\<close>, \<open>Wal_Recovery\<close>: every operation of the log; its representation invariant
    and what a crash and \<open>Open\<close> leave of it. \<open>Log_Spec\<close>: the locale \<open>ordered_log\<close>, the contract of a
    log that numbers its entries, with the log as its provider.
  \<^item> \<open>Resp\<close>, \<open>Router\<close>, \<open>Auth\<close>, \<open>Expiry\<close>, \<open>Dispatch\<close>: the protocol, the command tables, credentials
    and sessions (locale \<open>credential_check\<close>), the expiry normalisation, the dispatcher and the
    forwarder. \<open>Server\<close>: the loop over a connection.
  \<^item> \<open>Snapshot\<close>: \<open>StreamSnapshot\<close> and \<open>scanKey\<close>; \<open>Live_Snapshot\<close>: the same code on a backend that executes commands of
    others in between. \<open>Repl_Server\<close>: \<open>Subscribe\<close>, \<open>Ack\<close>, \<open>Forward\<close>, the
    full synchronisation, and a step relation for a subscription beside concurrent appends.
  \<^item> \<open>Watermark\<close>, \<open>Follower\<close>: the follower, the locale \<open>applier\<close> for the interface it applies
    entries through, interpreted on the dispatcher, and a step relation of a follower and the log
    it replicates, with failures, crashes and reconnects. The locale \<open>positioned\<close> describes an applier that keeps a
    position in a log; \<open>applier\<close> is a sublocale of it. \<open>Full_Sync\<close>: a full synchronisation and
    the follower that receives it. \<open>Relay\<close>: nodes that log what they apply, the second interpretation of \<open>positioned\<close>, and
    the chain from the primary over a relay to a follower.
  \<^item> \<open>Node\<close>: configuration, validation and the construction of a node; \<open>Cli\<close>: flags, \<open>run\<close> with the
    registration of metrics, \<open>main\<close> and its exit status.
  \<^item> \<open>Concurrency\<close>: goroutines that share a dispatcher, with \<open>writeMu\<close>, as a step relation; \<open>Frontend\<close>: the
    accept loop, many connections and shutdown, as a step relation; \<open>Acks\<close>: \<open>ackLoop\<close> and \<open>Ack\<close> beside
    replication; \<open>Shards\<close>: the goroutines that collect the masters of a cluster; \<open>Lifecycle\<close>: the end of \<open>run\<close> while calls
    are in progress. The locale \<open>invariant\<close> of \<open>Prelude\<close> is interpreted on all of these but \<open>Shards\<close>.
  \<^item> \<open>Metrics\<close>: the collectors, their registration, the recorder methods as lists of calls on collectors,
    the HTTP routes; \<open>Observe\<close>: which of these calls the handlers make.

  \<^bold>\<open>How state and effects are modelled.\<close> Structs are records with the fields of the source, Go
  maps are maps or association lists, errors are values of sum types, a panic is the value
  \<open>Panic\<close> (no goroutine recovers). Calls on metrics are kept apart from the handlers, as lists. Operations under a mutex are functions on the state and
  single steps of the step relations. The log of a dispatcher is a pair of the disk it lives on
  and the \<open>WAL\<close> struct; the replication server reaches it through its dispatcher, since \<open>main\<close>
  passes it the same pointer. The clock is an argument. Code outside the repository is an
  argument: the Redis client (\<open>ev_do\<close>), the RPC transport (\<open>ev_forward\<close>, \<open>upstream\<close>, the senders
  of batches), the protobuf codec, bcrypt, the JSON decoder, the operating system's files, and the
  Prometheus registry, with its documented behaviour as the hypothesis \<open>registry_documented\<close>.

  \<^bold>\<open>What is shown.\<close> The log stores, numbers and returns entries across roll-overs, survives
  crashes up to what was synced, and where it does not: numbering restarts when the last segment
  is empty, and entries after a torn record are lost. Commands and replies round-trip through
  the protocol; a connection is exactly the sequence of its commands. Nothing happens without
  credentials; a follower never logs a client's command; the primary logs the time-independent
  form of a write and executes it once. A subscription sends the log without gap or repetition
  and misses no wake-up; a follower executes entries in order, never skips one whatever fails,
  and without failures ends in exactly the state the log describes, also from a client's
  command on the primary to the replica. Concurrent writes and reads on one dispatcher are as if
  made one after the other, and never deadlock; among many connections, one without credentials of
  its own changes nothing; the connection gauge counts the connections, and shutdown drains them. What a
  follower has acknowledged it has executed and will still have after a crash. A relay in step with the primary serves the primary's
  log, number by number. A snapshot taken beside writers ends and holds every key that nobody changed; what a follower has executed after
  a full synchronisation is stated exactly. A regular shutdown answers the calls of clients first. The flaws found are stated as theorems of kind
  error: reversed lists in snapshots, snapshot numbering that hides later writes and
  repeats earlier ones, a relay that is ahead of its watermark and loses entries, replay without the write lock, a forwarded write
  that a shutdown leaves logged and not executed, an entry the backend rejects blocking a follower for
  good, reply types lost on forwarding, panics on malformed input, masters lost in a data race,
  followers that share an identity, connections that are never closed, and that \<open>main\<close> itself panics when it
  registers its collectors with the default registry. All other theorems about a running node
  are about the program with that registration repaired: \<open>start_node\<close> begins after it.

  \<^bold>\<open>Loops and fuel.\<close> All recursions are total except the two loops whose end depends on others:
  the cursor loop of a snapshot (\<open>snap_shard\<close>) and the inner loop of a subscription (\<open>sub_drain\<close>) are
  partial functions into \<open>option\<close>, and are proved to return. \<open>drain\<close> in \<open>Log_Spec\<close> takes fuel; more
  than the number of entries is enough. \<open>Run\<close> of the follower is modelled over the finite list of
  its attempts, a connection over the finite bytes it delivers.

  \<^bold>\<open>Not modelled.\<close> Of \<open>proto/\<close>, generated code, only the message structs. The delivery of signals
  (cancellation can happen at any step of \<open>Frontend\<close> and \<open>Lifecycle\<close>), logging, and the text of replies
  of \<open>promhttp\<close> and \<open>pprof\<close>, which are libraries. Metric values are integers or durations before their
  conversion to \<open>float64\<close>. Concurrency is modelled at the granularity of the locks and of single commands on
  the backend. A full synchronisation (\<open>Full_Sync\<close>) is put together from a snapshot without writes in between; \<open>Live_Snapshot\<close>
  has the writes, for keys without expiry on a single server.
\<close>

section \<open>From the client to the replica\<close>

lemma normalize_expiry_not_Nil: "normalize_expiry uni as now = Done es \<Longrightarrow> es \<noteq> []"
  by (auto simp: normalize_expiry_def normalize_set_def normalize_set_ex_def normalize_expire_cmd_def Let_def
      elim!: bind_outcome_DoneE split: if_splits option.splits prod.splits)

text \<open>C1 write_reaches_follower. From the client's command to the replica: a write dispatched on
  the primary is logged and executed there, the server streams the log with it to a follower
  that had caught up with any part of the log, and the follower's backend ends as the result
  of executing, in order and once, the whole log and then the time-independent form of the
  command; its watermark is at the end of the log.\<close>

theorem write_reaches_follower:
  fixes ev :: "('b, 'f, 'u) env" and fev :: "('c, 'g, 'v) env"
  assumes "decide (ev_upper ev) new_router (cmd_name (ev_upper ev) c) = RouteWrite"
    and "dp_router (nd_disp n) = new_router" and "dp_primary (nd_disp n)"
    and "match_route (dp_routes (nd_disp n)) (cmd_args c) = (None, p)"
    and "\<not> auth_required (dp_auth (nd_disp n)) \<or> authed (nd_sess n)"
    and "dp_wal (nd_disp n) = Some (dk, w)" and "codec_ok (ev_codec ev)" and "wal_log (ev_codec ev) (dk, w) es"
    and "disk_fine dk" and "wal_ready w"
    and "normalize_expiry (ev_upper ev) (cmd_args c) now = Done as"
    and "\<And>a n. a \<in> set as \<Longrightarrow> \<exists>b. pb_marshal (ev_codec ev) \<lparr>seq_id = n, args = a, timestamp_ms = now\<rparr> = Inr b"
    and "unat (wl_next w) + length as < 2 ^ 64"
    and "dp_backend (nd_disp n) = Some b" and "ev_do ev b (cmd_args c) = (b', r)"
    and "unat (wl_next w) = Suc (length es)"
    and "plain_node (fc_applier fl)" and "disk_fine (fc_disk fl)" and "wm_rep (fc_disk fl) (fc_watermark fl)"
    and "wm_applied (fc_watermark fl) = of_nat k" and "k \<le> length es"
    and "node_store (fc_applier fl) = replay (ev_do fev) b0 (map args (take k es))"
    and "\<And>x b. x \<in> set (map args es @ as) \<Longrightarrow> \<not> isl (snd (ev_do fev b x))"
  shows "\<exists>n' e sv' c1 ch bs c2 fl'. dispatch ev now c n = Done (n', e) \<and> dp_backend (nd_disp n') = Some b'
    \<and> subscribe ev sh clk up collect_batch (new_server (Some (nd_disp n')) 0) (subscribe_req fl) [] = Some (Done (sv', [], Streaming c1 ch))
    \<and> sub_drain (ev_codec ev) collect_batch 256 (the (sv_wal sv')) c1 [] = Some (Done (bs, Inr c2))
    \<and> run_batches (apply_entry fev) fl bs None = Done (fl', None)
    \<and> wm_applied (fc_watermark fl') = of_nat (length es + length as)
    \<and> node_store (fc_applier fl') = replay (ev_do fev) b0 (map args es @ as)"
proof -
  obtain n' e dw' ys where p: "dispatch ev now c n = Done (n', e)" "dp_wal (nd_disp n') = Some dw'"
    "wal_log (ev_codec ev) dw' (es @ ys)" "map args ys = as" "dp_backend (nd_disp n') = Some b'"
    "unat (next_seq dw') = unat (wl_next w) + length as"
    using dispatch_primary_write [OF assms(1-15)] by blast
  obtain d w' where dw: "dw' = (d, w')" by fastforce
  have len: "length ys = length as" using p(4) by auto
  then have "es @ ys \<noteq> []" using normalize_expiry_not_Nil [OF assms(11)] by auto
  moreover have "unat (next_seq dw') = Suc (length (es @ ys))" using p(6) assms(16) len by simp
  ultimately have fo: "from_one (es @ ys)" "min_seq (d, w') \<le> 1" using wal_log_from_one [OF assms(7) p(3)] by (auto simp: dw)
  let ?sv = "new_server (Some (nd_disp n')) 0"
  have sv: "sv_wal ?sv = Some (d, w')" "sv_max_batch ?sv = int 256" using p(2) by (simp_all add: new_server_def sv_wal_def default_max_batch_def dw)
  have fine: "\<not> isl (snd (ev_do fev x (args y)))" if "y \<in> set (es @ ys)" for x y
    using assms(23) that p(4) by (metis image_eqI list.set_map map_append)
  have at: "node_store (fc_applier fl) = replay (ev_do fev) b0 (map args (take k (es @ ys)))" "k \<le> length (es @ ys)"
    using assms(21,22) by simp_all
  obtain sv' c1 ch bs c2 fl' where
    "subscribe ev sh clk up collect_batch ?sv (subscribe_req fl) [] = Some (Done (sv', [], Streaming c1 ch))"
    "sub_drain (ev_codec ev) collect_batch (sv_max_batch ?sv) (the (sv_wal sv')) c1 [] = Some (Done (bs, Inr c2))"
    "run_batches (apply_entry fev) fl bs None = Done (fl', None)" "wm_applied (fc_watermark fl') = of_nat (length (es @ ys))"
    "node_store (fc_applier fl') = replay (ev_do fev) b0 (map args (es @ ys))"
    using run_batches_subscribed [OF assms(7) sv(1) p(3) [unfolded dw] fo(1) sv(2) _ fo(2) assms(17-20) at(2,1) fine, of ev sh clk up]
    by auto
  moreover have "sv_max_batch ?sv = 256" "length (es @ ys) = length es + length as" "map args (es @ ys) = map args es @ as"
    using sv(2) len p(4) by simp_all
  ultimately show ?thesis using p(1,5) by (intro exI conjI) simp_all
qed


theorem write_reaches_follower_witness:
  "\<exists>n' e sv' c1 ch bs c2 fl'. dispatch demo_env 7 demo_set (demo_node True None) = Done (n', e)
     \<and> dp_backend (nd_disp n') = Some [[''SET'', ''k'', ''v'']]
     \<and> subscribe demo_env (\<lambda>_. []) (\<lambda>_. 0) (\<lambda>_ _. Inl []) collect_batch (new_server (Some (nd_disp n')) 0)
         (subscribe_req (demo_follower 0)) [] = Some (Done (sv', [], Streaming c1 ch))
     \<and> sub_drain wire collect_batch 256 (the (sv_wal sv')) c1 [] = Some (Done (bs, Inr c2))
     \<and> run_batches (apply_entry counter_env) (demo_follower 0) bs None = Done (fl', None)
     \<and> wm_applied (fc_watermark fl') = 1 \<and> node_store (fc_applier fl') = 1"
proof -
  have norm: "normalize_expiry (\<lambda>s. s) [''SET'', ''k'', ''v''] 7 = Done [[''SET'', ''k'', ''v'']]"
    by (simp add: normalize_expiry_def normalize_set_def Let_def numeral_3_eq_3)
  obtain n' e sv' c1 ch bs c2 fl' where "dispatch demo_env 7 demo_set (demo_node True None) = Done (n', e)"
    "dp_backend (nd_disp n') = Some [[''SET'', ''k'', ''v'']]"
    "subscribe demo_env (\<lambda>_. []) (\<lambda>_. 0) (\<lambda>_ _. Inl []) collect_batch (new_server (Some (nd_disp n')) 0)
       (subscribe_req (demo_follower 0)) [] = Some (Done (sv', [], Streaming c1 ch))"
    "sub_drain wire collect_batch 256 (the (sv_wal sv')) c1 [] = Some (Done (bs, Inr c2))"
    "run_batches (apply_entry counter_env) (demo_follower 0) bs None = Done (fl', None)"
    "wm_applied (fc_watermark fl') = 1" "node_store (fc_applier fl') = 1"
    using write_reaches_follower [of demo_env demo_set "demo_node True None" "[]" demo_disk "demo_wal 1" "[]" 7
        "[[''SET'', ''k'', ''v'']]" "[]" "[[''SET'', ''k'', ''v'']]" "Inr (RpStr ''OK'')" "demo_follower 0" 0 counter_env 0
        "\<lambda>_. []" "\<lambda>_. 0" "\<lambda>_ _. Inl []"]
      norm wire_ok demo_log(2) [of wire 1] demo_marshal_args
    by (auto simp: match_route_def auth_required_def)
  then show ?thesis by (intro exI conjI)
qed

end
